(* ===== verification/Prelude.thy ===== *)
theory Prelude
  imports Main
begin

text \<open>
  Shared material of the development: the result type of fallible operations and its
  sequencing combinator, rows of a relational table addressed by a primary key, and the
  proof collections the component theories feed.

  Every Go function that returns \<open>(value, error)\<close> is a function into \<open>'e + 'a\<close>:
  \<open>Inl e\<close> is the non-nil error, \<open>Inr v\<close> the value.  \<open>andThen\<close> is the idiom
  \<^verbatim>\<open>if err != nil { return err }\<close>: it stops at the first error.
\<close>

section \<open>Results\<close>

definition andThen :: "'e + 'a \<Rightarrow> ('a \<Rightarrow> 'e + 'b) \<Rightarrow> 'e + 'b" where
  "andThen m f = (case m of Inl e \<Rightarrow> Inl e | Inr x \<Rightarrow> f x)"

lemma andThen_simps [simp]:
  "andThen (Inl e) f = Inl e"
  "andThen (Inr x) f = f x"
  by (simp_all add: andThen_def)

lemma andThen_eq_Inr: "andThen m f = Inr y \<longleftrightarrow> (\<exists>x. m = Inr x \<and> f x = Inr y)"
  by (cases m) auto

lemma andThen_eq_Inl:
  "andThen m f = Inl e \<longleftrightarrow> m = Inl e \<or> (\<exists>x. m = Inr x \<and> f x = Inl e)"
  by (cases m) auto

lemma andThen_InrE:
  assumes "andThen m f = Inr y"
  obtains x where "m = Inr x" and "f x = Inr y"
  using assms by (auto simp: andThen_eq_Inr)

lemma andThen_cong [fundef_cong]:
  "m = m' \<Longrightarrow> (\<And>x. m' = Inr x \<Longrightarrow> f x = f' x) \<Longrightarrow> andThen m f = andThen m' f'"
  by (cases m') auto

section \<open>Collections\<close>

text \<open>
  \<open>store_defs\<close> holds the unfolding equations of the store's primitive operations,
  \<open>frame_simps\<close> the equations saying which part of the state an operation leaves alone.
\<close>

named_theorems store_defs "definitions of primitive store operations"
named_theorems frame_simps "parts of the state an operation does not touch"

section \<open>Rows addressed by a primary key\<close>

text \<open>
  A table is a list of rows without two rows of the same key.  \<open>replace_row\<close> overwrites
  the row with a given key, the effect of a keyed \<^verbatim>\<open>UPDATE\<close>.
\<close>

definition replace_row :: "('row \<Rightarrow> 'k) \<Rightarrow> 'k \<Rightarrow> 'row \<Rightarrow> 'row list \<Rightarrow> 'row list" where
  "replace_row key k n rows = map (\<lambda>r. if key r = k then n else r) rows"

definition row_at :: "('row \<Rightarrow> 'k) \<Rightarrow> 'k \<Rightarrow> 'row list \<Rightarrow> 'row option" where
  "row_at key k rows = find (\<lambda>r. key r = k) rows"

locale keyed_rows =
  fixes key :: "'row \<Rightarrow> 'k"
begin

lemma row_at_SomeD: "row_at key k rows = Some r \<Longrightarrow> r \<in> set rows \<and> key r = k"
  by (auto simp: row_at_def find_Some_iff)

lemma row_at_None: "row_at key k rows = None \<longleftrightarrow> k \<notin> key ` set rows"
  by (auto simp: row_at_def find_None_iff)

lemma row_at_unique:
  "distinct (map key rows) \<Longrightarrow> r \<in> set rows \<Longrightarrow> row_at key (key r) rows = Some r"
proof (induction rows)
  case Nil
  then show ?case by simp
next
  case (Cons a rows)
  then show ?case by (auto simp: row_at_def rev_image_eqI)
qed

lemma replace_row_keys:
  "key n = k \<Longrightarrow> map key (replace_row key k n rows) = map key rows"
  by (auto simp: replace_row_def)

lemma replace_row_distinct:
  "key n = k \<Longrightarrow> distinct (map key (replace_row key k n rows)) = distinct (map key rows)"
  by (simp add: replace_row_keys)

lemma replace_row_length [simp]: "length (replace_row key k n rows) = length rows"
  by (simp add: replace_row_def)

lemma row_at_replace_same:
  "key n = k \<Longrightarrow> k \<in> key ` set rows \<Longrightarrow> row_at key k (replace_row key k n rows) = Some n"
  by (induction rows) (auto simp: row_at_def replace_row_def)

lemma row_at_replace_other:
  "key n = k \<Longrightarrow> k' \<noteq> k \<Longrightarrow> row_at key k' (replace_row key k n rows) = row_at key k' rows"
  by (induction rows) (auto simp: row_at_def replace_row_def)

lemma set_replace_row:
  "set (replace_row key k n rows) =
     {r \<in> set rows. key r \<noteq> k} \<union> (if k \<in> key ` set rows then {n} else {})"
  by (auto simp: replace_row_def)

lemma in_replace_rowD:
  "r \<in> set (replace_row key k n rows) \<Longrightarrow> r = n \<or> (r \<in> set rows \<and> key r \<noteq> k)"
  by (auto simp: replace_row_def)

text \<open>How a keyed update changes the number of rows with a property.\<close>

lemma count_replace_row:
  assumes "distinct (map key rows)" and "old \<in> set rows" and "key old = k"
  shows "int (length (filter P (replace_row key k n rows))) =
         int (length (filter P rows)) - (if P old then 1 else 0) + (if P n then 1 else 0)"
  using assms
proof (induction rows)
  case Nil
  then show ?case by simp
next
  case (Cons a rows)
  show ?case
  proof (cases "a = old")
    case True
    with Cons.prems have "\<forall>r \<in> set rows. key r \<noteq> k" by (auto simp: rev_image_eqI)
    then have "replace_row key k n rows = rows"
      by (simp add: replace_row_def map_idI)
    with True Cons.prems show ?thesis by (simp add: replace_row_def)
  next
    case False
    with Cons.prems have "key a \<noteq> k" by (auto simp: rev_image_eqI)
    with False Cons show ?thesis by (auto simp: replace_row_def split: if_splits)
  qed
qed

lemma filter_replace_row_eq:
  assumes "\<And>r. r \<in> set rows \<Longrightarrow> key r = k \<Longrightarrow> P r = P n \<and> (P n \<longrightarrow> f r = f n)"
  shows "map f (filter P (replace_row key k n rows)) = map f (filter P rows)"
  using assms by (induction rows) (auto simp: replace_row_def)

end

section \<open>Counting\<close>

lemma length_filter_append [simp]:
  "length (filter P (xs @ ys)) = length (filter P xs) + length (filter P ys)"
  by simp

lemma length_filter_split:
  "length xs = length (filter P xs) + length (filter (\<lambda>x. \<not> P x) xs)"
  by (induction xs) auto

lemma filter_all_conv: "length (filter P xs) = length xs \<longleftrightarrow> (\<forall>x \<in> set xs. P x)"
  by (induction xs) (auto simp: less_Suc_eq_le, metis Suc_n_not_le_n length_filter_le)

end
