(* ===== verification/Ratelimit.thy ===== *)
theory Ratelimit
  imports Prelude Complex_Main
begin

text \<open>
  The token buckets of \<^verbatim>\<open>internal/ratelimit/ratelimit.go\<close>: the three Lua scripts that run atomically
  on the Redis server, and the Go functions around them.

  Balances and rates are rationals: the doubles of the scripts, without their rounding, and
  without NaN and the infinities, which \<open>validateFields\<close> refuses.  Clock readings are integers
  in microseconds.  A bucket's hash is an optional record; its time to live is kept with it.
  Redis may drop the hash once that time has passed and not before, at a moment of its own
  choosing, so expiry is a step of its own.
\<close>

section \<open>Buckets\<close>

record bucket =
  bk_key :: string
  bk_capacity :: int
  bk_refill_per_sec :: rat

datatype ratelimit_error =
  EmptyKey | BadCapacity int | BadRefill rat | BadCost int | ErrCostExceedsCapacity int int

definition validateFields :: "bucket \<Rightarrow> ratelimit_error + unit" where
  "validateFields b =
     (if bk_key b = [] then Inl EmptyKey
      else if bk_capacity b \<le> 0 then Inl (BadCapacity (bk_capacity b))
      else if bk_refill_per_sec b < 0 then Inl (BadRefill (bk_refill_per_sec b))
      else Inr ())"

definition validate_cost :: "bucket \<Rightarrow> int \<Rightarrow> ratelimit_error + unit" where
  "validate_cost b cost =
     andThen (validateFields b) (\<lambda>_.
     if cost \<le> 0 then Inl (BadCost cost)
     else if cost > bk_capacity b then Inl (ErrCostExceedsCapacity cost (bk_capacity b))
     else Inr ())"

section \<open>The scripts\<close>

text \<open>\<open>bs_ttl\<close> is the time to live in milliseconds, none for a hash made persistent.\<close>

record bucket_state =
  bs_tokens :: rat
  bs_ts :: int
  bs_ttl :: "int option"

definition refill :: "rat \<Rightarrow> rat \<Rightarrow> int \<Rightarrow> bucket_state option \<Rightarrow> rat" where
  "refill capacity rate now st = (case st of None \<Rightarrow> capacity | Some s \<Rightarrow>
     let elapsed = (if now - bs_ts s < 0 then 0 else now - bs_ts s);
         tokens = bs_tokens s + of_int elapsed * rate / 1000000
     in if tokens > capacity then capacity else tokens)"

definition persist :: "rat \<Rightarrow> rat \<Rightarrow> int \<Rightarrow> rat \<Rightarrow> bucket_state" where
  "persist capacity rate now tokens = \<lparr>bs_tokens = tokens, bs_ts = now,
     bs_ttl = (if rate > 0 then Some (\<lceil>(capacity - tokens) / rate * 1000\<rceil> + 1000) else None)\<rparr>"

definition retry_after :: "bool \<Rightarrow> rat \<Rightarrow> rat \<Rightarrow> rat \<Rightarrow> int" where
  "retry_after ok cost tokens rate =
     (if ok then 0 else if rate > 0 then \<lceil>(cost - tokens) / rate * 1000000\<rceil> else -1)"

text \<open>Each script returns its reply and the new hash: allowed, the balance, the wait.\<close>

definition acquireScript :: "rat \<Rightarrow> rat \<Rightarrow> rat \<Rightarrow> int \<Rightarrow> bucket_state option \<Rightarrow> (bool \<times> rat \<times> int) \<times> bucket_state" where
  "acquireScript capacity rate cost now st =
     (let tokens = refill capacity rate now st;
          allowed = (cost \<le> tokens);
          wait = retry_after allowed cost tokens rate;
          left = (if allowed then tokens - cost else tokens)
      in ((allowed, left, wait), persist capacity rate now left))"

definition adjustScript :: "rat \<Rightarrow> rat \<Rightarrow> rat \<Rightarrow> int \<Rightarrow> bucket_state option \<Rightarrow> rat \<times> bucket_state" where
  "adjustScript capacity rate delta now st =
     (let tokens = refill capacity rate now st - delta;
          left = (if tokens > capacity then capacity else tokens)
      in (left, persist capacity rate now left))"

record dual_reply =
  dr_allowed :: bool
  dr_tokens1 :: rat
  dr_tokens2 :: rat
  dr_retry_after :: int
  dr_denied :: int

definition acquireDualScript :: "rat \<Rightarrow> rat \<Rightarrow> rat \<Rightarrow> rat \<Rightarrow> rat \<Rightarrow> rat \<Rightarrow> int
    \<Rightarrow> bucket_state option \<Rightarrow> bucket_state option \<Rightarrow> dual_reply \<times> bucket_state \<times> bucket_state" where
  "acquireDualScript cap1 rate1 cost1 cap2 rate2 cost2 now st1 st2 =
     (let t1 = refill cap1 rate1 now st1; t2 = refill cap2 rate2 now st2;
          ok1 = (cost1 \<le> t1); ok2 = (cost2 \<le> t2);
          t1' = (if ok1 \<and> ok2 then t1 - cost1 else t1);
          t2' = (if ok1 \<and> ok2 then t2 - cost2 else t2);
          r1 = retry_after ok1 cost1 t1 rate1; r2 = retry_after ok2 cost2 t2 rate2
      in (\<lparr>dr_allowed = (ok1 \<and> ok2), dr_tokens1 = t1', dr_tokens2 = t2',
           dr_retry_after = (if ok1 \<and> ok2 then 0 else if r1 = -1 \<or> r2 = -1 then -1 else if r1 \<ge> r2 then r1 else r2),
           dr_denied = (if ok1 \<and> ok2 then 0 else if \<not> ok1 \<and> \<not> ok2 then 3 else if \<not> ok1 then 1 else 2)\<rparr>,
          persist cap1 rate1 now t1', persist cap2 rate2 now t2'))"

section \<open>The Go side\<close>

text \<open>The server: hashes by key.  Durations are int64 nanoseconds.\<close>

type_synonym redis = "string \<Rightarrow> bucket_state option"

definition wrap64 :: "int \<Rightarrow> int" where
  "wrap64 x = (x + 2 ^ 63) mod 2 ^ 64 - 2 ^ 63"

definition RetryAfterNever :: int where "RetryAfterNever = -1"

definition duration_of :: "bool \<Rightarrow> int \<Rightarrow> int" where
  "duration_of allowed us = (if allowed then 0 else if us < 0 then RetryAfterNever else wrap64 (us * 1000))"

record acquire_result =
  ar_allowed :: bool
  ar_remaining :: int
  ar_retry_after :: int

definition Acquire :: "bucket \<Rightarrow> int \<Rightarrow> int \<Rightarrow> redis \<Rightarrow> ratelimit_error + acquire_result \<times> redis" where
  "Acquire b cost now db =
     andThen (validate_cost b cost) (\<lambda>_.
     case acquireScript (of_int (bk_capacity b)) (bk_refill_per_sec b) (of_int cost) now (db (bk_key b)) of
       ((allowed, tokens, wait), st) \<Rightarrow>
         Inr (\<lparr>ar_allowed = allowed, ar_remaining = \<lfloor>tokens\<rfloor>, ar_retry_after = duration_of allowed wait\<rparr>,
              db(bk_key b := Some st)))"

datatype denied_bucket = DeniedNone | DeniedRequests | DeniedTokens | DeniedBoth

definition denied_of :: "int \<Rightarrow> denied_bucket" where
  "denied_of d = (if d = 1 then DeniedRequests else if d = 2 then DeniedTokens else if d = 3 then DeniedBoth else DeniedNone)"

fun denied_string :: "denied_bucket \<Rightarrow> string" where
  "denied_string DeniedRequests = ''requests''"
| "denied_string DeniedTokens = ''tokens''"
| "denied_string DeniedBoth = ''both''"
| "denied_string DeniedNone = ''none''"

record dual_result =
  du_allowed :: bool
  du_denied :: denied_bucket
  du_retry_after :: int
  du_remaining_requests :: int
  du_remaining_tokens :: int

datatype dual_error = RequestsBucket ratelimit_error | TokensBucket ratelimit_error

definition AcquireDual :: "bucket \<Rightarrow> int \<Rightarrow> bucket \<Rightarrow> int \<Rightarrow> int \<Rightarrow> redis \<Rightarrow> dual_error + dual_result \<times> redis" where
  "AcquireDual requests reqCost tokens tokCost now db =
     (case validate_cost requests reqCost of Inl e \<Rightarrow> Inl (RequestsBucket e) | Inr _ \<Rightarrow>
      case validate_cost tokens tokCost of Inl e \<Rightarrow> Inl (TokensBucket e) | Inr _ \<Rightarrow>
      case acquireDualScript (of_int (bk_capacity requests)) (bk_refill_per_sec requests) (of_int reqCost)
             (of_int (bk_capacity tokens)) (bk_refill_per_sec tokens) (of_int tokCost) now
             (db (bk_key requests)) (db (bk_key tokens)) of
        (r, st1, st2) \<Rightarrow>
          Inr (\<lparr>du_allowed = dr_allowed r, du_denied = denied_of (dr_denied r),
                du_retry_after = duration_of (dr_allowed r) (dr_retry_after r),
                du_remaining_requests = \<lfloor>dr_tokens1 r\<rfloor>, du_remaining_tokens = \<lfloor>dr_tokens2 r\<rfloor>\<rparr>,
               db(bk_key requests := Some st1, bk_key tokens := Some st2)))"

definition Adjust :: "bucket \<Rightarrow> int \<Rightarrow> int \<Rightarrow> redis \<Rightarrow> ratelimit_error + int \<times> redis" where
  "Adjust b delta now db =
     andThen (validateFields b) (\<lambda>_.
     case adjustScript (of_int (bk_capacity b)) (bk_refill_per_sec b) (of_int delta) now (db (bk_key b)) of
       (tokens, st) \<Rightarrow> Inr (\<lfloor>tokens\<rfloor>, db(bk_key b := Some st)))"

section \<open>Histories of one bucket\<close>

text \<open>
  What happened to a bucket: tokens granted, debited and refunded by adjustments, and the
  microseconds its clock advanced (a clock that steps back advances by nothing).
\<close>

record ledger =
  lg_granted :: int
  lg_debited :: int
  lg_refunded :: int
  lg_ticks :: int

definition empty_ledger :: ledger where
  "empty_ledger = \<lparr>lg_granted = 0, lg_debited = 0, lg_refunded = 0, lg_ticks = 0\<rparr>"

definition tick :: "int \<Rightarrow> int \<Rightarrow> ledger \<Rightarrow> ledger" where
  "tick now now' l = l\<lparr>lg_ticks := lg_ticks l + max 0 (now' - now)\<rparr>"

text \<open>Redis counts whole milliseconds, so a hash may go up to one millisecond early.\<close>

definition may_expire :: "int \<Rightarrow> bucket_state \<Rightarrow> bool" where
  "may_expire now s = (case bs_ttl s of None \<Rightarrow> False | Some ms \<Rightarrow> bs_ts s + (ms - 1) * 1000 \<le> now)"

inductive bucket_run :: "bucket \<Rightarrow> redis \<Rightarrow> int \<Rightarrow> ledger \<Rightarrow> bool" for b where
  start: "db (bk_key b) = None \<Longrightarrow> bucket_run b db now empty_ledger"
| acquire: "bucket_run b db now l \<Longrightarrow> Acquire b cost now' db = Inr (r, db') \<Longrightarrow>
    bucket_run b db' now' (tick now now' (l\<lparr>lg_granted := lg_granted l + (if ar_allowed r then cost else 0)\<rparr>))"
| adjust: "bucket_run b db now l \<Longrightarrow> Adjust b delta now' db = Inr (r, db') \<Longrightarrow>
    bucket_run b db' now' (tick now now' (l\<lparr>lg_debited := lg_debited l + max 0 delta, lg_refunded := lg_refunded l + max 0 (- delta)\<rparr>))"
| expire: "bucket_run b db now l \<Longrightarrow> db (bk_key b) = Some s \<Longrightarrow> may_expire now' s \<Longrightarrow>
    bucket_run b (db(bk_key b := None)) now' (tick now now' l)"
| other: "bucket_run b db now l \<Longrightarrow> db' (bk_key b) = db (bk_key b) \<Longrightarrow> bucket_run b db' now' (tick now now' l)"

abbreviation cap_of :: "bucket \<Rightarrow> rat" where "cap_of b \<equiv> of_int (bk_capacity b)"

definition balance :: "bucket \<Rightarrow> int \<Rightarrow> redis \<Rightarrow> rat" where
  "balance b now db = refill (cap_of b) (bk_refill_per_sec b) now (db (bk_key b))"

definition minted :: "bucket \<Rightarrow> int \<Rightarrow> rat" where
  "minted b ticks = of_int ticks * bk_refill_per_sec b / 1000000"

definition hash_ok :: "bucket \<Rightarrow> bucket_state option \<Rightarrow> bool" where
  "hash_ok b st = (case st of None \<Rightarrow> True | Some s \<Rightarrow>
     bs_tokens s \<le> cap_of b \<and> s = persist (cap_of b) (bk_refill_per_sec b) (bs_ts s) (bs_tokens s))"

lemma validateFields_ok:
  "validateFields b = Inr u \<longleftrightarrow> bk_key b \<noteq> [] \<and> 0 < bk_capacity b \<and> 0 \<le> bk_refill_per_sec b"
  by (auto simp: validateFields_def)

lemma validate_cost_ok:
  "validate_cost b cost = Inr u \<longleftrightarrow> validateFields b = Inr () \<and> 0 < cost \<and> cost \<le> bk_capacity b"
  by (auto simp: validate_cost_def andThen_eq_Inr)

lemma refill_le: "hash_ok b st \<Longrightarrow> refill (cap_of b) (bk_refill_per_sec b) now st \<le> cap_of b"
  by (auto simp: refill_def Let_def split: option.splits)

lemma refill_persist_now: "tokens \<le> cap \<Longrightarrow> refill cap rate now (Some (persist cap rate now tokens)) = tokens"
  by (simp add: refill_def persist_def)

lemma refill_later:
  assumes "0 \<le> rate"
  shows "refill cap rate now' st \<le> refill cap rate now st + of_int (max 0 (now' - now)) * rate / 1000000"
proof (cases st)
  case None
  then show ?thesis using assms by (simp add: refill_def)
next
  case (Some s)
  let ?e = "\<lambda>t. of_int (max 0 (t - bs_ts s)) * rate / 1000000"
  have ref: "refill cap rate t st = min cap (bs_tokens s + ?e t)" for t
    by (auto simp: Some refill_def Let_def max_def min_def)
  have "?e now' \<le> (of_int (max 0 (now - bs_ts s)) + of_int (max 0 (now' - now))) * rate / 1000000"
    using assms by (intro divide_right_mono mult_right_mono) (simp_all flip: of_int_add)
  then have "?e now' \<le> ?e now + of_int (max 0 (now' - now)) * rate / 1000000" by (simp add: algebra_simps add_divide_distrib)
  moreover have "0 \<le> of_int (max 0 (now' - now)) * rate / 1000000" using assms by simp
  moreover have "min cap (x + c) \<le> min cap (x + a) + d" if "c \<le> a + d" "0 \<le> d" for a c d x :: rat
    using that by (auto simp: min_def)
  ultimately show ?thesis unfolding ref by blast
qed

lemma refill_mono: "0 \<le> rate \<Longrightarrow> now \<le> now' \<Longrightarrow> refill cap rate now st \<le> refill cap rate now' st"
proof (cases st)
  case (Some s)
  assume "0 \<le> rate" "now \<le> now'"
  then have "of_int (max 0 (now - bs_ts s)) * rate / 1000000 \<le> of_int (max 0 (now' - bs_ts s)) * rate / 1000000"
    by (intro divide_right_mono mult_right_mono) simp_all
  then show ?thesis by (auto simp: Some refill_def Let_def max_def split: if_splits)
qed (simp add: refill_def)

text \<open>The time to live is long enough: a hash that may expire stands for a full bucket.\<close>

lemma expired_full:
  assumes "hash_ok b (Some s)" and "may_expire now s" and "validateFields b = Inr ()"
  shows "refill (cap_of b) (bk_refill_per_sec b) now (Some s) = cap_of b"
proof -
  let ?r = "bk_refill_per_sec b" and ?t = "bs_tokens s"
  from assms(1) have s: "s = persist (cap_of b) ?r (bs_ts s) ?t" and le: "?t \<le> cap_of b" by (auto simp: hash_ok_def)
  from assms(2) have pos: "0 < ?r" by (subst (asm) s) (auto simp: may_expire_def persist_def split: if_splits)
  define y where "y = (cap_of b - ?t) / ?r"
  have y: "0 \<le> y" "?t + y * ?r = cap_of b" using pos le by (simp_all add: y_def)
  have "bs_ttl s = Some (\<lceil>y * 1000\<rceil> + 1000)" unfolding y_def by (subst s) (simp add: persist_def pos)
  with assms(2) have "\<lceil>y * 1000\<rceil> * 1000 \<le> now - bs_ts s" by (simp add: may_expire_def algebra_simps)
  then have "of_int \<lceil>y * 1000\<rceil> * 1000 \<le> (of_int (now - bs_ts s) :: rat)" by (simp flip: of_int_le_iff [where ?'a = rat])
  then have long: "y * 1000000 \<le> of_int (now - bs_ts s)" using le_of_int_ceiling [of "y * 1000"] by linarith
  then have "y * ?r \<le> of_int (now - bs_ts s) * ?r / 1000000" using pos mult_right_mono [OF long, of ?r] by simp
  then have "cap_of b \<le> ?t + of_int (now - bs_ts s) * ?r / 1000000" using y(2) by linarith
  moreover have "0 \<le> now - bs_ts s" using long y(1) by (simp flip: of_int_0_le_iff [where ?'a = rat])
  ultimately show ?thesis by (auto simp: refill_def Let_def)
qed

text \<open>Every step of a history keeps the books: nothing is granted that was not minted.\<close>

definition books :: "bucket \<Rightarrow> redis \<Rightarrow> int \<Rightarrow> ledger \<Rightarrow> bool" where
  "books b db now l \<longleftrightarrow> hash_ok b (db (bk_key b)) \<and> 0 \<le> lg_debited l
     \<and> of_int (lg_granted l + lg_debited l - lg_refunded l) + balance b now db \<le> cap_of b + minted b (lg_ticks l)
     \<and> (\<forall>s. db (bk_key b) = Some s \<longrightarrow> - of_int (lg_debited l) \<le> bs_tokens s)"

lemma hash_ok_persist: "tokens \<le> cap_of b \<Longrightarrow> hash_ok b (Some (persist (cap_of b) (bk_refill_per_sec b) now tokens))"
  by (simp add: hash_ok_def persist_def)

lemma minted_add: "minted b (m + n) = minted b m + minted b n"
  by (simp add: minted_def algebra_simps add_divide_distrib)

lemma balance_tick:
  "validateFields b = Inr () \<Longrightarrow> balance b now' db \<le> balance b now db + minted b (max 0 (now' - now))"
  using refill_later by (simp add: balance_def minted_def validateFields_ok)

lemma balance_ge:
  assumes "validateFields b = Inr ()" and "books b db now l"
  shows "- of_int (lg_debited l) \<le> balance b now' db"
proof (cases "db (bk_key b)")
  case None
  then show ?thesis using assms by (simp add: balance_def refill_def validateFields_ok books_def add_nonneg_nonneg)
next
  case (Some s)
  have "bs_tokens s \<le> balance b now' db"
    using assms Some by (auto simp: balance_def refill_def Let_def books_def hash_ok_def validateFields_ok)
  with assms(2) Some show ?thesis by (force simp: books_def)
qed

lemma books_tick: "books b db now l \<Longrightarrow> validateFields b = Inr () \<Longrightarrow> db' (bk_key b) = db (bk_key b) \<Longrightarrow> books b db' now' (tick now now' l)"
  using balance_tick [of b now' db now] by (auto simp: books_def tick_def minted_add balance_def)

text \<open>A script leaves a balance of \<open>x\<close> tokens less, down to which it may only have gone by a debit.\<close>

lemma books_write:
  assumes "books b db now l" and "validateFields b = Inr ()" and "left \<le> cap_of b" and "0 \<le> debit"
    and "left \<le> balance b now db - of_int (grant + debit - refund)"
    and "- of_int (lg_debited l + debit) \<le> left"
  shows "books b (db(bk_key b := Some (persist (cap_of b) (bk_refill_per_sec b) now left))) now
     (l\<lparr>lg_granted := lg_granted l + grant, lg_debited := lg_debited l + debit, lg_refunded := lg_refunded l + refund\<rparr>)"
  using assms hash_ok_persist [OF assms(3)] refill_persist_now [OF assms(3)]
  by (auto simp: books_def balance_def persist_def)

lemma tick_adjust:
  "tick now now' (l\<lparr>lg_debited := lg_debited l + d, lg_refunded := lg_refunded l + r\<rparr>) =
   (tick now now' l)\<lparr>lg_granted := lg_granted (tick now now' l) + 0, lg_debited := lg_debited (tick now now' l) + d,
      lg_refunded := lg_refunded (tick now now' l) + r\<rparr>"
  by (cases l) (simp add: tick_def)

lemma bucket_run_books: "bucket_run b db now l \<Longrightarrow> validateFields b = Inr () \<Longrightarrow> books b db now l"
proof (induction rule: bucket_run.induct)
  case (start db now)
  then show ?case by (simp add: books_def empty_ledger_def hash_ok_def balance_def refill_def minted_def)
next
  case (acquire db now l cost now' r db')
  let ?bal = "balance b now' db"
  have pos: "0 < cost" using acquire.hyps(2) by (auto simp: Acquire_def andThen_eq_Inr validate_cost_ok)
  have at: "books b db now' (tick now now' l)" using books_tick acquire by blast
  have eq: "r = \<lparr>ar_allowed = (of_int cost \<le> ?bal), ar_remaining = ar_remaining r, ar_retry_after = ar_retry_after r\<rparr>"
    "db' = db(bk_key b := Some (persist (cap_of b) (bk_refill_per_sec b) now' (if of_int cost \<le> ?bal then ?bal - of_int cost else ?bal)))"
    using acquire.hyps(2) by (auto simp: Acquire_def andThen_eq_Inr acquireScript_def Let_def balance_def)
  have "?bal \<le> cap_of b" using at refill_le by (simp add: books_def balance_def)
  then show ?case
    using books_write [OF at acquire.prems, of "if of_int cost \<le> ?bal then ?bal - of_int cost else ?bal" 0 "if of_int cost \<le> ?bal then cost else 0" 0]
      balance_ge [OF acquire.prems at, of now'] pos at
    by (subst eq(1), subst eq(2)) (auto simp: tick_def books_def)
next
  case (adjust db now l delta now' r db')
  let ?bal = "balance b now' db"
  let ?left = "if ?bal - of_int delta > cap_of b then cap_of b else ?bal - of_int delta"
  have at: "books b db now' (tick now now' l)" using books_tick adjust by blast
  have eq: "db' = db(bk_key b := Some (persist (cap_of b) (bk_refill_per_sec b) now' ?left))"
    using adjust.hyps(2) by (auto simp: Adjust_def andThen_eq_Inr adjustScript_def Let_def balance_def)
  have "0 < cap_of b" using adjust.prems by (simp add: validateFields_ok)
  then have "books b (db(bk_key b := Some (persist (cap_of b) (bk_refill_per_sec b) now' ?left))) now'
    ((tick now now' l)\<lparr>lg_granted := lg_granted (tick now now' l) + 0, lg_debited := lg_debited (tick now now' l) + max 0 delta,
      lg_refunded := lg_refunded (tick now now' l) + max 0 (- delta)\<rparr>)"
    by (intro books_write [OF at adjust.prems])
       (use balance_ge [OF adjust.prems at, of now'] at in \<open>auto simp: max_def books_def\<close>)
  then show ?case unfolding eq tick_adjust .
next
  case (expire db now l s now')
  have at: "books b db now' (tick now now' l)" using books_tick expire by blast
  then have "balance b now' db = cap_of b"
    using expired_full [of b s now'] expire by (simp add: balance_def books_def)
  with at show ?case by (simp add: books_def balance_def hash_ok_def refill_def)
next
  case (other db now l db' now')
  then show ?case using books_tick by blast
qed

text \<open>
  C25.  A bucket never over-grants.  In every history of a bucket that starts without a hash,
  acquires, adjustments, expiries and clock steps in any order, the tokens granted exceed
  neither the capacity plus what the clock minted plus what was refunded, nor do grants and
  adjustments together with the balance left exceed capacity plus minted tokens; and the
  balance goes below zero only by what adjustments debited.
\<close>

theorem bucket_never_overgrants:
  assumes "bucket_run b db now l" and "validateFields b = Inr ()"
  shows "of_int (lg_granted l) \<le> cap_of b + minted b (lg_ticks l) + of_int (lg_refunded l)
    \<and> of_int (lg_granted l + lg_debited l - lg_refunded l) + balance b now db \<le> cap_of b + minted b (lg_ticks l)
    \<and> - of_int (lg_debited l) \<le> balance b now db \<and> balance b now db \<le> cap_of b"
proof -
  have bk: "books b db now l" using bucket_run_books [OF assms] .
  then have "balance b now db \<le> cap_of b" using refill_le by (simp add: books_def balance_def)
  then show ?thesis using bk balance_ge [OF assms(2) bk, of now] by (auto simp: books_def)
qed

section \<open>Waiting\<close>

definition allowed_at :: "bucket \<Rightarrow> int \<Rightarrow> int \<Rightarrow> redis \<Rightarrow> bool" where
  "allowed_at b cost now db = (case Acquire b cost now db of Inl _ \<Rightarrow> False | Inr (r, _) \<Rightarrow> ar_allowed r)"

lemma allowed_at_iff:
  assumes "validate_cost b cost = Inr ()"
  shows "allowed_at b cost now db \<longleftrightarrow> of_int cost \<le> balance b now db"
  using assms by (simp add: allowed_at_def Acquire_def acquireScript_def balance_def Let_def)

lemma refill_wait:
  fixes cap :: rat
  assumes "0 < rate" and "tokens < cost" and "cost \<le> cap" and "now \<le> now'"
  shows "cost \<le> refill cap rate now' (Some (persist cap rate now tokens)) \<longleftrightarrow>
    now + \<lceil>(cost - tokens) / rate * 1000000\<rceil> \<le> now'"
proof -
  have "now + \<lceil>(cost - tokens) / rate * 1000000\<rceil> \<le> now' \<longleftrightarrow> (cost - tokens) / rate * 1000000 \<le> of_int (now' - now)"
    by (simp only: ceiling_le_iff [symmetric]) linarith
  also have "\<dots> \<longleftrightarrow> (cost - tokens) * 1000000 \<le> of_int (now' - now) * rate"
    using assms(1) by (simp add: pos_divide_le_eq)
  also have "\<dots> \<longleftrightarrow> cost \<le> tokens + of_int (now' - now) * rate / 1000000" by (simp add: field_simps)
  finally show ?thesis using assms(3,4) by (auto simp: refill_def persist_def Let_def)
qed


text \<open>
  C27.  The dual acquire is all or nothing.  It is granted exactly when both single acquires
  would be, and then leaves what the two in sequence leave; denied, it leaves both balances as
  they were and names the buckets that lack tokens.
\<close>

theorem AcquireDual_atomic:
  assumes "AcquireDual req rc tok tc now db = Inr (r, db')" and "bk_key req \<noteq> bk_key tok"
    and "hash_ok req (db (bk_key req))" and "hash_ok tok (db (bk_key tok))"
  shows "(du_allowed r \<longleftrightarrow> allowed_at req rc now db \<and> allowed_at tok tc now db)
    \<and> du_denied r = (if allowed_at req rc now db then if allowed_at tok tc now db then DeniedNone else DeniedTokens
         else if allowed_at tok tc now db then DeniedRequests else DeniedBoth)
    \<and> (if du_allowed r
       then \<exists>r1 db1 r2. Acquire req rc now db = Inr (r1, db1) \<and> Acquire tok tc now db1 = Inr (r2, db')
       else balance req now db' = balance req now db \<and> balance tok now db' = balance tok now db)"
proof -
  have v: "validate_cost req rc = Inr ()" "validate_cost tok tc = Inr ()"
    using assms(1) by (auto simp: AcquireDual_def split: sum.splits)
  let ?b1 = "balance req now db" and ?b2 = "balance tok now db"
  let ?both = "of_int rc \<le> ?b1 \<and> of_int tc \<le> ?b2"
  have r: "du_allowed r = ?both"
    "du_denied r = denied_of (if ?both then 0 else if \<not> of_int rc \<le> ?b1 \<and> \<not> of_int tc \<le> ?b2 then 3 else if \<not> of_int rc \<le> ?b1 then 1 else 2)"
    and db': "db' = db(bk_key req := Some (persist (cap_of req) (bk_refill_per_sec req) now (if ?both then ?b1 - of_int rc else ?b1)),
      bk_key tok := Some (persist (cap_of tok) (bk_refill_per_sec tok) now (if ?both then ?b2 - of_int tc else ?b2)))"
    using assms(1) v by (auto simp: AcquireDual_def acquireDualScript_def Let_def balance_def)
  have le: "?b1 \<le> cap_of req" "?b2 \<le> cap_of tok" using refill_le assms(3,4) by (simp_all add: balance_def)
  show ?thesis
  proof (cases ?both)
    case True
    then show ?thesis using r v assms(2) allowed_at_iff [OF v(1)] allowed_at_iff [OF v(2)]
      by (simp add: db' Acquire_def acquireScript_def Let_def balance_def denied_of_def)
  next
    case False
    have h: "db' (bk_key req) = Some (persist (cap_of req) (bk_refill_per_sec req) now ?b1)"
      "db' (bk_key tok) = Some (persist (cap_of tok) (bk_refill_per_sec tok) now ?b2)"
      unfolding db' if_not_P [OF False] using assms(2) by simp_all
    have "balance req now db' = ?b1" "balance tok now db' = ?b2"
      by (simp_all only: balance_def [of req now db'] balance_def [of tok now db'] h
          refill_persist_now [OF le(1)] refill_persist_now [OF le(2)])
    with False show ?thesis using r allowed_at_iff [OF v(1)] allowed_at_iff [OF v(2)] by (auto simp: denied_of_def)
  qed
qed

section \<open>Sample buckets\<close>

text \<open>Two requests at once, one more per second.\<close>

definition sample_bucket :: bucket where
  "sample_bucket = \<lparr>bk_key = ''k'', bk_capacity = 2, bk_refill_per_sec = 1\<rparr>"

lemma sample_bucket_ok: "validateFields sample_bucket = Inr ()"
  by (simp add: sample_bucket_def validateFields_def)

theorem bucket_never_overgrants_witness:
  "\<exists>db l. bucket_run sample_bucket db 10 l \<and> lg_granted l = 2 \<and> of_int (lg_granted l) \<le> cap_of sample_bucket + minted sample_bucket (lg_ticks l)"
proof -
  obtain r db where acq: "Acquire sample_bucket 2 10 (\<lambda>_. None) = Inr (r, db)" "ar_allowed r"
    by (auto simp: Acquire_def validate_cost_def validateFields_def sample_bucket_def acquireScript_def refill_def Let_def)
  let ?l = "tick 10 10 (empty_ledger\<lparr>lg_granted := lg_granted empty_ledger + (if ar_allowed r then 2 else 0)\<rparr>)"
  have run: "bucket_run sample_bucket db 10 ?l" using bucket_run.acquire [OF bucket_run.start acq(1), of 10] by simp
  show ?thesis using bucket_never_overgrants [OF run sample_bucket_ok] run acq(2)
    by (intro exI [of _ db] exI [of _ ?l]) (simp add: tick_def empty_ledger_def)
qed

text \<open>The sample bucket, emptied at time 0.\<close>

definition drained :: bucket_state where
  "drained = persist 2 1 0 0"


theorem AcquireDual_atomic_witness:
  "\<exists>r db'. AcquireDual sample_bucket 1 (sample_bucket\<lparr>bk_key := ''t''\<rparr>) 2 0 (\<lambda>k. if k = ''t'' then Some drained else None) = Inr (r, db')
     \<and> \<not> du_allowed r \<and> du_denied r = DeniedTokens \<and> balance sample_bucket 0 db' = 2"
proof -
  let ?tok = "sample_bucket\<lparr>bk_key := ''t''\<rparr>" and ?db = "\<lambda>k. if k = ''t'' then Some drained else None"
  have v: "validate_cost sample_bucket 1 = Inr ()" "validate_cost ?tok 2 = Inr ()"
    by (simp_all add: sample_bucket_def validate_cost_def validateFields_def)
  then have "\<exists>x. AcquireDual sample_bucket 1 ?tok 2 0 ?db = Inr x" by (simp add: AcquireDual_def split_beta)
  then obtain r db' where dual: "AcquireDual sample_bucket 1 ?tok 2 0 ?db = Inr (r, db')" by auto
  have ok: "bk_key sample_bucket \<noteq> bk_key ?tok" "hash_ok sample_bucket (?db (bk_key sample_bucket))" "hash_ok ?tok (?db (bk_key ?tok))"
    by (simp_all add: sample_bucket_def hash_ok_def drained_def persist_def)
  have "allowed_at sample_bucket 1 0 ?db" "\<not> allowed_at ?tok 2 0 ?db" "balance sample_bucket 0 ?db = 2"
    using v by (simp_all add: allowed_at_iff balance_def) (simp_all add: sample_bucket_def drained_def refill_def persist_def)
  with AcquireDual_atomic [OF dual ok] dual show ?thesis by auto
qed

end
