(* ===== verification/Resource_Limits.thy ===== *)
theory Resource_Limits
  imports Ratelimit "HOL-Library.List_Lexorder" "HOL-Library.Char_ord"
begin

text \<open>
  Fleet-wide resource limits: the validated limit set of \<^verbatim>\<open>internal/limits/limits.go\<close> (after JSON
  decoding) and the adapter \<^verbatim>\<open>internal/ratelimit/resource/resource.go\<close> that binds a resource name and a
  token estimate to the buckets of the rate limiter.  Rates are rationals, as in the rate limiter.
\<close>

section \<open>The limit set\<close>

record rate =
  rt_per_minute :: rat
  rt_burst :: int

definition RefillPerSec :: "rate \<Rightarrow> rat" where
  "RefillPerSec r = rt_per_minute r / 60"

definition Capacity :: "rate \<Rightarrow> int" where
  "Capacity r = (if rt_burst r > 0 then rt_burst r else \<lceil>rt_per_minute r\<rceil>)"

record resource =
  rs_name :: string
  rs_requests :: "rate option"
  rs_tokens :: "rate option"

record limit_set =
  ls_by_name :: "string \<Rightarrow> resource option"
  ls_names :: "string list"

datatype name_error = NameRequired | NameWhitespace string | NameWildcard string

datatype limits_error =
  BadName nat name_error | DuplicateName nat string | NoLimits nat string
| BadPerMinute nat string rat | BadBurst nat string int

definition validateName :: "string \<Rightarrow> name_error option" where
  "validateName name =
     (if name = [] then Some NameRequired
      else if list_ex (\<lambda>c. c \<in> {CHR '' '', CHR 0x09, CHR 0x0D, CHR 0x0A, CHR 0x0B, CHR 0x0C}) name then Some (NameWhitespace name)
      else if CHR ''*'' \<in> set name
              \<and> (\<not> (length name \<ge> 2 \<and> drop (length name - 2) name = '':*'') \<or> length (filter (\<lambda>c. c = CHR ''*'') name) \<noteq> 1)
           then Some (NameWildcard name)
      else None)"

definition validateRate :: "nat \<Rightarrow> string \<Rightarrow> rate option \<Rightarrow> limits_error list" where
  "validateRate i d r = (case r of None \<Rightarrow> [] | Some r \<Rightarrow>
     (if rt_per_minute r \<le> 0 then [BadPerMinute i d (rt_per_minute r)] else [])
   @ (if rt_burst r < 0 then [BadBurst i d (rt_burst r)] else []))"

fun parse_resources :: "nat \<Rightarrow> resource list \<Rightarrow> limits_error list \<Rightarrow> limit_set \<Rightarrow> limits_error list \<times> limit_set" where
  "parse_resources i [] errs s = (errs, s)"
| "parse_resources i (r # rs) errs s =
     (let name_errs = (case validateName (rs_name r) of
            Some e \<Rightarrow> [BadName i e]
          | None \<Rightarrow> if ls_by_name s (rs_name r) \<noteq> None then [DuplicateName i (rs_name r)] else []);
          none_errs = (if rs_requests r = None \<and> rs_tokens r = None then [NoLimits i (rs_name r)] else []);
          rate_errs = validateRate i ''requests'' (rs_requests r) @ validateRate i ''tokens'' (rs_tokens r);
          s' = (if name_errs = []
                then \<lparr>ls_by_name = (ls_by_name s)(rs_name r := Some r), ls_names = ls_names s @ [rs_name r]\<rparr> else s)
      in parse_resources (i + 1) rs (errs @ name_errs @ none_errs @ rate_errs) s')"

definition empty_set :: limit_set where
  "empty_set = \<lparr>ls_by_name = (\<lambda>_. None), ls_names = []\<rparr>"

definition Parse :: "resource list \<Rightarrow> limits_error list + limit_set" where
  "Parse rs = (case parse_resources 0 rs [] empty_set of
     (errs, s) \<Rightarrow> if errs = [] then Inr (s\<lparr>ls_names := sort (ls_names s)\<rparr>) else Inl errs)"

text \<open>A nil set is \<open>None\<close>.\<close>

definition Lookup :: "limit_set option \<Rightarrow> string \<Rightarrow> resource option" where
  "Lookup s name = (case s of None \<Rightarrow> None | Some s \<Rightarrow>
     (case ls_by_name s name of
        Some r \<Rightarrow> Some r
      | None \<Rightarrow> if CHR '':'' \<in> set name then ls_by_name s (takeWhile (\<lambda>c. c \<noteq> CHR '':'') name @ '':*'') else None))"

definition Names :: "limit_set option \<Rightarrow> string list" where
  "Names s = (case s of None \<Rightarrow> [] | Some s \<Rightarrow> ls_names s)"

section \<open>The adapter\<close>

record resource_limiter =
  rl_set :: "limit_set option"
  rl_key_prefix :: string

record decision =
  dc_limited :: bool
  dc_allowed :: bool
  dc_resource :: string
  dc_bucket :: string
  dc_retry_after :: int
  dc_tokens_metered :: bool

definition unlimited :: decision where
  "unlimited = \<lparr>dc_limited = False, dc_allowed = True, dc_resource = [], dc_bucket = [], dc_retry_after = 0, dc_tokens_metered = False\<rparr>"

datatype resource_error = SingleError ratelimit_error | DualError dual_error

definition bucket_for :: "resource_limiter \<Rightarrow> string \<Rightarrow> string \<Rightarrow> rate option \<Rightarrow> bucket option" where
  "bucket_for l name d r = (case r of None \<Rightarrow> None | Some r \<Rightarrow>
     Some \<lparr>bk_key = rl_key_prefix l @ '':'' @ name @ '':'' @ d, bk_capacity = Capacity r, bk_refill_per_sec = RefillPerSec r\<rparr>)"

definition acquireDual :: "string \<Rightarrow> bucket \<Rightarrow> bucket \<Rightarrow> int \<Rightarrow> int \<Rightarrow> redis \<Rightarrow> resource_error + decision \<times> redis" where
  "acquireDual name req tok est now db = (case AcquireDual req 1 tok est now db of
     Inl e \<Rightarrow> Inl (DualError e)
   | Inr (r, db') \<Rightarrow> Inr (\<lparr>dc_limited = True, dc_allowed = du_allowed r, dc_resource = name, dc_bucket = denied_string (du_denied r),
                           dc_retry_after = du_retry_after r, dc_tokens_metered = True\<rparr>, db'))"

definition acquireSingle :: "string \<Rightarrow> bucket \<Rightarrow> int \<Rightarrow> denied_bucket \<Rightarrow> int \<Rightarrow> redis \<Rightarrow> resource_error + decision \<times> redis" where
  "acquireSingle name b cost d now db = (case Acquire b cost now db of
     Inl e \<Rightarrow> Inl (SingleError e)
   | Inr (r, db') \<Rightarrow> Inr (\<lparr>dc_limited = True, dc_allowed = ar_allowed r, dc_resource = name,
                           dc_bucket = (if ar_allowed r then [] else denied_string d),
                           dc_retry_after = ar_retry_after r, dc_tokens_metered = (d = DeniedTokens)\<rparr>, db'))"

definition acquire_resource :: "resource_limiter \<Rightarrow> string \<Rightarrow> int \<Rightarrow> int \<Rightarrow> redis \<Rightarrow> resource_error + decision \<times> redis" where
  "acquire_resource l resourceName est now db =
     (case Lookup (rl_set l) resourceName of
        None \<Rightarrow> Inr (unlimited, db)
      | Some res \<Rightarrow>
          (case (bucket_for l (rs_name res) ''requests'' (rs_requests res),
                 if est > 0 then bucket_for l (rs_name res) ''tokens'' (rs_tokens res) else None) of
             (Some req, Some tok) \<Rightarrow> acquireDual (rs_name res) req tok est now db
           | (Some req, None) \<Rightarrow> acquireSingle (rs_name res) req 1 DeniedRequests now db
           | (None, Some tok) \<Rightarrow> acquireSingle (rs_name res) tok est DeniedTokens now db
           | (None, None) \<Rightarrow> Inr (unlimited, db)))"

definition Reconcile :: "resource_limiter \<Rightarrow> string \<Rightarrow> int \<Rightarrow> int \<Rightarrow> int \<Rightarrow> redis \<Rightarrow> ratelimit_error + redis" where
  "Reconcile l resourceName est actual now db =
     (if actual - est = 0 then Inr db
      else case Lookup (rl_set l) resourceName of None \<Rightarrow> Inr db | Some res \<Rightarrow>
           case bucket_for l (rs_name res) ''tokens'' (rs_tokens res) of None \<Rightarrow> Inr db | Some tok \<Rightarrow>
           andThen (Adjust tok (actual - est) now db) (\<lambda>(_, db'). Inr db'))"

section \<open>What parsing guarantees\<close>

definition rate_ok :: "rate option \<Rightarrow> bool" where
  "rate_ok r = (case r of None \<Rightarrow> True | Some r \<Rightarrow> 0 < rt_per_minute r \<and> 0 \<le> rt_burst r)"

definition resource_ok :: "resource \<Rightarrow> bool" where
  "resource_ok r \<longleftrightarrow> validateName (rs_name r) = None \<and> (rs_requests r \<noteq> None \<or> rs_tokens r \<noteq> None)
     \<and> rate_ok (rs_requests r) \<and> rate_ok (rs_tokens r)"

lemma validateRate_Nil: "validateRate i d r = [] \<longleftrightarrow> rate_ok r"
  by (auto simp: validateRate_def rate_ok_def split: option.splits)

lemma parse_resources_errors: "fst (parse_resources i rs errs s) = [] \<Longrightarrow> errs = []"
proof (induction rs arbitrary: i errs s)
  case (Cons r rs)
  from Cons.prems obtain more s' where "fst (parse_resources (i + 1) rs (errs @ more) s') = []"
    by (simp only: parse_resources.simps Let_def)
  then have "errs @ more = []" by (rule Cons.IH)
  then show ?case by simp
qed simp

lemma parse_resources_ok:
  "parse_resources i rs errs s = ([], s') \<Longrightarrow>
     (\<forall>r \<in> set rs. resource_ok r \<and> ls_by_name s (rs_name r) = None) \<and> distinct (map rs_name rs)
   \<and> ls_by_name s' = ls_by_name s ++ map_of (map (\<lambda>r. (rs_name r, r)) rs)
   \<and> ls_names s' = ls_names s @ map rs_name rs"
proof (induction rs arbitrary: i errs s)
  case (Cons r rs)
  let ?ne = "case validateName (rs_name r) of Some e \<Rightarrow> [BadName i e]
     | None \<Rightarrow> if ls_by_name s (rs_name r) \<noteq> None then [DuplicateName i (rs_name r)] else []"
  let ?s = "\<lparr>ls_by_name = (ls_by_name s)(rs_name r := Some r), ls_names = ls_names s @ [rs_name r]\<rparr>"
  let ?errs = "errs @ ?ne @ (if rs_requests r = None \<and> rs_tokens r = None then [NoLimits i (rs_name r)] else [])
     @ validateRate i ''requests'' (rs_requests r) @ validateRate i ''tokens'' (rs_tokens r)"
  have run: "parse_resources (i + 1) rs ?errs (if ?ne = [] then ?s else s) = ([], s')" using Cons.prems by (simp add: Let_def)
  then have "?errs = []" using parse_resources_errors by (metis fst_conv)
  then have "?ne = []" and rate: "rate_ok (rs_requests r)" "rate_ok (rs_tokens r)" "\<not> (rs_requests r = None \<and> rs_tokens r = None)"
    by (auto simp: validateRate_Nil split: if_splits)
  then have name: "validateName (rs_name r) = None" "ls_by_name s (rs_name r) = None"
    by (auto split: option.splits if_splits)
  have "parse_resources (i + 1) rs ?errs ?s = ([], s')" using run \<open>?ne = []\<close> by simp
  note IH = Cons.IH [OF this]
  have "distinct (map rs_name (r # rs))" using IH by (auto split: if_splits)
  moreover from this have "rs_name r \<notin> dom (map_of (map (\<lambda>r. (rs_name r, r)) rs))" by (auto dest!: map_of_SomeD)
  then have "(ls_by_name s)(rs_name r \<mapsto> r) ++ map_of (map (\<lambda>r. (rs_name r, r)) rs)
      = ls_by_name s ++ map_of (map (\<lambda>r. (rs_name r, r)) (r # rs))"
    by (simp add: map_add_upd_left)
  then have "ls_by_name s' = ls_by_name s ++ map_of (map (\<lambda>r. (rs_name r, r)) (r # rs))"
    using IH unfolding limit_set.simps by metis
  moreover have "\<forall>x \<in> set (r # rs). resource_ok x \<and> ls_by_name s (rs_name x) = None"
    using IH name rate by (auto simp: resource_ok_def split: if_splits)
  moreover have "ls_names s' = ls_names s @ map rs_name (r # rs)" using IH by simp
  ultimately show ?case by blast
qed simp

lemma Parse_ok:
  assumes "Parse rs = Inr s"
  shows "\<forall>r \<in> set rs. resource_ok r" and "distinct (map rs_name rs)"
    and "ls_by_name s = map_of (map (\<lambda>r. (rs_name r, r)) rs)" and "ls_names s = sort (map rs_name rs)"
proof -
  obtain errs s1 where run: "parse_resources 0 rs [] empty_set = (errs, s1)" by fastforce
  with assms have "errs = []" and s: "s = s1\<lparr>ls_names := sort (ls_names s1)\<rparr>" by (auto simp: Parse_def split: if_splits)
  with run have run: "parse_resources 0 rs [] empty_set = ([], s1)" by simp
  show "\<forall>r \<in> set rs. resource_ok r" "distinct (map rs_name rs)"
    "ls_by_name s = map_of (map (\<lambda>r. (rs_name r, r)) rs)" "ls_names s = sort (map rs_name rs)"
    using parse_resources_ok [OF run] by (simp_all add: s empty_set_def)
qed

lemma Lookup_in:
  assumes "Parse rs = Inr s" and "Lookup (Some s) name = Some res"
  shows "res \<in> set rs"
  using assms(2) by (auto simp: Lookup_def Parse_ok(3) [OF assms(1)] dest!: map_of_SomeD split: option.splits if_splits)

lemma rate_ok_pos: "rate_ok (Some r) \<Longrightarrow> 0 < Capacity r \<and> 0 < RefillPerSec r"
  by (simp add: rate_ok_def Capacity_def RefillPerSec_def)

lemma bucket_for_valid:
  assumes "rate_ok r" and "bucket_for l name d r = Some b"
  shows "validateFields b = Inr ()" and "1 \<le> bk_capacity b" and "bk_key b = rl_key_prefix l @ '':'' @ name @ '':'' @ d"
  using assms rate_ok_pos by (auto simp: bucket_for_def validateFields_ok split: option.splits) force+

section \<open>Acquire and reconcile\<close>

lemma validate_cost_cases:
  assumes "validateFields b = Inr ()" and "0 < cost"
  shows "validate_cost b cost = (if bk_capacity b < cost then Inl (ErrCostExceedsCapacity cost (bk_capacity b)) else Inr ())"
  using assms by (simp add: validate_cost_def)

lemma Acquire_cases:
  assumes "validateFields b = Inr ()" and "0 < cost"
  shows "Acquire b cost now db = (if bk_capacity b < cost then Inl (ErrCostExceedsCapacity cost (bk_capacity b))
    else Inr (the (case Acquire b cost now db of Inl _ \<Rightarrow> None | Inr x \<Rightarrow> Some x)))"
  by (auto simp: Acquire_def validate_cost_cases [OF assms] split_beta)

lemma AcquireDual_cases:
  assumes "validateFields req = Inr ()" and "1 \<le> bk_capacity req" and "validateFields tok = Inr ()" and "0 < cost"
  shows "AcquireDual req 1 tok cost now db = (if bk_capacity tok < cost then Inl (TokensBucket (ErrCostExceedsCapacity cost (bk_capacity tok)))
    else Inr (the (case AcquireDual req 1 tok cost now db of Inl _ \<Rightarrow> None | Inr x \<Rightarrow> Some x)))"
  using assms(2) by (auto simp: AcquireDual_def validate_cost_cases [OF assms(1)] validate_cost_cases [OF assms(3,4)] split_beta)

text \<open>The token bucket an acquire with this estimate can never fill, if any: its capacity.\<close>

definition unfillable :: "resource_limiter \<Rightarrow> string \<Rightarrow> int \<Rightarrow> int option" where
  "unfillable l name est = (case Lookup (rl_set l) name of None \<Rightarrow> None | Some res \<Rightarrow>
     case rs_tokens res of None \<Rightarrow> None | Some r \<Rightarrow> if 0 < est \<and> Capacity r < est then Some (Capacity r) else None)"



section \<open>A sample limit set\<close>

text \<open>The models of one provider share ten tokens at once and sixty per minute.\<close>

definition sample_limiter :: resource_limiter where
  "sample_limiter = \<lparr>rl_set = Some \<lparr>ls_by_name = [''mock:*'' \<mapsto> \<lparr>rs_name = ''mock:*'', rs_requests = None,
       rs_tokens = Some \<lparr>rt_per_minute = 60, rt_burst = 10\<rparr>\<rparr>], ls_names = [''mock:*'']\<rparr>, rl_key_prefix = ''p''\<rparr>"

lemma sample_parse:
  "Parse [\<lparr>rs_name = ''mock:*'', rs_requests = None, rs_tokens = Some \<lparr>rt_per_minute = 60, rt_burst = 10\<rparr>\<rparr>] =
     Inr (the (rl_set sample_limiter))"
  by (simp add: Parse_def validateName_def validateRate_def empty_set_def sample_limiter_def)

lemma sample_lookup: "Lookup (rl_set sample_limiter) ''mock:sim'' =
    Some \<lparr>rs_name = ''mock:*'', rs_requests = None, rs_tokens = Some \<lparr>rt_per_minute = 60, rt_burst = 10\<rparr>\<rparr>"
  by (simp add: Lookup_def sample_limiter_def)


definition sample_tokens :: bucket where
  "sample_tokens = \<lparr>bk_key = ''p:mock:*:tokens'', bk_capacity = 10, bk_refill_per_sec = 1\<rparr>"

definition sample_resource :: resource where
  "sample_resource = \<lparr>rs_name = ''mock:*'', rs_requests = None, rs_tokens = Some \<lparr>rt_per_minute = 60, rt_burst = 10\<rparr>\<rparr>"

lemma sample_buckets:
  "bucket_for sample_limiter (rs_name sample_resource) ''tokens'' (rs_tokens sample_resource) = Some sample_tokens"
  "bucket_for sample_limiter (rs_name sample_resource) ''requests'' (rs_requests sample_resource) = None"
  by (simp_all add: bucket_for_def sample_resource_def sample_tokens_def sample_limiter_def Capacity_def RefillPerSec_def)


end
