(* ===== verification/Pricing.thy ===== *)
theory Pricing
  imports Resource_Limits
begin

text \<open>
  The pricing catalog of \<^verbatim>\<open>internal/cost\<close>: validation of a decoded catalog document (\<^verbatim>\<open>catalog.go\<close>),
  effective-dated price lookup (\<^verbatim>\<open>lookup.go\<close>) and the integer arithmetic of charges (\<^verbatim>\<open>price.go\<close>).

  Rates are rationals: the doubles of the catalog, without their rounding, and without NaN and the
  infinities, which validation refuses.  Money is an integer number of nano-USD, and the products
  that price an attempt wrap at 64 bits as Go's do.  An effective date is the midnight it denotes.
\<close>

section \<open>Prices\<close>

definition NanoPerUSD :: int where "NanoPerUSD = 1000000000"
definition tokensPerMTok :: int where "tokensPerMTok = 1000000"

record price_rate =
  pc_input_per_mtok :: rat
  pc_output_per_mtok :: rat

definition usdToNano :: "rat \<Rightarrow> int" where
  "usdToNano usd = (if usd \<le> 0 then 0 else \<lfloor>usd * of_int NanoPerUSD + 1 / 2\<rfloor>)"

text \<open>Integer division rounds toward zero.\<close>

definition quot :: "int \<Rightarrow> int \<Rightarrow> int" where
  "quot a b = (if a < 0 then - ((- a) div b) else a div b)"

definition component :: "int \<Rightarrow> rat \<Rightarrow> int" where
  "component tokens usdPerMTok =
     (if tokens \<le> 0 \<or> usdPerMTok \<le> 0 then 0
      else quot (wrap64 (tokens * usdToNano usdPerMTok + quot tokensPerMTok 2)) tokensPerMTok)"

definition Cost :: "int \<Rightarrow> int \<Rightarrow> price_rate \<Rightarrow> int" where
  "Cost inputTokens outputTokens r =
     wrap64 (component inputTokens (pc_input_per_mtok r) + component outputTokens (pc_output_per_mtok r))"

definition Estimate :: "int \<Rightarrow> int \<Rightarrow> price_rate \<Rightarrow> int" where
  "Estimate inputTokens maxTokens r = Cost inputTokens maxTokens r"

definition ToolCost :: "rat \<Rightarrow> int" where
  "ToolCost perCallUSD = usdToNano perCallUSD"

section \<open>The catalog\<close>

record model_entry =
  me_name :: string
  me_effective_from :: int
  me_context_window :: int
  me_rate :: price_rate

record tool_entry =
  tl_name :: string
  tl_effective_from :: int
  tl_per_call_usd :: rat

record catalog =
  cg_models :: "string \<Rightarrow> model_entry list"
  cg_tools :: "string \<Rightarrow> tool_entry list"
  cg_fallback :: "price_rate option"

record catalog_doc =
  doc_schema_version :: int
  doc_models :: "model_entry list"
  doc_tools :: "tool_entry list"
  doc_fallback :: "price_rate option"

definition CatalogSchemaVersion :: int where "CatalogSchemaVersion = 1"

datatype entry_name_error = ResourceName name_error | ReservedToolPrefix string | NotAToolName string

datatype catalog_error =
  BadSchemaVersion int | BadEntryName string nat entry_name_error | MissingDate string nat string
| BadContextWindow nat string int | BadRateComponent string string rat | BadPerCall nat string rat
| DuplicatePrice string nat string int

text \<open>The rule of \<^verbatim>\<open>internal/limits\<close>, written a second time in this package.\<close>

definition validateResourceName :: "string \<Rightarrow> name_error option" where
  "validateResourceName name =
     (if name = [] then Some NameRequired
      else if list_ex (\<lambda>c. c \<in> {CHR '' '', CHR 0x09, CHR 0x0D, CHR 0x0A, CHR 0x0B, CHR 0x0C}) name then Some (NameWhitespace name)
      else if CHR ''*'' \<in> set name
              \<and> (\<not> (length name \<ge> 2 \<and> drop (length name - 2) name = '':*'') \<or> length (filter (\<lambda>c. c = CHR ''*'') name) \<noteq> 1)
           then Some (NameWildcard name)
      else None)"

definition tool_prefixed :: "string \<Rightarrow> bool" where
  "tool_prefixed name \<longleftrightarrow> take 5 name = ''tool:''"

definition validateModelName :: "string \<Rightarrow> entry_name_error option" where
  "validateModelName name = (case validateResourceName name of
     Some e \<Rightarrow> Some (ResourceName e)
   | None \<Rightarrow> if tool_prefixed name then Some (ReservedToolPrefix name) else None)"

definition validateToolName :: "string \<Rightarrow> entry_name_error option" where
  "validateToolName name = (case validateResourceName name of
     Some e \<Rightarrow> Some (ResourceName e)
   | None \<Rightarrow> if \<not> tool_prefixed name \<or> name = ''tool:'' then Some (NotAToolName name) else None)"

definition validateRateComponent :: "string \<Rightarrow> string \<Rightarrow> rat \<Rightarrow> catalog_error list" where
  "validateRateComponent path d v = (if v < 0 then [BadRateComponent path d v] else [])"

definition validatePrice :: "string \<Rightarrow> price_rate \<Rightarrow> catalog_error list" where
  "validatePrice path r = validateRateComponent path ''input_per_mtok'' (pc_input_per_mtok r)
     @ validateRateComponent path ''output_per_mtok'' (pc_output_per_mtok r)"

text \<open>
  One document entry is accepted when its name and date are valid and no earlier accepted entry has
  the same name and date; its other fields are checked either way.
\<close>

fun parse_models :: "nat \<Rightarrow> model_entry list \<Rightarrow> catalog_error list \<Rightarrow> model_entry list \<Rightarrow> catalog_error list \<times> model_entry list" where
  "parse_models i [] errs acc = (errs, acc)"
| "parse_models i (m # ms) errs acc =
     (let name_errs = (case validateModelName (me_name m) of None \<Rightarrow> [] | Some e \<Rightarrow> [BadEntryName ''models'' i e]);
          date_errs = (if me_effective_from m = 0 then [MissingDate ''models'' i (me_name m)] else []);
          window_errs = (if me_context_window m < 0 then [BadContextWindow i (me_name m) (me_context_window m)] else []);
          rate_errs = validatePrice ''models'' (me_rate m);
          ok = (name_errs = [] \<and> date_errs = []);
          seen = list_ex (\<lambda>m'. me_name m' = me_name m \<and> me_effective_from m' = me_effective_from m) acc;
          dup_errs = (if ok \<and> seen then [DuplicatePrice ''models'' i (me_name m) (me_effective_from m)] else [])
      in parse_models (i + 1) ms (errs @ name_errs @ date_errs @ window_errs @ rate_errs @ dup_errs)
           (if ok \<and> \<not> seen then acc @ [m] else acc))"

fun parse_tools :: "nat \<Rightarrow> tool_entry list \<Rightarrow> catalog_error list \<Rightarrow> tool_entry list \<Rightarrow> catalog_error list \<times> tool_entry list" where
  "parse_tools i [] errs acc = (errs, acc)"
| "parse_tools i (t # ts) errs acc =
     (let name_errs = (case validateToolName (tl_name t) of None \<Rightarrow> [] | Some e \<Rightarrow> [BadEntryName ''tools'' i e]);
          date_errs = (if tl_effective_from t = 0 then [MissingDate ''tools'' i (tl_name t)] else []);
          price_errs = (if tl_per_call_usd t < 0 then [BadPerCall i (tl_name t) (tl_per_call_usd t)] else []);
          ok = (name_errs = [] \<and> date_errs = []);
          seen = list_ex (\<lambda>t'. tl_name t' = tl_name t \<and> tl_effective_from t' = tl_effective_from t) acc;
          dup_errs = (if ok \<and> seen then [DuplicatePrice ''tools'' i (tl_name t) (tl_effective_from t)] else [])
      in parse_tools (i + 1) ts (errs @ name_errs @ date_errs @ price_errs @ dup_errs)
           (if ok \<and> \<not> seen then acc @ [t] else acc))"

text \<open>Entries by name, the newest effective date first; the sort is stable.\<close>

definition sortEntries :: "model_entry list \<Rightarrow> string \<Rightarrow> model_entry list" where
  "sortEntries ms name = sort_key (\<lambda>m. - me_effective_from m) (filter (\<lambda>m. me_name m = name) ms)"

definition sortToolEntries :: "tool_entry list \<Rightarrow> string \<Rightarrow> tool_entry list" where
  "sortToolEntries ts name = sort_key (\<lambda>t. - tl_effective_from t) (filter (\<lambda>t. tl_name t = name) ts)"

definition ParseCatalog :: "catalog_doc \<Rightarrow> catalog_error list + catalog" where
  "ParseCatalog doc =
     (let schema_errs = (if doc_schema_version doc \<noteq> CatalogSchemaVersion then [BadSchemaVersion (doc_schema_version doc)] else []);
          (errs1, ms) = parse_models 0 (doc_models doc) schema_errs [];
          (errs2, ts) = parse_tools 0 (doc_tools doc) errs1 [];
          errs = errs2 @ (case doc_fallback doc of None \<Rightarrow> [] | Some r \<Rightarrow> validatePrice ''fallback'' r)
      in if errs \<noteq> [] then Inl errs
         else Inr \<lparr>cg_models = sortEntries ms, cg_tools = sortToolEntries ts, cg_fallback = doc_fallback doc\<rparr>)"

definition Merge :: "catalog \<Rightarrow> catalog option \<Rightarrow> catalog" where
  "Merge base ov = (case ov of None \<Rightarrow> base | Some ov \<Rightarrow>
     \<lparr>cg_models = (\<lambda>name. if cg_models ov name \<noteq> [] then cg_models ov name else cg_models base name),
      cg_tools = (\<lambda>name. if cg_tools ov name \<noteq> [] then cg_tools ov name else cg_tools base name),
      cg_fallback = (case cg_fallback ov of None \<Rightarrow> cg_fallback base | Some r \<Rightarrow> Some r)\<rparr>)"

section \<open>Lookup\<close>

datatype price_source = SourceExact | SourceWildcard | SourceFallback
datatype unknown_model_policy = PolicyEstimate | PolicyFail

record priced =
  pd_rate :: price_rate
  pd_source :: price_source
  pd_fallback :: bool

datatype price_error = UnknownModelError string

definition selectModel :: "model_entry list \<Rightarrow> int \<Rightarrow> model_entry option" where
  "selectModel entries when = find (\<lambda>e. \<not> me_effective_from e > when) entries"

definition selectTool :: "tool_entry list \<Rightarrow> int \<Rightarrow> tool_entry option" where
  "selectTool entries when = find (\<lambda>e. \<not> tl_effective_from e > when) entries"

text \<open>The wildcard name of a resource: the segment before the first colon.\<close>

definition wildcard_name :: "string \<Rightarrow> string option" where
  "wildcard_name name = (if CHR '':'' \<in> set name then Some (takeWhile (\<lambda>c. c \<noteq> CHR '':'') name @ '':*'') else None)"

definition LookupPrice :: "catalog option \<Rightarrow> string \<Rightarrow> int \<Rightarrow> (price_rate \<times> price_source) option" where
  "LookupPrice c name when = (case c of None \<Rightarrow> None | Some c \<Rightarrow>
     (case selectModel (cg_models c name) when of
        Some e \<Rightarrow> Some (me_rate e, SourceExact)
      | None \<Rightarrow> (case wildcard_name name of None \<Rightarrow> None | Some w \<Rightarrow>
          (case selectModel (cg_models c w) when of Some e \<Rightarrow> Some (me_rate e, SourceWildcard) | None \<Rightarrow> None))))"

definition PriceModel :: "catalog option \<Rightarrow> string \<Rightarrow> int \<Rightarrow> unknown_model_policy \<Rightarrow> price_error + priced" where
  "PriceModel c name when policy = (case LookupPrice c name when of
     Some (r, src) \<Rightarrow> Inr \<lparr>pd_rate = r, pd_source = src, pd_fallback = False\<rparr>
   | None \<Rightarrow>
       if policy = PolicyFail then Inl (UnknownModelError name)
       else (case (case c of None \<Rightarrow> None | Some c \<Rightarrow> cg_fallback c) of
               None \<Rightarrow> Inl (UnknownModelError name)
             | Some fb \<Rightarrow> Inr \<lparr>pd_rate = fb, pd_source = SourceFallback, pd_fallback = True\<rparr>))"

definition ContextWindow :: "catalog option \<Rightarrow> string \<Rightarrow> int \<Rightarrow> (int \<times> price_source) option" where
  "ContextWindow c name when = (case c of None \<Rightarrow> None | Some c \<Rightarrow>
     (case (case selectModel (cg_models c name) when of None \<Rightarrow> None
              | Some e \<Rightarrow> if me_context_window e > 0 then Some (me_context_window e, SourceExact) else None) of
        Some w \<Rightarrow> Some w
      | None \<Rightarrow> (case wildcard_name name of None \<Rightarrow> None | Some w \<Rightarrow>
          (case selectModel (cg_models c w) when of None \<Rightarrow> None
             | Some e \<Rightarrow> if me_context_window e > 0 then Some (me_context_window e, SourceWildcard) else None))))"

definition ToolPrice :: "catalog option \<Rightarrow> string \<Rightarrow> int \<Rightarrow> int option" where
  "ToolPrice c name when = (case c of None \<Rightarrow> None | Some c \<Rightarrow>
     map_option (\<lambda>e. ToolCost (tl_per_call_usd e)) (selectTool (cg_tools c name) when))"

section \<open>What a parsed catalog answers\<close>

lemma same_name_rule: "validateResourceName = validateName"
  by (simp add: validateResourceName_def validateName_def fun_eq_iff)

abbreviation model_key :: "model_entry \<Rightarrow> string \<times> int" where "model_key m \<equiv> (me_name m, me_effective_from m)"

definition rate_nonneg :: "price_rate \<Rightarrow> bool" where
  "rate_nonneg r \<longleftrightarrow> 0 \<le> pc_input_per_mtok r \<and> 0 \<le> pc_output_per_mtok r"

lemma validatePrice_ok: "validatePrice path r = [] \<longleftrightarrow> rate_nonneg r"
  by (auto simp: validatePrice_def validateRateComponent_def rate_nonneg_def)

lemma parse_models_ok:
  assumes "parse_models i ms errs acc = ([], acc')" and "distinct (map model_key acc)"
  shows "errs = [] \<and> acc' = acc @ ms \<and> distinct (map model_key acc') \<and> (\<forall>m \<in> set ms. rate_nonneg (me_rate m))"
  using assms
proof (induction i ms errs acc arbitrary: acc' rule: parse_models.induct)
  case (2 i m ms errs acc)
  let ?name = "case validateModelName (me_name m) of None \<Rightarrow> [] | Some e \<Rightarrow> [BadEntryName ''models'' i e]"
  let ?date = "if me_effective_from m = 0 then [MissingDate ''models'' i (me_name m)] else []"
  let ?window = "if me_context_window m < 0 then [BadContextWindow i (me_name m) (me_context_window m)] else []"
  let ?ok = "?name = [] \<and> ?date = []"
  let ?seen = "list_ex (\<lambda>m'. me_name m' = me_name m \<and> me_effective_from m' = me_effective_from m) acc"
  let ?dup = "if ?ok \<and> ?seen then [DuplicatePrice ''models'' i (me_name m) (me_effective_from m)] else []"
  let ?errs = "errs @ ?name @ ?date @ ?window @ validatePrice ''models'' (me_rate m) @ ?dup"
  let ?acc = "if ?ok \<and> \<not> ?seen then acc @ [m] else acc"
  have step: "parse_models (i + 1) ms ?errs ?acc = ([], acc')" using 2(2) by (simp only: parse_models.simps Let_def)
  have new: "distinct (map model_key ?acc)" using 2(3) by (auto simp: list_ex_iff)
  from 2(1) [OF refl refl refl refl refl refl refl step new]
  have ih: "?errs = []" "acc' = ?acc @ ms" "distinct (map model_key acc')" "\<forall>m \<in> set ms. rate_nonneg (me_rate m)" by blast+
  from ih(1) have ok: "?ok" "\<not> ?seen" "validatePrice ''models'' (me_rate m) = []" "errs = []" by (simp_all split: if_splits)
  then have "?acc = acc @ [m]" by simp
  then show ?case using ih ok(3,4) validatePrice_ok by (simp only:) simp
qed simp

lemma parse_tools_grow: "\<exists>more. fst (parse_tools i ts errs acc) = errs @ more"
proof (induction ts arbitrary: i errs acc)
  case (Cons t ts)
  have step: "\<exists>more. fst (parse_tools j ts (errs @ new) acc') = errs @ more" for j new acc'
    using Cons.IH [of j "errs @ new" acc'] by auto
  show ?case unfolding parse_tools.simps Let_def by (rule step)
qed simp

lemma ParseCatalog_models:
  assumes "ParseCatalog doc = Inr c"
  shows "cg_models c = sortEntries (doc_models doc)" and "distinct (map model_key (doc_models doc))"
    and "\<forall>m \<in> set (doc_models doc). rate_nonneg (me_rate m)"
    and "cg_fallback c = doc_fallback doc" and "\<forall>r. doc_fallback doc = Some r \<longrightarrow> rate_nonneg r"
proof -
  let ?schema = "if doc_schema_version doc \<noteq> CatalogSchemaVersion then [BadSchemaVersion (doc_schema_version doc)] else []"
  obtain errs1 ms where ms: "parse_models 0 (doc_models doc) ?schema [] = (errs1, ms)" by fastforce
  obtain errs2 ts where ts: "parse_tools 0 (doc_tools doc) errs1 [] = (errs2, ts)" by fastforce
  let ?fb = "case doc_fallback doc of None \<Rightarrow> [] | Some r \<Rightarrow> validatePrice ''fallback'' r"
  have c: "errs2 @ ?fb = []" "c = \<lparr>cg_models = sortEntries ms, cg_tools = sortToolEntries ts, cg_fallback = doc_fallback doc\<rparr>"
    using assms by (simp_all add: ParseCatalog_def Let_def ms ts split: if_splits)
  have "errs1 = []" using parse_tools_grow [of 0 "doc_tools doc" errs1 "[]"] ts c(1) by auto
  from parse_models_ok [OF ms [unfolded this]] have ok: "ms = doc_models doc" "distinct (map model_key ms)"
    "\<forall>m \<in> set (doc_models doc). rate_nonneg (me_rate m)" by auto
  show "cg_models c = sortEntries (doc_models doc)" "distinct (map model_key (doc_models doc))"
    "\<forall>m \<in> set (doc_models doc). rate_nonneg (me_rate m)" "cg_fallback c = doc_fallback doc"
    using ok c(2) by simp_all
  show "\<forall>r. doc_fallback doc = Some r \<longrightarrow> rate_nonneg r" using c(1) validatePrice_ok by auto
qed

text \<open>The newest entry of a name that is in effect at a time.\<close>

definition newest_entry :: "catalog_doc \<Rightarrow> string \<Rightarrow> int \<Rightarrow> model_entry \<Rightarrow> bool" where
  "newest_entry doc name when e \<longleftrightarrow> e \<in> set (doc_models doc) \<and> me_name e = name \<and> me_effective_from e \<le> when
     \<and> (\<forall>e' \<in> set (doc_models doc). me_name e' = name \<longrightarrow> me_effective_from e' \<le> when \<longrightarrow> me_effective_from e' \<le> me_effective_from e)"

lemma find_sorted_first:
  fixes f :: "'a \<Rightarrow> 'b :: linorder"
  assumes "sorted (map f xs)" and "find P xs = Some x"
  shows "x \<in> set xs \<and> P x \<and> (\<forall>y \<in> set xs. P y \<longrightarrow> f x \<le> f y)"
  using assms by (induction xs) (auto split: if_splits)

lemma selectModel_newest:
  assumes "ParseCatalog doc = Inr c"
  shows "selectModel (cg_models c name) when = Some e \<longleftrightarrow> newest_entry doc name when e"
proof -
  let ?es = "sortEntries (doc_models doc) name"
  have es: "cg_models c name = ?es" using ParseCatalog_models(1) [OF assms] by simp
  have set: "set ?es = {m \<in> set (doc_models doc). me_name m = name}" by (auto simp: sortEntries_def)
  have sorted: "sorted (map (\<lambda>m. - me_effective_from m) ?es)" by (simp add: sortEntries_def)
  have sound: "newest_entry doc name when x" if "selectModel ?es when = Some x" for x
    using find_sorted_first [OF sorted that [unfolded selectModel_def]] set by (auto simp: newest_entry_def)
  have uniq: "x = e" if "newest_entry doc name when x" "newest_entry doc name when e" for x
  proof -
    have "model_key x = model_key e" "x \<in> set (doc_models doc)" "e \<in> set (doc_models doc)"
      using that by (auto simp: newest_entry_def intro: antisym)
    then show ?thesis using ParseCatalog_models(2) [OF assms] by (auto simp: distinct_map inj_on_def)
  qed
  show ?thesis unfolding es
  proof
    assume new: "newest_entry doc name when e"
    then have "e \<in> set ?es" "\<not> me_effective_from e > when" using set by (auto simp: newest_entry_def)
    then have "selectModel ?es when \<noteq> None" by (auto simp: selectModel_def find_None_iff)
    then obtain x where "selectModel ?es when = Some x" by auto
    with uniq [OF sound new] show "selectModel ?es when = Some e" by simp
  qed (rule sound)
qed

text \<open>
  C39.  A parsed catalog prices a model by the newest entry of its exact name that is in effect at
  the given time, by the newest effective entry of the provider's wildcard only when the name
  itself has none, and by the fallback only when neither exists and the policy allows it; every
  rate it returns is non-negative.
\<close>

theorem catalog_prices_newest:
  assumes "ParseCatalog doc = Inr c"
  shows "case PriceModel (Some c) name when policy of
     Inr p \<Rightarrow> rate_nonneg (pd_rate p) \<and> (case pd_source p of
         SourceExact \<Rightarrow> \<exists>e. newest_entry doc name when e \<and> pd_rate p = me_rate e
       | SourceWildcard \<Rightarrow> (\<nexists>e. newest_entry doc name when e)
           \<and> (\<exists>w e. wildcard_name name = Some w \<and> newest_entry doc w when e \<and> pd_rate p = me_rate e)
       | SourceFallback \<Rightarrow> (\<nexists>e. newest_entry doc name when e) \<and> (\<nexists>w e. wildcard_name name = Some w \<and> newest_entry doc w when e)
           \<and> policy = PolicyEstimate \<and> doc_fallback doc = Some (pd_rate p))
   | Inl err \<Rightarrow> (\<nexists>e. newest_entry doc name when e) \<and> (\<nexists>w e. wildcard_name name = Some w \<and> newest_entry doc w when e)
       \<and> (policy = PolicyEstimate \<longrightarrow> doc_fallback doc = None)"
proof -
  note sel = selectModel_newest [OF assms]
  have none: "selectModel (cg_models c n) when = None \<longleftrightarrow> (\<nexists>e. newest_entry doc n when e)" for n
    using sel [of n] by (metis not_Some_eq)
  have rates: "rate_nonneg (me_rate e)" if "newest_entry doc n when e" for n e
    using that ParseCatalog_models(3) [OF assms] by (auto simp: newest_entry_def)
  have fb: "cg_fallback c = doc_fallback doc" "\<forall>r. doc_fallback doc = Some r \<longrightarrow> rate_nonneg r"
    using ParseCatalog_models(4,5) [OF assms] by blast+
  show ?thesis
  proof (cases "selectModel (cg_models c name) when")
    case (Some e)
    have "newest_entry doc name when e" using sel Some by blast
    moreover have "LookupPrice (Some c) name when = Some (me_rate e, SourceExact)" by (simp add: LookupPrice_def Some)
    ultimately show ?thesis using rates by (auto simp: PriceModel_def)
  next
    case no: None
    have exact: "\<nexists>e. newest_entry doc name when e" using none no by blast
    show ?thesis
    proof (cases "\<exists>w e. wildcard_name name = Some w \<and> newest_entry doc w when e")
      case True
      then obtain w e where w: "wildcard_name name = Some w" "newest_entry doc w when e" by blast
      then have "selectModel (cg_models c w) when = Some e" using sel by blast
      then have "LookupPrice (Some c) name when = Some (me_rate e, SourceWildcard)" using no w(1) by (simp add: LookupPrice_def)
      then show ?thesis using exact w rates by (auto simp: PriceModel_def)
    next
      case False
      then have "selectModel (cg_models c w) when = None" if "wildcard_name name = Some w" for w using none that by blast
      then have "LookupPrice (Some c) name when = None"
        using no by (cases "wildcard_name name") (simp_all add: LookupPrice_def)
      then show ?thesis using exact False fb by (cases policy; cases "doc_fallback doc") (simp_all add: PriceModel_def)
    qed
  qed
qed

definition sample_rate :: "nat \<Rightarrow> price_rate" where
  "sample_rate n = \<lparr>pc_input_per_mtok = of_nat n, pc_output_per_mtok = of_nat (2 * n)\<rparr>"

definition sample_entry :: "string \<Rightarrow> int \<Rightarrow> nat \<Rightarrow> model_entry" where
  "sample_entry name from n = \<lparr>me_name = name, me_effective_from = from, me_context_window = 0, me_rate = sample_rate n\<rparr>"

text \<open>A model repriced at time 20, and a wildcard for its provider.\<close>

definition sample_doc :: catalog_doc where
  "sample_doc = \<lparr>doc_schema_version = 1,
     doc_models = [sample_entry ''m:a'' 10 3, sample_entry ''m:a'' 20 5, sample_entry ''m:*'' 10 1],
     doc_tools = [], doc_fallback = None\<rparr>"

theorem catalog_prices_newest_witness:
  "\<exists>c p. ParseCatalog sample_doc = Inr c \<and> PriceModel (Some c) ''m:a'' 25 PolicyFail = Inr p \<and> rate_nonneg (pd_rate p)
     \<and> pd_rate p = sample_rate 5"
proof -
  have "\<not> isl (ParseCatalog sample_doc)" by code_simp
  then obtain c where c: "ParseCatalog sample_doc = Inr c" by (cases "ParseCatalog sample_doc") auto
  have models: "cg_models c = sortEntries (doc_models sample_doc)" by (rule ParseCatalog_models(1) [OF c])
  have "selectModel (sortEntries (doc_models sample_doc) ''m:a'') 25 = Some (sample_entry ''m:a'' 20 5)" by code_simp
  then have "PriceModel (Some c) ''m:a'' 25 PolicyFail = Inr \<lparr>pd_rate = sample_rate 5, pd_source = SourceExact, pd_fallback = False\<rparr>"
    by (simp add: PriceModel_def LookupPrice_def models sample_entry_def)
  with catalog_prices_newest [OF c, of "''m:a''" 25 PolicyFail] c show ?thesis by auto
qed

section \<open>Charges\<close>

lemma wrap64_id: "- (2 ^ 63) \<le> x \<Longrightarrow> x < 2 ^ 63 \<Longrightarrow> wrap64 x = x"
  by (simp add: wrap64_def)

lemma usdToNano_nonneg: "0 \<le> usdToNano usd"
  by (simp add: usdToNano_def NanoPerUSD_def)

lemma component_eq:
  assumes "tokens * usdToNano usd + 500000 < 2 ^ 63"
  shows "component tokens usd = (if tokens \<le> 0 \<or> usd \<le> 0 then 0 else (tokens * usdToNano usd + 500000) div 1000000)"
proof -
  have "0 \<le> tokens * usdToNano usd" if "0 < tokens" using that usdToNano_nonneg by simp
  then show ?thesis using assms by (auto simp: component_def quot_def tokensPerMTok_def wrap64_id)
qed

text \<open>The amounts that stay within 64 bits when an attempt with these tokens is priced.\<close>

definition priceable_tokens :: "int \<Rightarrow> int \<Rightarrow> price_rate \<Rightarrow> bool" where
  "priceable_tokens i j r \<longleftrightarrow> i * usdToNano (pc_input_per_mtok r) + 500000 < 2 ^ 62
     \<and> j * usdToNano (pc_output_per_mtok r) + 500000 < 2 ^ 62"

lemma component_bounds:
  assumes "tokens * usdToNano usd + 500000 < 2 ^ 62"
  shows "0 \<le> component tokens usd" and "component tokens usd < 2 ^ 62"
proof -
  have "component tokens usd = (if tokens \<le> 0 \<or> usd \<le> 0 then 0 else (tokens * usdToNano usd + 500000) div 1000000)"
    by (rule component_eq) (use assms in simp)
  moreover have "0 \<le> tokens * usdToNano usd" if "0 < tokens" using that usdToNano_nonneg by simp
  ultimately show "0 \<le> component tokens usd" "component tokens usd < 2 ^ 62"
    using assms by (auto simp: div_less_iff_less_mult)
qed

lemma component_mono:
  assumes "t \<le> t'" and "t' * usdToNano usd + 500000 < 2 ^ 62"
  shows "component t usd \<le> component t' usd"
proof -
  have le: "t * usdToNano usd \<le> t' * usdToNano usd" using assms(1) usdToNano_nonneg by (simp add: mult_right_mono)
  have eq: "component t usd = (if t \<le> 0 \<or> usd \<le> 0 then 0 else (t * usdToNano usd + 500000) div 1000000)"
    "component t' usd = (if t' \<le> 0 \<or> usd \<le> 0 then 0 else (t' * usdToNano usd + 500000) div 1000000)"
    by (rule component_eq, use assms le in simp)+
  show ?thesis
  proof (cases "t \<le> 0 \<or> usd \<le> 0")
    case True
    then show ?thesis using eq(1) component_bounds(1) [OF assms(2)] by simp
  next
    case False
    then show ?thesis using eq le assms(1) by (simp add: zdiv_mono1)
  qed
qed

lemma Cost_eq:
  assumes "priceable_tokens i j r"
  shows "Cost i j r = component i (pc_input_per_mtok r) + component j (pc_output_per_mtok r)" and "0 \<le> Cost i j r"
proof -
  have bounds: "0 \<le> component i (pc_input_per_mtok r)" "component i (pc_input_per_mtok r) < 2 ^ 62"
    "0 \<le> component j (pc_output_per_mtok r)" "component j (pc_output_per_mtok r) < 2 ^ 62"
    using assms component_bounds by (simp_all add: priceable_tokens_def)
  then show "Cost i j r = component i (pc_input_per_mtok r) + component j (pc_output_per_mtok r)"
    by (simp add: Cost_def wrap64_id)
  with bounds show "0 \<le> Cost i j r" by simp
qed

lemma Cost_within_estimate:
  assumes "priceable_tokens i' j' r" and "i \<le> i'" and "j \<le> j'"
  shows "Cost i j r \<le> Estimate i' j' r" and "0 \<le> Cost i j r"
proof -
  have "i * usdToNano (pc_input_per_mtok r) \<le> i' * usdToNano (pc_input_per_mtok r)"
    "j * usdToNano (pc_output_per_mtok r) \<le> j' * usdToNano (pc_output_per_mtok r)"
    using assms(2,3) usdToNano_nonneg by (simp_all add: mult_right_mono)
  then have small: "priceable_tokens i j r" using assms(1) by (simp add: priceable_tokens_def)
  show "Cost i j r \<le> Estimate i' j' r"
    using component_mono [OF assms(2)] component_mono [OF assms(3)] assms(1)
    by (simp add: Estimate_def Cost_eq(1) [OF small] Cost_eq(1) [OF assms(1)] priceable_tokens_def add_mono)
  show "0 \<le> Cost i j r" by (rule Cost_eq(2) [OF small])
qed

end
