(* ===== verification/Store_Types.thy ===== *)
theory Store_Types
  imports Prelude
begin

text \<open>
  The data model of \<^verbatim>\<open>internal/store\<close>: the status vocabularies of
  \<^verbatim>\<open>status.go\<close>, the rows of \<^verbatim>\<open>gen/models.go\<close>, the event payloads of
  \<^verbatim>\<open>internal/event/payloads.go\<close> that the store writes, and the typed errors of
  \<^verbatim>\<open>errors.go\<close>.

  All queries of the transition layer are keyed by the run they concern
  (\<^verbatim>\<open>run_id = @run_id\<close>) and every transition first takes that run's row lock, so the
  state a transaction works on is the slice of the tables that belongs to one run: the
  record \<open>rundb\<close>.  The run identifier itself is therefore not an argument.

  Conventions.  A \<open>time\<close> counts nanoseconds from Go's zero instant, so
  \<^verbatim>\<open>t.IsZero()\<close> is \<open>t = 0\<close>.  A nullable column is an \<open>option\<close>; \<open>raw\<close> is a
  \<^verbatim>\<open>json.RawMessage\<close>, \<open>None\<close> being nil / SQL NULL.  The closed string vocabularies
  (named \<^verbatim>\<open>CHECK\<close> constraints of the schema) are datatypes.
\<close>

type_synonym time = int
type_synonym uuid = nat
type_synonym step_id = string

text \<open>
  JSON values as a \<^verbatim>\<open>JSONB\<close> column holds them; \<open>JDec m e\<close> is the non-integral number
  \<open>m / 10 ^ e\<close>.
\<close>

datatype json =
  JNull | JBool bool | JNum int | JDec int nat | JStr string
| JArr "json list" | JObj "(string \<times> json) list"

type_synonym raw = "json option"

section \<open>Status vocabularies\<close>

datatype run_status =
  RunStatusRunning | RunStatusSucceeded | RunStatusFailed
| RunStatusParked | RunStatusCancelling | RunStatusCancelled

datatype park_reason = ParkReasonManual | ParkReasonBudgetExceeded | ParkReasonAwaitingHuman

datatype run_cancel_reason = RunCancelReasonManual | RunCancelReasonDeadlineExceeded

datatype step_status =
  StepStatusPending | StepStatusReady | StepStatusRunning | StepStatusSucceeded
| StepStatusFailed | StepStatusSkipped | StepStatusRetrying | StepStatusDeadLettered
| StepStatusCancelled | StepStatusCollected | StepStatusAwaitingHuman

datatype approval_status =
  ApprovalStatusPending | ApprovalStatusApproved | ApprovalStatusRejected
| ApprovalStatusExpired | ApprovalStatusCancelled

datatype approval_source = ApprovalSourceHuman | ApprovalSourceTimeout

datatype approval_decision = ApprovalApprove | ApprovalReject

datatype edge_type = EdgeTypeNormal | EdgeTypeLoop

datatype edge_resolution = EdgeResolutionUnresolved | EdgeResolutionFired | EdgeResolutionSkipped

datatype outbox_reason =
  OutboxReasonStepReady | OutboxReasonReconcileReady | OutboxReasonReconcileRunning
| OutboxReasonReconcileRetry | OutboxReasonDLQRequeue | OutboxReasonUnpark
| OutboxReasonSemanticRetry | OutboxReasonApprovalTimeout

datatype dead_letter_source =
  DeadLetterSourceRetriesExhausted | DeadLetterSourcePermanent | DeadLetterSourcePoison

datatype cancel_reason = CancelReasonUpstreamDeadLettered | CancelReasonRunCancelled

datatype attempt_outcome =
  AttemptOutcomeSucceeded | AttemptOutcomeLost | AttemptOutcomeTransient
| AttemptOutcomePermanent | AttemptOutcomeTimeout | AttemptOutcomeCancelled
| AttemptOutcomeThrottled | AttemptOutcomeBudgetExceeded | AttemptOutcomeValidationFailed

datatype failure_policy = FailFast | ContinueIndependentBranches

datatype budget_action = BudgetPark | BudgetFail

datatype join_mode = JoinAll | JoinAny

datatype step_type =
  StepLLM | StepTool | StepRetrieve | StepMap | StepGather | StepPlanner | StepAgent
| StepHumanApproval | StepJoin | StepBranch | StepNoop | StepEcho | StepSleep
| StepFailNTimes | StepCounter | StepEffectfulEcho | StepBlackboardWrite

text \<open>
  The \<^verbatim>\<open>config\<close> column is represented by what \<^verbatim>\<open>dag.DecodeStepConfig\<close> makes of
  it: no config, a join config with its mode (absent mode: \<open>None\<close>), any other config, or
  stored bytes that no longer decode.
\<close>

datatype step_config =
  NoConfig | JoinConfig "join_mode option" | OtherConfig string | UndecodableConfig

datatype origin_kind = OriginPlanner | OriginMap | OriginLoop

record trace_context =
  tc_parent :: "string option"
  tc_state :: "string option"

section \<open>Rows\<close>

record run_row =
  r_status :: run_status
  r_params :: raw
  r_graph_version :: int
  r_next_seq :: int
  r_steps_total :: int
  r_steps_succeeded :: int
  r_steps_failed :: int
  r_steps_skipped :: int
  r_steps_cancelled :: int
  r_steps_collected :: int
  r_started_at :: "time option"
  r_finished_at :: "time option"
  r_on_failure :: failure_policy
  r_park_reason :: "park_reason option"
  r_cancel_reason :: "run_cancel_reason option"
  r_deadline_at :: "time option"
  r_trace :: trace_context
  r_spent_nano_usd :: int
  r_saved_nano_usd :: int
  r_budget_nano_usd :: "int option"
  r_on_budget_exceeded :: budget_action

record step_row =
  s_step_id :: step_id
  s_step_type :: step_type
  s_config :: step_config
  s_status :: step_status
  s_remaining_deps :: int
  s_fired_deps :: int
  s_claim_id :: "uuid option"
  s_attempt_count :: int
  s_output :: raw
  s_error :: raw
  s_graph_version :: int
  s_updated_at :: time
  s_started_at :: "time option"
  s_finished_at :: "time option"
  s_retry_policy :: raw
  s_next_attempt_at :: "time option"
  s_timeout :: "string option"
  s_trace_span :: "string option"
  s_feedback :: raw
  s_depth :: int
  s_origin_step :: "step_id option"
  s_origin_kind :: "origin_kind option"

record edge_row =
  e_ordinal :: int
  e_from_step :: step_id
  e_to_step :: step_id
  e_edge_type :: edge_type
  e_when_expr :: "string option"
  e_condition :: "string option"
  e_max_iterations :: "int option"
  e_resolution :: edge_resolution
  e_graph_version :: int
  e_decision :: "approval_decision option"

record attempt_row =
  at_step_id :: step_id
  at_attempt_no :: int
  at_claim_id :: uuid
  at_outcome :: "attempt_outcome option"
  at_error :: raw
  at_started_at :: "time option"
  at_finished_at :: "time option"
  at_usage :: raw
  at_verdict :: raw
  at_repair :: raw
  at_feedback :: raw
  at_worker_id :: "string option"

record dead_letter_row =
  dl_step_id :: step_id
  dl_seq :: int
  dl_source :: dead_letter_source
  dl_class :: "attempt_outcome option"
  dl_error :: raw
  dl_payload :: raw
  dl_attempts_at_death :: int
  dl_created_at :: time

record outbox_row =
  ob_step_id :: step_id
  ob_reason :: outbox_reason
  ob_trace :: trace_context

record approval_row =
  ap_id :: uuid
  ap_step_id :: step_id
  ap_attempt :: int
  ap_status :: approval_status
  ap_title :: string
  ap_description :: string
  ap_payload :: raw
  ap_allowed_decisions :: "approval_decision list"
  ap_allow_edit :: bool
  ap_edit_schema :: raw
  ap_timeout_at :: "time option"
  ap_decision :: "approval_decision option"
  ap_edited_payload :: raw
  ap_comment :: "string option"
  ap_decided_by :: "string option"
  ap_decided_at :: "time option"
  ap_decision_source :: "approval_source option"
  ap_updated_at :: time
  ap_expired_at :: "time option"

section \<open>Events\<close>

text \<open>
  The payload structs the store appends; \<^verbatim>\<open>EventType\<close> is the constructor.  The
  bodies of the loop, guard and notification events, which no transition reads, are
  opaque; the float \<^verbatim>\<open>ThresholdFraction\<close> is kept as its decimal text.
\<close>

datatype approval_action =
  ApprovalActionRejected | ApprovalActionApproved
| ApprovalActionRunParked | ApprovalActionRunAlreadyParked

datatype approval_policy = PolicyDecision approval_decision | ApprovalTimeoutPark

text \<open>A float of a document, as the decimal \<open>m / 10 ^ e\<close> it is written as.\<close>

type_synonym decimal = "int \<times> nat"

record budget_event =
  be_step_id :: step_id
  be_attempt :: int
  be_resource :: string
  be_limit :: string
  be_action :: string
  be_spent :: int
  be_estimate :: int
  be_projected :: int
  be_budget :: int
  be_projected_tokens :: int
  be_max_tokens :: int

record downgrade_event =
  md_step_id :: step_id
  md_attempt :: int
  md_from_model :: string
  md_to_model :: string
  md_from_resource :: string
  md_to_resource :: string
  md_trigger :: string
  md_limit :: string
  md_threshold_fraction :: decimal
  md_spent :: int
  md_budget :: int
  md_from_estimate :: int
  md_to_estimate :: int

datatype event_payload =
  EvRunCreated string string int
| EvStepReady step_id
| EvStepSkipped step_id
| EvStepRequeued step_id
| EvStepClaimed step_id uuid int string
| EvStepReclaimed step_id uuid int
| EvStepSucceeded step_id int
| EvStepRetryScheduled step_id int attempt_outcome time
| EvStepThrottled step_id int string string string time
| EvStepSemanticRetry step_id int int int int time
| EvStepDeadLettered step_id dead_letter_source "attempt_outcome option" int int
| EvStepCancelled step_id cancel_reason
| EvStepRevived step_id outbox_reason
| EvStepCollected step_id attempt_outcome int
| EvRunSucceeded
| EvRunFailed
| EvRunResumed
| EvRunParked park_reason
| EvRunUnparked
| EvRunCancelling run_cancel_reason
| EvRunCancelled
| EvBudgetExceeded budget_event
| EvRunBudgetUpdated int int
| EvModelDowngraded downgrade_event
| EvLoopExhausted string
| EvLoopNoProgress string
| EvGuardTripped string
| EvApprovalRequested uuid step_id int string "approval_decision list" bool "time option"
| EvApprovalCancelled uuid step_id cancel_reason
| EvApprovalDecided uuid step_id int approval_decision bool string string approval_source
| EvApprovalExpired uuid step_id int approval_policy "approval_decision option" approval_action "time option"
| EvApprovalNotification string
| EvBlackboardUpdated string int "string list" int string int
| EvCostUpdated step_id int string string bool bool int int int int "int option"
| EvCostUnknownModel string
| EvGraphExpanded step_id origin_kind int int int "step_id list" "step_id list" "step_id list"

record event_row =
  ev_seq :: int
  ev_payload :: event_payload

section \<open>The run's slice of the database\<close>

text \<open>
  \<open>run\<close> is the run's row (\<open>None\<close>: no such run).  \<open>steps\<close> is in \<^verbatim>\<open>step_id\<close> order,
  \<open>edges\<close> in \<^verbatim>\<open>ordinal\<close> order, the order their list queries return; \<open>events\<close> and
  \<open>outbox\<close> are in insertion order (ascending \<^verbatim>\<open>seq\<close> and identity).  \<open>txbuf\<close> is the
  \<^verbatim>\<open>txState.events\<close> buffer of the transaction in progress.
\<close>

record rundb =
  run :: "run_row option"
  steps :: "step_row list"
  edges :: "edge_row list"
  attempts :: "attempt_row list"
  events :: "event_row list"
  dead_letters :: "dead_letter_row list"
  outbox :: "outbox_row list"
  approvals :: "approval_row list"
  txbuf :: "event_row list"

section \<open>Errors\<close>

datatype conflict_reason =
  ConflictWrongStatus | ConflictClaimMismatch | ConflictGuardFailed | ConflictRunNotRunning

text \<open>
  \<^verbatim>\<open>TransitionError\<close> carries run or step statuses as strings; \<open>from\<close> and \<open>to\<close> are
  the two kinds of status as a sum.  For \<open>ConflictRunNotRunning\<close> alone \<open>from\<close> is the
  run's status although the entity is a step.
\<close>

datatype any_status = RunSt run_status | StepSt step_status | DecidedSt

record transition_error =
  te_step :: "step_id option"
  te_from :: any_status
  te_to :: any_status
  te_reason :: conflict_reason
  te_caller_claim :: "uuid option"
  te_current_claim :: "uuid option"

datatype store_error =
  ErrNotFound string
| ErrTransition transition_error
| ErrZeroNow
| ErrZeroNextAttemptAt
| ErrBadArgument string
| ErrConstraint string
| ErrLoopEdge int
| ErrReResolved int edge_resolution edge_resolution
| ErrDepsCorrupted step_id int
| ErrApprovalNotPending uuid approval_status
| ErrApprovalAlreadyExpired uuid
| ErrDecode step_id
| ErrPredicate string
| ErrRunNotRequeueable run_status
| ErrBlackboardConflict string int int
| ErrBlackboardFenced step_id
| ErrGraphIntegrity string

type_synonym 'a result = "store_error + 'a"

text \<open>The statuses a step can leave again only by an operator's requeue, or not at all.\<close>

definition step_terminal :: "step_status \<Rightarrow> bool" where
  "step_terminal s \<longleftrightarrow> s \<in> {StepStatusSucceeded, StepStatusFailed, StepStatusSkipped,
     StepStatusDeadLettered, StepStatusCancelled, StepStatusCollected}"

definition run_terminal :: "run_status \<Rightarrow> bool" where
  "run_terminal s \<longleftrightarrow> s \<in> {RunStatusSucceeded, RunStatusFailed, RunStatusCancelled}"

end
