(* ===== verification/Store_Queries.thy ===== *)
theory Store_Queries
  imports Store_Types
begin

text \<open>
  The generated query layer \<^verbatim>\<open>internal/store/gen/*.sql.go\<close>, one definition per
  statement.  A conditional \<^verbatim>\<open>UPDATE ... RETURNING\<close> yields the returned row and the
  updated tables, or \<open>None\<close> for \<^verbatim>\<open>pgx.ErrNoRows\<close>; an \<^verbatim>\<open>INSERT\<close> yields an error
  when a primary key, a unique index or a \<^verbatim>\<open>CHECK\<close> vocabulary refuses it.  The guards
  are the \<^verbatim>\<open>WHERE\<close> clauses, the record updates the \<^verbatim>\<open>SET\<close> clauses.
\<close>

section \<open>Reads and the shape of a compare-and-set update\<close>

definition lockRun_q :: "rundb \<Rightarrow> run_row option" where
  "lockRun_q db = run db"

definition getRun :: "rundb \<Rightarrow> run_row option" where
  "getRun db = run db"

definition getRunStep :: "step_id \<Rightarrow> rundb \<Rightarrow> step_row option" where
  "getRunStep sid db = row_at s_step_id sid (steps db)"

definition getRunEdge :: "int \<Rightarrow> rundb \<Rightarrow> edge_row option" where
  "getRunEdge ord db = row_at e_ordinal ord (edges db)"

definition getApproval :: "uuid \<Rightarrow> rundb \<Rightarrow> approval_row option" where
  "getApproval i db = row_at ap_id i (approvals db)"

definition listRunSteps :: "rundb \<Rightarrow> step_row list" where
  "listRunSteps db = steps db"

definition listRunEdges :: "rundb \<Rightarrow> edge_row list" where
  "listRunEdges db = edges db"

definition listRunEdgesFromStep :: "step_id \<Rightarrow> rundb \<Rightarrow> edge_row list" where
  "listRunEdgesFromStep sid db = filter (\<lambda>e. e_from_step e = sid) (edges db)"

definition listReadyStepsWithoutOutbox :: "rundb \<Rightarrow> step_id list" where
  "listReadyStepsWithoutOutbox db =
     map s_step_id (filter (\<lambda>s. s_status s = StepStatusReady
        \<and> \<not> list_ex (\<lambda>ob. ob_step_id ob = s_step_id s) (outbox db)) (steps db))"

text \<open>
  The attempt number below which failures no longer count: the attempt count at the
  step's latest death, 0 when it never died (\<^verbatim>\<open>COALESCE(MAX(attempts_at_death), 0)\<close>).
\<close>

definition death_baseline :: "step_id \<Rightarrow> rundb \<Rightarrow> int" where
  "death_baseline sid db =
     (case map dl_attempts_at_death (filter (\<lambda>d. dl_step_id d = sid) (dead_letters db)) of
        [] \<Rightarrow> 0 | n # ns \<Rightarrow> fold max ns n)"

definition countCountedFailures :: "step_id \<Rightarrow> rundb \<Rightarrow> int" where
  "countCountedFailures sid db =
     int (length (filter (\<lambda>a. at_step_id a = sid
        \<and> (at_outcome a = Some AttemptOutcomeTransient \<or> at_outcome a = Some AttemptOutcomeTimeout)
        \<and> at_attempt_no a > death_baseline sid db) (attempts db)))"

definition countValidationFailures :: "step_id \<Rightarrow> rundb \<Rightarrow> int" where
  "countValidationFailures sid db =
     int (length (filter (\<lambda>a. at_step_id a = sid
        \<and> at_outcome a = Some AttemptOutcomeValidationFailed
        \<and> at_attempt_no a > death_baseline sid db) (attempts db)))"

definition cas_step :: "step_id \<Rightarrow> (step_row \<Rightarrow> bool) \<Rightarrow> (step_row \<Rightarrow> step_row) \<Rightarrow> rundb
    \<Rightarrow> (step_row \<times> rundb) option" where
  "cas_step sid guard upd db =
     (case getRunStep sid db of
        None \<Rightarrow> None
      | Some r \<Rightarrow>
          if guard r
          then Some (upd r, db\<lparr>steps := replace_row s_step_id sid (upd r) (steps db)\<rparr>)
          else None)"

definition cas_run :: "(run_row \<Rightarrow> bool) \<Rightarrow> (run_row \<Rightarrow> run_row) \<Rightarrow> rundb
    \<Rightarrow> (run_row \<times> rundb) option" where
  "cas_run guard upd db =
     (case run db of
        None \<Rightarrow> None
      | Some r \<Rightarrow> if guard r then Some (upd r, db\<lparr>run := Some (upd r)\<rparr>) else None)"

definition cas_approval :: "(approval_row \<Rightarrow> bool) \<Rightarrow> (approval_row \<Rightarrow> approval_row) \<Rightarrow> rundb
    \<Rightarrow> (approval_row \<times> rundb) option" where
  "cas_approval guard upd db =
     (case find guard (approvals db) of
        None \<Rightarrow> None
      | Some r \<Rightarrow>
          Some (upd r, db\<lparr>approvals := replace_row ap_id (ap_id r) (upd r) (approvals db)\<rparr>))"

abbreviation running_under :: "uuid \<Rightarrow> step_row \<Rightarrow> bool" where
  "running_under c r \<equiv> s_status r = StepStatusRunning \<and> s_claim_id r = Some c"

section \<open>Step transitions\<close>

definition claim_due :: "time \<Rightarrow> step_row \<Rightarrow> bool" where
  "claim_due now r \<longleftrightarrow> s_status r = StepStatusReady
     \<or> (s_status r = StepStatusRetrying
        \<and> (case s_next_attempt_at r of None \<Rightarrow> False | Some t \<Rightarrow> t \<le> now))"

definition coalesce :: "'a option \<Rightarrow> 'a \<Rightarrow> 'a option" where
  "coalesce x d = (case x of None \<Rightarrow> Some d | Some v \<Rightarrow> Some v)"

definition claimRunStep :: "step_id \<Rightarrow> uuid \<Rightarrow> string option \<Rightarrow> time \<Rightarrow> rundb
    \<Rightarrow> (step_row \<times> rundb) option" where
  "claimRunStep sid c span now =
     cas_step sid (claim_due now)
       (\<lambda>r. r\<lparr>s_status := StepStatusRunning, s_claim_id := Some c,
              s_attempt_count := s_attempt_count r + 1, s_next_attempt_at := None,
              s_trace_span := span,
              s_started_at := coalesce (s_started_at r) now,
              s_updated_at := now\<rparr>)"

definition succeedRunStep :: "step_id \<Rightarrow> uuid \<Rightarrow> raw \<Rightarrow> time \<Rightarrow> rundb \<Rightarrow> (step_row \<times> rundb) option" where
  "succeedRunStep sid c out now =
     cas_step sid (running_under c)
       (\<lambda>r. r\<lparr>s_status := StepStatusSucceeded, s_output := out, s_feedback := None,
              s_finished_at := Some now, s_updated_at := now\<rparr>)"

definition deadLetterRunStep :: "step_id \<Rightarrow> uuid \<Rightarrow> raw \<Rightarrow> time \<Rightarrow> rundb \<Rightarrow> (step_row \<times> rundb) option" where
  "deadLetterRunStep sid c err now =
     cas_step sid (running_under c)
       (\<lambda>r. r\<lparr>s_status := StepStatusDeadLettered, s_error := err, s_feedback := None,
              s_finished_at := Some now, s_updated_at := now\<rparr>)"

definition collectFailRunStep :: "step_id \<Rightarrow> uuid \<Rightarrow> raw \<Rightarrow> raw \<Rightarrow> time \<Rightarrow> rundb
    \<Rightarrow> (step_row \<times> rundb) option" where
  "collectFailRunStep sid c out err now =
     cas_step sid (running_under c)
       (\<lambda>r. r\<lparr>s_status := StepStatusCollected, s_output := out, s_error := err,
              s_feedback := None, s_finished_at := Some now, s_updated_at := now\<rparr>)"

definition poisonDeadLetterRunStep :: "step_id \<Rightarrow> raw \<Rightarrow> time \<Rightarrow> rundb \<Rightarrow> (step_row \<times> rundb) option" where
  "poisonDeadLetterRunStep sid err now =
     cas_step sid (\<lambda>r. s_status r \<in> {StepStatusPending, StepStatusReady, StepStatusRunning, StepStatusRetrying})
       (\<lambda>r. r\<lparr>s_status := StepStatusDeadLettered, s_error := err, s_claim_id := None,
              s_next_attempt_at := None, s_feedback := None,
              s_finished_at := Some now, s_updated_at := now\<rparr>)"

definition cancelRunStep :: "step_id \<Rightarrow> time \<Rightarrow> rundb \<Rightarrow> (step_row \<times> rundb) option" where
  "cancelRunStep sid now =
     cas_step sid (\<lambda>r. s_status r \<in> {StepStatusPending, StepStatusReady, StepStatusRetrying})
       (\<lambda>r. r\<lparr>s_status := StepStatusCancelled, s_next_attempt_at := None, s_updated_at := now\<rparr>)"

definition cancelRunningRunStep :: "step_id \<Rightarrow> uuid \<Rightarrow> raw \<Rightarrow> time \<Rightarrow> rundb \<Rightarrow> (step_row \<times> rundb) option" where
  "cancelRunningRunStep sid c err now =
     cas_step sid (running_under c)
       (\<lambda>r. r\<lparr>s_status := StepStatusCancelled, s_error := err,
              s_finished_at := Some now, s_updated_at := now\<rparr>)"

definition requeueRunStep :: "step_id \<Rightarrow> time \<Rightarrow> rundb \<Rightarrow> (step_row \<times> rundb) option" where
  "requeueRunStep sid now =
     cas_step sid (\<lambda>r. s_status r = StepStatusDeadLettered)
       (\<lambda>r. r\<lparr>s_status := StepStatusReady, s_error := None, s_next_attempt_at := None,
              s_finished_at := None, s_updated_at := now\<rparr>)"

definition reviveRunStep :: "step_id \<Rightarrow> time \<Rightarrow> rundb \<Rightarrow> (step_row \<times> rundb) option" where
  "reviveRunStep sid now =
     cas_step sid (\<lambda>r. s_status r = StepStatusCancelled)
       (\<lambda>r. r\<lparr>s_status := StepStatusPending, s_updated_at := now\<rparr>)"

definition retryRunStep :: "step_id \<Rightarrow> uuid \<Rightarrow> raw \<Rightarrow> time \<Rightarrow> time \<Rightarrow> rundb
    \<Rightarrow> (step_row \<times> rundb) option" where
  "retryRunStep sid c err next now =
     cas_step sid (running_under c)
       (\<lambda>r. r\<lparr>s_status := StepStatusRetrying, s_error := err, s_claim_id := None,
              s_next_attempt_at := Some next, s_updated_at := now\<rparr>)"

definition semanticRetryRunStep :: "step_id \<Rightarrow> uuid \<Rightarrow> raw \<Rightarrow> time \<Rightarrow> raw \<Rightarrow> time \<Rightarrow> rundb
    \<Rightarrow> (step_row \<times> rundb) option" where
  "semanticRetryRunStep sid c err next feedback now =
     cas_step sid (running_under c)
       (\<lambda>r. r\<lparr>s_status := StepStatusRetrying, s_error := err, s_claim_id := None,
              s_next_attempt_at := Some next, s_feedback := feedback, s_updated_at := now\<rparr>)"

definition takeoverRunStep :: "step_id \<Rightarrow> uuid \<Rightarrow> time \<Rightarrow> rundb \<Rightarrow> (step_row \<times> rundb) option" where
  "takeoverRunStep sid c now =
     cas_step sid (running_under c)
       (\<lambda>r. r\<lparr>s_status := StepStatusReady, s_claim_id := None, s_updated_at := now\<rparr>)"

definition budgetParkRunStep :: "step_id \<Rightarrow> uuid \<Rightarrow> time \<Rightarrow> rundb \<Rightarrow> (step_row \<times> rundb) option" where
  "budgetParkRunStep sid c now =
     cas_step sid (running_under c)
       (\<lambda>r. r\<lparr>s_status := StepStatusReady, s_claim_id := None, s_updated_at := now\<rparr>)"

definition awaitHumanRunStep :: "step_id \<Rightarrow> uuid \<Rightarrow> time \<Rightarrow> rundb \<Rightarrow> (step_row \<times> rundb) option" where
  "awaitHumanRunStep sid c now =
     cas_step sid (running_under c)
       (\<lambda>r. r\<lparr>s_status := StepStatusAwaitingHuman, s_claim_id := None, s_updated_at := now\<rparr>)"

definition cancelAwaitingHumanRunStep :: "step_id \<Rightarrow> time \<Rightarrow> rundb \<Rightarrow> (step_row \<times> rundb) option" where
  "cancelAwaitingHumanRunStep sid now =
     cas_step sid (\<lambda>r. s_status r = StepStatusAwaitingHuman)
       (\<lambda>r. r\<lparr>s_status := StepStatusCancelled, s_next_attempt_at := None,
              s_finished_at := Some now, s_updated_at := now\<rparr>)"

definition succeedAwaitingHumanRunStep :: "step_id \<Rightarrow> raw \<Rightarrow> time \<Rightarrow> rundb \<Rightarrow> (step_row \<times> rundb) option" where
  "succeedAwaitingHumanRunStep sid out now =
     cas_step sid (\<lambda>r. s_status r = StepStatusAwaitingHuman)
       (\<lambda>r. r\<lparr>s_status := StepStatusSucceeded, s_output := out,
              s_finished_at := Some now, s_updated_at := now\<rparr>)"

definition deadLetterAwaitingHumanRunStep :: "step_id \<Rightarrow> raw \<Rightarrow> time \<Rightarrow> rundb \<Rightarrow> (step_row \<times> rundb) option" where
  "deadLetterAwaitingHumanRunStep sid err now =
     cas_step sid (\<lambda>r. s_status r = StepStatusAwaitingHuman)
       (\<lambda>r. r\<lparr>s_status := StepStatusDeadLettered, s_error := err,
              s_finished_at := Some now, s_updated_at := now\<rparr>)"

definition readyRunStep :: "step_id \<Rightarrow> bool \<Rightarrow> time \<Rightarrow> rundb \<Rightarrow> (step_row \<times> rundb) option" where
  "readyRunStep sid join_any now =
     cas_step sid (\<lambda>r. s_status r = StepStatusPending \<and> s_fired_deps r \<ge> 1
                       \<and> (s_remaining_deps r = 0 \<or> join_any))
       (\<lambda>r. r\<lparr>s_status := StepStatusReady, s_updated_at := now\<rparr>)"

definition skipRunStep :: "step_id \<Rightarrow> time \<Rightarrow> rundb \<Rightarrow> (step_row \<times> rundb) option" where
  "skipRunStep sid now =
     cas_step sid (\<lambda>r. s_status r = StepStatusPending \<and> s_remaining_deps r = 0 \<and> s_fired_deps r = 0)
       (\<lambda>r. r\<lparr>s_status := StepStatusSkipped, s_updated_at := now\<rparr>)"

section \<open>Edges\<close>

definition resolveRunEdge :: "int \<Rightarrow> edge_resolution \<Rightarrow> rundb \<Rightarrow> (edge_row \<times> rundb) option" where
  "resolveRunEdge ord res db =
     (case getRunEdge ord db of
        None \<Rightarrow> None
      | Some e \<Rightarrow>
          if e_edge_type e = EdgeTypeNormal \<and> e_resolution e = EdgeResolutionUnresolved
          then Some (e\<lparr>e_resolution := res\<rparr>,
                     db\<lparr>edges := replace_row e_ordinal ord (e\<lparr>e_resolution := res\<rparr>) (edges db)\<rparr>)
          else None)"

definition applyEdgeResolution :: "step_id \<Rightarrow> int \<Rightarrow> time \<Rightarrow> rundb \<Rightarrow> (step_row \<times> rundb) option" where
  "applyEdgeResolution sid fired_delta now =
     cas_step sid (\<lambda>r. s_remaining_deps r > 0)
       (\<lambda>r. r\<lparr>s_remaining_deps := s_remaining_deps r - 1,
              s_fired_deps := s_fired_deps r + fired_delta, s_updated_at := now\<rparr>)"

section \<open>Run row\<close>

record counter_delta =
  d_succeeded :: int
  d_failed :: int
  d_skipped :: int
  d_cancelled :: int
  d_collected :: int

definition no_delta :: counter_delta where
  "no_delta = \<lparr>d_succeeded = 0, d_failed = 0, d_skipped = 0, d_cancelled = 0, d_collected = 0\<rparr>"

definition add_delta :: "counter_delta \<Rightarrow> run_row \<Rightarrow> run_row" where
  "add_delta d r = r\<lparr>r_steps_succeeded := r_steps_succeeded r + d_succeeded d,
     r_steps_failed := r_steps_failed r + d_failed d,
     r_steps_skipped := r_steps_skipped r + d_skipped d,
     r_steps_cancelled := r_steps_cancelled r + d_cancelled d,
     r_steps_collected := r_steps_collected r + d_collected d\<rparr>"

text \<open>An \<^verbatim>\<open>:execrows\<close> statement yields the number of rows it changed.\<close>

definition bumpRunStepCounters :: "counter_delta \<Rightarrow> rundb \<Rightarrow> nat \<times> rundb" where
  "bumpRunStepCounters d db =
     (case run db of None \<Rightarrow> (0, db) | Some r \<Rightarrow> (1, db\<lparr>run := Some (add_delta d r)\<rparr>))"

abbreviation live_run :: "run_row \<Rightarrow> bool" where
  "live_run r \<equiv> r_status r = RunStatusRunning \<or> r_status r = RunStatusParked"

abbreviation steps_settled :: "run_row \<Rightarrow> int" where
  "steps_settled r \<equiv> r_steps_succeeded r + r_steps_failed r + r_steps_skipped r
     + r_steps_cancelled r + r_steps_collected r"

definition succeedRun_q :: "time \<Rightarrow> rundb \<Rightarrow> (run_row \<times> rundb) option" where
  "succeedRun_q now =
     cas_run (\<lambda>r. live_run r \<and> r_steps_failed r = 0
                  \<and> r_steps_succeeded r + r_steps_skipped r + r_steps_collected r = r_steps_total r)
       (\<lambda>r. r\<lparr>r_status := RunStatusSucceeded, r_park_reason := None, r_finished_at := Some now\<rparr>)"

definition failRun_q :: "time \<Rightarrow> rundb \<Rightarrow> (run_row \<times> rundb) option" where
  "failRun_q now =
     cas_run (\<lambda>r. live_run r \<and> r_steps_failed r \<ge> 1)
       (\<lambda>r. r\<lparr>r_status := RunStatusFailed, r_park_reason := None, r_finished_at := Some now\<rparr>)"

definition failRunRollup_q :: "time \<Rightarrow> rundb \<Rightarrow> (run_row \<times> rundb) option" where
  "failRunRollup_q now =
     cas_run (\<lambda>r. live_run r \<and> r_steps_failed r \<ge> 1 \<and> steps_settled r = r_steps_total r)
       (\<lambda>r. r\<lparr>r_status := RunStatusFailed, r_park_reason := None, r_finished_at := Some now\<rparr>)"

definition parkRun_q :: "park_reason \<Rightarrow> rundb \<Rightarrow> (run_row \<times> rundb) option" where
  "parkRun_q reason =
     cas_run (\<lambda>r. r_status r = RunStatusRunning)
       (\<lambda>r. r\<lparr>r_status := RunStatusParked, r_park_reason := Some reason\<rparr>)"

definition unparkRun_q :: "rundb \<Rightarrow> (run_row \<times> rundb) option" where
  "unparkRun_q =
     cas_run (\<lambda>r. r_status r = RunStatusParked)
       (\<lambda>r. r\<lparr>r_status := RunStatusRunning, r_park_reason := None\<rparr>)"

definition cancelRun_q :: "run_cancel_reason \<Rightarrow> rundb \<Rightarrow> (run_row \<times> rundb) option" where
  "cancelRun_q reason =
     cas_run live_run
       (\<lambda>r. r\<lparr>r_status := RunStatusCancelling, r_cancel_reason := Some reason, r_park_reason := None\<rparr>)"

definition cancelRunRollup_q :: "time \<Rightarrow> rundb \<Rightarrow> (run_row \<times> rundb) option" where
  "cancelRunRollup_q now =
     cas_run (\<lambda>r. r_status r = RunStatusCancelling \<and> steps_settled r = r_steps_total r)
       (\<lambda>r. r\<lparr>r_status := RunStatusCancelled, r_finished_at := Some now\<rparr>)"

definition resumeRun_q :: "rundb \<Rightarrow> (run_row \<times> rundb) option" where
  "resumeRun_q =
     cas_run (\<lambda>r. r_status r = RunStatusFailed)
       (\<lambda>r. r\<lparr>r_status := RunStatusRunning, r_finished_at := None\<rparr>)"

definition setRunBudget_q :: "int \<Rightarrow> rundb \<Rightarrow> (run_row \<times> rundb) option" where
  "setRunBudget_q budget =
     cas_run (\<lambda>r. r_status r \<in> {RunStatusRunning, RunStatusParked, RunStatusCancelling})
       (\<lambda>r. r\<lparr>r_budget_nano_usd := Some budget\<rparr>)"

definition allocateEventSeq :: "rundb \<Rightarrow> (int \<times> rundb) option" where
  "allocateEventSeq db =
     (case run db of
        None \<Rightarrow> None
      | Some r \<Rightarrow> Some (r_next_seq r + 1, db\<lparr>run := Some (r\<lparr>r_next_seq := r_next_seq r + 1\<rparr>)\<rparr>))"

section \<open>Inserts\<close>

definition appendEvent_q :: "int \<Rightarrow> event_payload \<Rightarrow> rundb \<Rightarrow> (event_row \<times> rundb) result" where
  "appendEvent_q seq p db =
     (if list_ex (\<lambda>e. ev_seq e = seq) (events db) then Inl (ErrConstraint ''events_pkey'')
      else let e = \<lparr>ev_seq = seq, ev_payload = p\<rparr> in Inr (e, db\<lparr>events := events db @ [e]\<rparr>))"

definition createStepAttempt :: "step_id \<Rightarrow> int \<Rightarrow> uuid \<Rightarrow> time \<Rightarrow> raw \<Rightarrow> string option \<Rightarrow> rundb
    \<Rightarrow> (attempt_row \<times> rundb) result" where
  "createStepAttempt sid no c now feedback worker db =
     (if list_ex (\<lambda>a. at_step_id a = sid \<and> at_attempt_no a = no) (attempts db)
      then Inl (ErrConstraint ''step_attempts_pkey'')
      else let a = \<lparr>at_step_id = sid, at_attempt_no = no, at_claim_id = c, at_outcome = None,
                    at_error = None, at_started_at = Some now, at_finished_at = None,
                    at_usage = None, at_verdict = None, at_repair = None,
                    at_feedback = feedback, at_worker_id = worker\<rparr>
           in Inr (a, db\<lparr>attempts := attempts db @ [a]\<rparr>))"

definition close_attempt :: "attempt_outcome \<Rightarrow> raw \<Rightarrow> raw \<Rightarrow> raw \<Rightarrow> raw \<Rightarrow> time
    \<Rightarrow> attempt_row \<Rightarrow> attempt_row" where
  "close_attempt out err usage verdict repair now a =
     a\<lparr>at_outcome := Some out, at_error := err, at_usage := usage, at_verdict := verdict,
       at_repair := repair, at_finished_at := Some now\<rparr>"

definition finishStepAttempt :: "step_id \<Rightarrow> int \<Rightarrow> attempt_outcome \<Rightarrow> raw \<Rightarrow> raw \<Rightarrow> raw \<Rightarrow> raw
    \<Rightarrow> time \<Rightarrow> rundb \<Rightarrow> nat \<times> rundb" where
  "finishStepAttempt sid no out err usage verdict repair now db =
     (let hit = (\<lambda>a. at_step_id a = sid \<and> at_attempt_no a = no)
      in (length (filter hit (attempts db)),
          db\<lparr>attempts := map (\<lambda>a. if hit a then close_attempt out err usage verdict repair now a else a)
                             (attempts db)\<rparr>))"

text \<open>\<^verbatim>\<open>dead_letters_class_check\<close> (migration 0018); a NULL class passes a CHECK.\<close>

definition dead_letter_class_ok :: "attempt_outcome option \<Rightarrow> bool" where
  "dead_letter_class_ok cls \<longleftrightarrow> (case cls of None \<Rightarrow> True | Some c \<Rightarrow>
     c \<in> {AttemptOutcomeTransient, AttemptOutcomePermanent, AttemptOutcomeTimeout,
          AttemptOutcomeCancelled, AttemptOutcomeValidationFailed})"

definition next_dead_letter_seq :: "step_id \<Rightarrow> rundb \<Rightarrow> int" where
  "next_dead_letter_seq sid db =
     (case map dl_seq (filter (\<lambda>d. dl_step_id d = sid) (dead_letters db)) of
        [] \<Rightarrow> 0 | n # ns \<Rightarrow> fold max ns n) + 1"

definition createDeadLetter :: "step_id \<Rightarrow> dead_letter_source \<Rightarrow> attempt_outcome option \<Rightarrow> raw \<Rightarrow> raw
    \<Rightarrow> int \<Rightarrow> time \<Rightarrow> rundb \<Rightarrow> (dead_letter_row \<times> rundb) result" where
  "createDeadLetter sid src cls err payload deaths now db =
     (if dead_letter_class_ok cls
      then let d = \<lparr>dl_step_id = sid, dl_seq = next_dead_letter_seq sid db, dl_source = src,
                    dl_class = cls, dl_error = err, dl_payload = payload,
                    dl_attempts_at_death = deaths, dl_created_at = now\<rparr>
           in Inr (d, db\<lparr>dead_letters := dead_letters db @ [d]\<rparr>)
      else Inl (ErrConstraint ''dead_letters_class_check''))"

definition createOutboxTask :: "step_id \<Rightarrow> outbox_reason \<Rightarrow> trace_context \<Rightarrow> rundb \<Rightarrow> rundb" where
  "createOutboxTask sid reason tr db =
     db\<lparr>outbox := outbox db @ [\<lparr>ob_step_id = sid, ob_reason = reason, ob_trace = tr\<rparr>]\<rparr>"

section \<open>Approvals\<close>

definition insertApproval :: "approval_row \<Rightarrow> rundb \<Rightarrow> (approval_row \<times> rundb) result" where
  "insertApproval a db =
     (if list_ex (\<lambda>b. ap_id b = ap_id a) (approvals db) then Inl (ErrConstraint ''approvals_pkey'')
      else if list_ex (\<lambda>b. ap_step_id b = ap_step_id a \<and> ap_status b = ApprovalStatusPending) (approvals db)
      then Inl (ErrConstraint ''approvals_one_pending_per_step_idx'')
      else Inr (a, db\<lparr>approvals := approvals db @ [a]\<rparr>))"

definition cancelPendingApprovalByStep :: "step_id \<Rightarrow> time \<Rightarrow> rundb \<Rightarrow> (approval_row \<times> rundb) option" where
  "cancelPendingApprovalByStep sid now =
     cas_approval (\<lambda>a. ap_step_id a = sid \<and> ap_status a = ApprovalStatusPending)
       (\<lambda>a. a\<lparr>ap_status := ApprovalStatusCancelled, ap_updated_at := now\<rparr>)"

definition decideApproval_q :: "uuid \<Rightarrow> approval_status \<Rightarrow> approval_decision \<Rightarrow> raw \<Rightarrow> string option
    \<Rightarrow> string \<Rightarrow> approval_source \<Rightarrow> time option \<Rightarrow> time \<Rightarrow> rundb
    \<Rightarrow> (approval_row \<times> rundb) option" where
  "decideApproval_q i st dec edited comment by src expired now =
     cas_approval (\<lambda>a. ap_id a = i \<and> ap_status a = ApprovalStatusPending)
       (\<lambda>a. a\<lparr>ap_status := st, ap_decision := Some dec, ap_edited_payload := edited,
              ap_comment := comment, ap_decided_by := Some by, ap_decided_at := Some now,
              ap_decision_source := Some src, ap_expired_at := expired, ap_updated_at := now\<rparr>)"

definition markApprovalExpiredPending :: "uuid \<Rightarrow> time \<Rightarrow> rundb \<Rightarrow> (approval_row \<times> rundb) option" where
  "markApprovalExpiredPending i now =
     cas_approval (\<lambda>a. ap_id a = i \<and> ap_status a = ApprovalStatusPending \<and> ap_expired_at a = None)
       (\<lambda>a. a\<lparr>ap_expired_at := Some now, ap_updated_at := now\<rparr>)"

section \<open>What a compare-and-set does\<close>

lemma cas_step_eq_Some:
  "cas_step sid guard upd db = Some (new, db') \<longleftrightarrow>
     (\<exists>old. getRunStep sid db = Some old \<and> guard old \<and> new = upd old
        \<and> db' = db\<lparr>steps := replace_row s_step_id sid (upd old) (steps db)\<rparr>)"
  by (auto simp: cas_step_def split: option.splits)

lemma cas_step_eq_None:
  "cas_step sid guard upd db = None \<longleftrightarrow>
     (\<forall>old. getRunStep sid db = Some old \<longrightarrow> \<not> guard old)"
  by (auto simp: cas_step_def split: option.splits)

lemma cas_run_eq_Some:
  "cas_run guard upd db = Some (new, db') \<longleftrightarrow>
     (\<exists>old. run db = Some old \<and> guard old \<and> new = upd old \<and> db' = db\<lparr>run := Some (upd old)\<rparr>)"
  by (auto simp: cas_run_def split: option.splits)

lemma cas_run_eq_None:
  "cas_run guard upd db = None \<longleftrightarrow> (\<forall>old. run db = Some old \<longrightarrow> \<not> guard old)"
  by (auto simp: cas_run_def split: option.splits)

lemmas step_queries =
  claimRunStep_def succeedRunStep_def deadLetterRunStep_def collectFailRunStep_def
  poisonDeadLetterRunStep_def cancelRunStep_def cancelRunningRunStep_def requeueRunStep_def
  reviveRunStep_def retryRunStep_def semanticRetryRunStep_def takeoverRunStep_def
  budgetParkRunStep_def awaitHumanRunStep_def cancelAwaitingHumanRunStep_def
  succeedAwaitingHumanRunStep_def deadLetterAwaitingHumanRunStep_def
  readyRunStep_def skipRunStep_def applyEdgeResolution_def

lemmas run_queries =
  succeedRun_q_def failRun_q_def failRunRollup_q_def parkRun_q_def unparkRun_q_def
  cancelRun_q_def cancelRunRollup_q_def resumeRun_q_def setRunBudget_q_def

end
