(* ===== verification/Store_Transitions.thy ===== *)
theory Store_Transitions
  imports Store_Queries
begin

text \<open>
  The transition layer \<^verbatim>\<open>internal/store/transitions.go\<close> and \<^verbatim>\<open>tx.go\<close>: one definition per
  exported transition, in the order of the file, each the whole body: argument checks,
  the run lock, the compare-and-set, the conflict diagnosis, the attempt close, the
  counter bump, the dead-letter insert and the event.  A transition maps the run's tables
  to an error or to the returned row with the new tables; \<open>withTx\<close> commits the latter and
  keeps the old tables for the former.

  A string argument that a transition checks against a closed vocabulary is an
  \<open>option\<close>, \<open>None\<close> being the empty or unknown string it refuses.  \<^verbatim>\<open>uuid.New()\<close> is an
  argument (the fresh claim id).  Logging is not modelled.
\<close>

section \<open>Plumbing\<close>

definition nullableText :: "string \<Rightarrow> string option" where
  "nullableText s = (if s = [] then None else Some s)"

definition textOrEmpty :: "string option \<Rightarrow> string" where
  "textOrEmpty t = (case t of None \<Rightarrow> [] | Some s \<Rightarrow> s)"

text \<open>
  \<^verbatim>\<open>transitionQueries\<close> also refuses a call outside \<^verbatim>\<open>WithTx\<close> (\<^verbatim>\<open>ErrNoTx\<close>); here
  a transition only ever runs on the tables \<open>withTx\<close> hands it.
\<close>

definition transitionQueries :: "time \<Rightarrow> unit result" where
  "transitionQueries now = (if now = 0 then Inl ErrZeroNow else Inr ())"

definition lockRun :: "rundb \<Rightarrow> run_row result" where
  "lockRun db = (case lockRun_q db of None \<Rightarrow> Inl (ErrNotFound ''run'') | Some r \<Rightarrow> Inr r)"

definition recordEnvelope :: "event_row \<Rightarrow> rundb \<Rightarrow> rundb" where
  "recordEnvelope e db = db\<lparr>txbuf := txbuf db @ [e]\<rparr>"

definition appendEvent :: "event_payload \<Rightarrow> rundb \<Rightarrow> rundb result" where
  "appendEvent p db =
     (case allocateEventSeq db of
        None \<Rightarrow> Inl (ErrNotFound ''run'')
      | Some (seq, db1) \<Rightarrow>
          andThen (appendEvent_q seq p db1) (\<lambda>(row, db2). Inr (recordEnvelope row db2)))"

definition finishAttempt :: "step_row \<Rightarrow> attempt_outcome \<Rightarrow> raw \<Rightarrow> raw \<Rightarrow> raw \<Rightarrow> raw \<Rightarrow> time
    \<Rightarrow> rundb \<Rightarrow> rundb result" where
  "finishAttempt step out err usage verdict repair now db =
     (let (rows, db1) = finishStepAttempt (s_step_id step) (s_attempt_count step)
                          out err usage verdict repair now db
      in if rows \<noteq> 1 then Inl (ErrNotFound ''attempt'') else Inr db1)"

definition bumpCounters :: "counter_delta \<Rightarrow> rundb \<Rightarrow> rundb result" where
  "bumpCounters d db =
     (let (rows, db1) = bumpRunStepCounters d db
      in if rows \<noteq> 1 then Inl (ErrNotFound ''run'') else Inr db1)"

definition transitionError :: "step_id option \<Rightarrow> any_status \<Rightarrow> any_status \<Rightarrow> conflict_reason
    \<Rightarrow> uuid option \<Rightarrow> uuid option \<Rightarrow> store_error" where
  "transitionError sid from to reason caller cur =
     ErrTransition \<lparr>te_step = sid, te_from = from, te_to = to, te_reason = reason,
                    te_caller_claim = caller, te_current_claim = cur\<rparr>"

definition stepConflict :: "step_id \<Rightarrow> step_status \<Rightarrow> step_status \<Rightarrow> uuid option \<Rightarrow> rundb \<Rightarrow> store_error" where
  "stepConflict sid want to claim db =
     (case getRunStep sid db of
        None \<Rightarrow> ErrNotFound ''step''
      | Some row \<Rightarrow>
          transitionError (Some sid) (StepSt (s_status row)) (StepSt to)
            (if s_status row \<noteq> want then ConflictWrongStatus
             else if claim \<noteq> None \<and> s_claim_id row \<noteq> claim then ConflictClaimMismatch
             else ConflictGuardFailed)
            claim (s_claim_id row))"

definition runConflict :: "run_status \<Rightarrow> run_status \<Rightarrow> rundb \<Rightarrow> store_error" where
  "runConflict want to db =
     (case getRun db of
        None \<Rightarrow> ErrNotFound ''run''
      | Some row \<Rightarrow>
          transitionError None (RunSt (r_status row)) (RunSt to)
            (if r_status row \<noteq> want then ConflictWrongStatus else ConflictGuardFailed)
            None None)"

section \<open>Claiming and losing a claim\<close>

record claim_origin =
  co_from_status :: "step_status option"
  co_changed_at :: time
  co_known :: bool
  co_prev_trace_span :: string
  co_run_trace :: trace_context
  co_budget :: "int option"
  co_spent :: int
  co_on_budget :: "budget_action option"
  co_deadline :: "time option"
  co_started :: "time option"

definition claimOrigin :: "run_row \<Rightarrow> step_row option \<Rightarrow> claim_origin" where
  "claimOrigin rn prev =
     \<lparr>co_from_status = map_option s_status prev,
      co_changed_at = (case prev of None \<Rightarrow> 0 | Some p \<Rightarrow> s_updated_at p),
      co_known = (prev \<noteq> None),
      co_prev_trace_span = (case prev of None \<Rightarrow> [] | Some p \<Rightarrow> textOrEmpty (s_trace_span p)),
      co_run_trace = r_trace rn, co_budget = r_budget_nano_usd rn, co_spent = r_spent_nano_usd rn,
      co_on_budget = Some (r_on_budget_exceeded rn), co_deadline = r_deadline_at rn,
      co_started = r_started_at rn\<rparr>"

definition ClaimStepWithOrigin :: "step_id \<Rightarrow> string \<Rightarrow> string \<Rightarrow> time \<Rightarrow> uuid \<Rightarrow> rundb
    \<Rightarrow> ((step_row \<times> claim_origin) \<times> rundb) result" where
  "ClaimStepWithOrigin sid worker span now fresh db =
     andThen (transitionQueries now) (\<lambda>_.
     andThen (lockRun db) (\<lambda>rn.
     if r_status rn \<noteq> RunStatusRunning
     then (case getRunStep sid db of
             None \<Rightarrow> Inl (ErrNotFound ''step'')
           | Some step \<Rightarrow> Inl (transitionError (Some sid) (RunSt (r_status rn))
                                (StepSt StepStatusRunning) ConflictRunNotRunning None (s_claim_id step)))
     else
       let origin = claimOrigin rn (getRunStep sid db) in
       (case claimRunStep sid fresh (nullableText span) now db of
          None \<Rightarrow> Inl (stepConflict sid StepStatusReady StepStatusRunning None db)
        | Some (step, db1) \<Rightarrow>
            andThen (createStepAttempt sid (s_attempt_count step) fresh now (s_feedback step)
                       (nullableText worker) db1) (\<lambda>(_, db2).
            andThen (appendEvent (EvStepClaimed sid fresh (s_attempt_count step) worker) db2) (\<lambda>db3.
            Inr ((step, origin), db3))))))"

definition ClaimStep :: "step_id \<Rightarrow> string \<Rightarrow> string \<Rightarrow> time \<Rightarrow> uuid \<Rightarrow> rundb \<Rightarrow> (step_row \<times> rundb) result" where
  "ClaimStep sid worker span now fresh db =
     andThen (ClaimStepWithOrigin sid worker span now fresh db) (\<lambda>((step, _), db1). Inr (step, db1))"

definition TakeoverStep :: "step_id \<Rightarrow> uuid \<Rightarrow> time \<Rightarrow> rundb \<Rightarrow> (step_row \<times> rundb) result" where
  "TakeoverStep sid c now db =
     andThen (transitionQueries now) (\<lambda>_.
     andThen (lockRun db) (\<lambda>_.
     case takeoverRunStep sid c now db of
       None \<Rightarrow> Inl (stepConflict sid StepStatusRunning StepStatusReady (Some c) db)
     | Some (step, db1) \<Rightarrow>
         andThen (finishAttempt step AttemptOutcomeLost None None None None now db1) (\<lambda>db2.
         andThen (appendEvent (EvStepReclaimed sid c (s_attempt_count step)) db2) (\<lambda>db3.
         Inr (step, db3)))))"

section \<open>Completing an attempt\<close>

definition SucceedStep :: "step_id \<Rightarrow> uuid \<Rightarrow> raw \<Rightarrow> raw \<Rightarrow> raw \<Rightarrow> raw \<Rightarrow> time \<Rightarrow> rundb
    \<Rightarrow> (step_row \<times> rundb) result" where
  "SucceedStep sid c out usage verdict repair now db =
     andThen (transitionQueries now) (\<lambda>_.
     andThen (lockRun db) (\<lambda>_.
     case succeedRunStep sid c out now db of
       None \<Rightarrow> Inl (stepConflict sid StepStatusRunning StepStatusSucceeded (Some c) db)
     | Some (step, db1) \<Rightarrow>
         andThen (finishAttempt step AttemptOutcomeSucceeded None usage verdict repair now db1) (\<lambda>db2.
         andThen (bumpCounters (no_delta\<lparr>d_succeeded := 1\<rparr>) db2) (\<lambda>db3.
         andThen (appendEvent (EvStepSucceeded sid (s_attempt_count step)) db3) (\<lambda>db4.
         Inr (step, db4))))))"

definition DeadLetterStep :: "step_id \<Rightarrow> uuid \<Rightarrow> dead_letter_source \<Rightarrow> attempt_outcome option \<Rightarrow> raw
    \<Rightarrow> raw \<Rightarrow> raw \<Rightarrow> raw \<Rightarrow> time \<Rightarrow> rundb \<Rightarrow> (step_row \<times> rundb) result" where
  "DeadLetterStep sid c src outcome err usage verdict repair now db =
     andThen (transitionQueries now) (\<lambda>_.
     case outcome of None \<Rightarrow> Inl (ErrBadArgument ''Outcome'') | Some class \<Rightarrow>
     if src \<noteq> DeadLetterSourceRetriesExhausted \<and> src \<noteq> DeadLetterSourcePermanent
     then Inl (ErrBadArgument ''Source'') else
     andThen (lockRun db) (\<lambda>_.
     case deadLetterRunStep sid c err now db of
       None \<Rightarrow> Inl (stepConflict sid StepStatusRunning StepStatusDeadLettered (Some c) db)
     | Some (step, db1) \<Rightarrow>
         andThen (finishAttempt step class err usage verdict repair now db1) (\<lambda>db2.
         andThen (bumpCounters (no_delta\<lparr>d_failed := 1\<rparr>) db2) (\<lambda>db3.
         andThen (createDeadLetter sid src (Some class) err None (s_attempt_count step) now db3) (\<lambda>(dl, db4).
         andThen (appendEvent (EvStepDeadLettered sid src (Some class) (s_attempt_count step) (dl_seq dl)) db4) (\<lambda>db5.
         Inr (step, db5)))))))"

definition CollectFailStep :: "step_id \<Rightarrow> uuid \<Rightarrow> attempt_outcome option \<Rightarrow> raw \<Rightarrow> raw \<Rightarrow> raw \<Rightarrow> time
    \<Rightarrow> rundb \<Rightarrow> (step_row \<times> rundb) result" where
  "CollectFailStep sid c outcome out err usage now db =
     andThen (transitionQueries now) (\<lambda>_.
     case outcome of None \<Rightarrow> Inl (ErrBadArgument ''Outcome'') | Some class \<Rightarrow>
     andThen (lockRun db) (\<lambda>_.
     case collectFailRunStep sid c out err now db of
       None \<Rightarrow> Inl (stepConflict sid StepStatusRunning StepStatusCollected (Some c) db)
     | Some (step, db1) \<Rightarrow>
         andThen (finishAttempt step class err usage None None now db1) (\<lambda>db2.
         andThen (bumpCounters (no_delta\<lparr>d_collected := 1\<rparr>) db2) (\<lambda>db3.
         andThen (appendEvent (EvStepCollected sid class (s_attempt_count step)) db3) (\<lambda>db4.
         Inr (step, db4))))))"

definition PoisonDeadLetterStep :: "step_id \<Rightarrow> raw \<Rightarrow> raw \<Rightarrow> time \<Rightarrow> rundb \<Rightarrow> (step_row \<times> rundb) result" where
  "PoisonDeadLetterStep sid err payload now db =
     andThen (transitionQueries now) (\<lambda>_.
     andThen (lockRun db) (\<lambda>_.
     case getRunStep sid db of None \<Rightarrow> Inl (ErrNotFound ''step'') | Some prior \<Rightarrow>
     let wasRunning = s_status prior = StepStatusRunning in
     (case poisonDeadLetterRunStep sid err now db of
        None \<Rightarrow> Inl (transitionError (Some sid) (StepSt (s_status prior)) (StepSt StepStatusDeadLettered)
                       ConflictWrongStatus None (s_claim_id prior))
      | Some (step, db1) \<Rightarrow>
          andThen (if wasRunning then finishAttempt step AttemptOutcomeLost err None None None now db1
                   else Inr db1) (\<lambda>db2.
          andThen (bumpCounters (no_delta\<lparr>d_failed := 1\<rparr>) db2) (\<lambda>db3.
          andThen (createDeadLetter sid DeadLetterSourcePoison None err payload (s_attempt_count step) now db3)
            (\<lambda>(dl, db4).
          andThen (appendEvent (EvStepDeadLettered sid DeadLetterSourcePoison None
                     (s_attempt_count step) (dl_seq dl)) db4) (\<lambda>db5.
          Inr (step, db5))))))))"

section \<open>Cancelling, requeueing and reviving\<close>

definition CancelStep :: "step_id \<Rightarrow> cancel_reason option \<Rightarrow> time \<Rightarrow> rundb \<Rightarrow> (step_row \<times> rundb) result" where
  "CancelStep sid reason now db =
     andThen (transitionQueries now) (\<lambda>_.
     case reason of None \<Rightarrow> Inl (ErrBadArgument ''Reason'') | Some why \<Rightarrow>
     andThen (lockRun db) (\<lambda>_.
     case cancelRunStep sid now db of
       None \<Rightarrow>
         (case getRunStep sid db of
            None \<Rightarrow> Inl (ErrNotFound ''step'')
          | Some row \<Rightarrow> Inl (transitionError (Some sid) (StepSt (s_status row)) (StepSt StepStatusCancelled)
                               ConflictWrongStatus None (s_claim_id row)))
     | Some (step, db1) \<Rightarrow>
         andThen (bumpCounters (no_delta\<lparr>d_cancelled := 1\<rparr>) db1) (\<lambda>db2.
         andThen (appendEvent (EvStepCancelled sid why) db2) (\<lambda>db3.
         Inr (step, db3)))))"

definition CancelRunningStep :: "step_id \<Rightarrow> uuid \<Rightarrow> cancel_reason option \<Rightarrow> raw \<Rightarrow> time \<Rightarrow> rundb
    \<Rightarrow> (step_row \<times> rundb) result" where
  "CancelRunningStep sid c reason err now db =
     andThen (transitionQueries now) (\<lambda>_.
     case reason of None \<Rightarrow> Inl (ErrBadArgument ''Reason'') | Some why \<Rightarrow>
     andThen (lockRun db) (\<lambda>_.
     case cancelRunningRunStep sid c err now db of
       None \<Rightarrow> Inl (stepConflict sid StepStatusRunning StepStatusCancelled (Some c) db)
     | Some (step, db1) \<Rightarrow>
         andThen (finishAttempt step AttemptOutcomeCancelled err None None None now db1) (\<lambda>db2.
         andThen (bumpCounters (no_delta\<lparr>d_cancelled := 1\<rparr>) db2) (\<lambda>db3.
         andThen (appendEvent (EvStepCancelled sid why) db3) (\<lambda>db4.
         Inr (step, db4))))))"

definition RequeueStep :: "step_id \<Rightarrow> time \<Rightarrow> rundb \<Rightarrow> (step_row \<times> rundb) result" where
  "RequeueStep sid now db =
     andThen (transitionQueries now) (\<lambda>_.
     andThen (lockRun db) (\<lambda>_.
     case requeueRunStep sid now db of
       None \<Rightarrow> Inl (stepConflict sid StepStatusDeadLettered StepStatusReady None db)
     | Some (step, db1) \<Rightarrow>
         andThen (bumpCounters (no_delta\<lparr>d_failed := - 1\<rparr>) db1) (\<lambda>db2.
         andThen (appendEvent (EvStepRequeued sid) db2) (\<lambda>db3.
         Inr (step, db3)))))"

definition ReviveStep :: "step_id \<Rightarrow> outbox_reason option \<Rightarrow> time \<Rightarrow> rundb \<Rightarrow> (step_row \<times> rundb) result" where
  "ReviveStep sid reason now db =
     andThen (transitionQueries now) (\<lambda>_.
     case reason of None \<Rightarrow> Inl (ErrBadArgument ''Reason'') | Some why \<Rightarrow>
     andThen (lockRun db) (\<lambda>_.
     case reviveRunStep sid now db of
       None \<Rightarrow> Inl (stepConflict sid StepStatusCancelled StepStatusPending None db)
     | Some (step, db1) \<Rightarrow>
         andThen (bumpCounters (no_delta\<lparr>d_cancelled := - 1\<rparr>) db1) (\<lambda>db2.
         andThen (appendEvent (EvStepRevived sid why) db2) (\<lambda>db3.
         Inr (step, db3)))))"

section \<open>Scheduling another attempt\<close>

definition RetryStep :: "step_id \<Rightarrow> uuid \<Rightarrow> attempt_outcome option \<Rightarrow> raw \<Rightarrow> raw \<Rightarrow> time \<Rightarrow> time \<Rightarrow> rundb
    \<Rightarrow> (step_row \<times> rundb) result" where
  "RetryStep sid c outcome err usage next now db =
     andThen (transitionQueries now) (\<lambda>_.
     case outcome of None \<Rightarrow> Inl (ErrBadArgument ''Outcome'') | Some class \<Rightarrow>
     if class \<noteq> AttemptOutcomeTransient \<and> class \<noteq> AttemptOutcomeTimeout
     then Inl (ErrBadArgument ''Outcome'') else
     if next = 0 then Inl ErrZeroNextAttemptAt else
     andThen (lockRun db) (\<lambda>_.
     case retryRunStep sid c err next now db of
       None \<Rightarrow> Inl (stepConflict sid StepStatusRunning StepStatusRetrying (Some c) db)
     | Some (step, db1) \<Rightarrow>
         andThen (finishAttempt step class err usage None None now db1) (\<lambda>db2.
         andThen (appendEvent (EvStepRetryScheduled sid (s_attempt_count step) class next) db2) (\<lambda>db3.
         Inr (step, db3)))))"

definition ThrottleStep :: "step_id \<Rightarrow> uuid \<Rightarrow> string \<Rightarrow> string \<Rightarrow> string \<Rightarrow> time \<Rightarrow> time \<Rightarrow> rundb
    \<Rightarrow> (step_row \<times> rundb) result" where
  "ThrottleStep sid c resource bucket retryAfter next now db =
     andThen (transitionQueries now) (\<lambda>_.
     if next = 0 then Inl ErrZeroNextAttemptAt else
     andThen (lockRun db) (\<lambda>_.
     let errPayload = Some (JObj [(''bucket'', JStr bucket), (''outcome'', JStr ''throttled''),
                                  (''resource'', JStr resource)]) in
     (case retryRunStep sid c errPayload next now db of
        None \<Rightarrow> Inl (stepConflict sid StepStatusRunning StepStatusRetrying (Some c) db)
      | Some (step, db1) \<Rightarrow>
          andThen (finishAttempt step AttemptOutcomeThrottled errPayload None None None now db1) (\<lambda>db2.
          andThen (appendEvent (EvStepThrottled sid (s_attempt_count step) resource bucket retryAfter next) db2)
            (\<lambda>db3.
          Inr (step, db3))))))"

definition SemanticRetryStep :: "step_id \<Rightarrow> uuid \<Rightarrow> raw \<Rightarrow> raw \<Rightarrow> raw \<Rightarrow> raw \<Rightarrow> raw \<Rightarrow> int \<Rightarrow> int \<Rightarrow> int
    \<Rightarrow> time \<Rightarrow> time \<Rightarrow> rundb \<Rightarrow> (step_row \<times> rundb) result" where
  "SemanticRetryStep sid c err usage verdict repair feedback semAttempt maxAttempts issues next now db =
     andThen (transitionQueries now) (\<lambda>_.
     if next = 0 then Inl ErrZeroNextAttemptAt else
     andThen (lockRun db) (\<lambda>_.
     case semanticRetryRunStep sid c err next feedback now db of
       None \<Rightarrow> Inl (stepConflict sid StepStatusRunning StepStatusRetrying (Some c) db)
     | Some (step, db1) \<Rightarrow>
         andThen (finishAttempt step AttemptOutcomeValidationFailed err usage verdict repair now db1) (\<lambda>db2.
         andThen (appendEvent (EvStepSemanticRetry sid (s_attempt_count step) semAttempt maxAttempts issues next) db2)
           (\<lambda>db3.
         Inr (step, db3)))))"

section \<open>Edges and dependants\<close>

record resolve_edge_result =
  re_resolved :: bool
  re_edge :: edge_row
  re_to_step :: "step_row option"

definition resolveEdgeNoop :: "int \<Rightarrow> edge_resolution \<Rightarrow> rundb \<Rightarrow> (resolve_edge_result \<times> rundb) result" where
  "resolveEdgeNoop ord resolution db =
     (case getRunEdge ord db of
        None \<Rightarrow> Inl (ErrNotFound ''edge'')
      | Some edge \<Rightarrow>
          if e_edge_type edge = EdgeTypeLoop then Inl (ErrLoopEdge ord)
          else if e_resolution edge = resolution
          then Inr (\<lparr>re_resolved = False, re_edge = edge, re_to_step = None\<rparr>, db)
          else Inl (ErrReResolved ord (e_resolution edge) resolution))"

definition ResolveEdge :: "int \<Rightarrow> bool \<Rightarrow> time \<Rightarrow> rundb \<Rightarrow> (resolve_edge_result \<times> rundb) result" where
  "ResolveEdge ord fired now db =
     andThen (transitionQueries now) (\<lambda>_.
     andThen (lockRun db) (\<lambda>_.
     let resolution = (if fired then EdgeResolutionFired else EdgeResolutionSkipped) in
     (case resolveRunEdge ord resolution db of
        None \<Rightarrow> resolveEdgeNoop ord resolution db
      | Some (edge, db1) \<Rightarrow>
          (case applyEdgeResolution (e_to_step edge) (if fired then 1 else 0) now db1 of
             None \<Rightarrow>
               (case getRunStep (e_to_step edge) db1 of
                  None \<Rightarrow> Inl (ErrNotFound ''step'')
                | Some _ \<Rightarrow> Inl (ErrDepsCorrupted (e_to_step edge) ord))
           | Some (toStep, db2) \<Rightarrow>
               Inr (\<lparr>re_resolved = True, re_edge = edge, re_to_step = Some toStep\<rparr>, db2)))))"

definition ReadyStep :: "step_id \<Rightarrow> bool \<Rightarrow> time \<Rightarrow> rundb \<Rightarrow> (step_row \<times> rundb) result" where
  "ReadyStep sid join_any now db =
     andThen (transitionQueries now) (\<lambda>_.
     andThen (lockRun db) (\<lambda>_.
     case readyRunStep sid join_any now db of
       None \<Rightarrow> Inl (stepConflict sid StepStatusPending StepStatusReady None db)
     | Some (step, db1) \<Rightarrow>
         andThen (appendEvent (EvStepReady sid) db1) (\<lambda>db2. Inr (step, db2))))"

definition SkipStep :: "step_id \<Rightarrow> time \<Rightarrow> rundb \<Rightarrow> (step_row \<times> rundb) result" where
  "SkipStep sid now db =
     andThen (transitionQueries now) (\<lambda>_.
     andThen (lockRun db) (\<lambda>_.
     case skipRunStep sid now db of
       None \<Rightarrow> Inl (stepConflict sid StepStatusPending StepStatusSkipped None db)
     | Some (step, db1) \<Rightarrow>
         andThen (bumpCounters (no_delta\<lparr>d_skipped := 1\<rparr>) db1) (\<lambda>db2.
         andThen (appendEvent (EvStepSkipped sid) db2) (\<lambda>db3. Inr (step, db3)))))"

section \<open>Run transitions\<close>

definition SucceedRun :: "time \<Rightarrow> rundb \<Rightarrow> (run_row \<times> rundb) result" where
  "SucceedRun now db =
     andThen (transitionQueries now) (\<lambda>_.
     andThen (lockRun db) (\<lambda>_.
     case succeedRun_q now db of
       None \<Rightarrow> Inl (runConflict RunStatusRunning RunStatusSucceeded db)
     | Some (rn, db1) \<Rightarrow> andThen (appendEvent EvRunSucceeded db1) (\<lambda>db2. Inr (rn, db2))))"

definition FailRun :: "time \<Rightarrow> rundb \<Rightarrow> (run_row \<times> rundb) result" where
  "FailRun now db =
     andThen (transitionQueries now) (\<lambda>_.
     andThen (lockRun db) (\<lambda>_.
     case failRun_q now db of
       None \<Rightarrow> Inl (runConflict RunStatusRunning RunStatusFailed db)
     | Some (rn, db1) \<Rightarrow> andThen (appendEvent EvRunFailed db1) (\<lambda>db2. Inr (rn, db2))))"

definition FailRunRollup :: "time \<Rightarrow> rundb \<Rightarrow> (run_row \<times> rundb) result" where
  "FailRunRollup now db =
     andThen (transitionQueries now) (\<lambda>_.
     andThen (lockRun db) (\<lambda>_.
     case failRunRollup_q now db of
       None \<Rightarrow> Inl (runConflict RunStatusRunning RunStatusFailed db)
     | Some (rn, db1) \<Rightarrow> andThen (appendEvent EvRunFailed db1) (\<lambda>db2. Inr (rn, db2))))"

definition ResumeRun :: "time \<Rightarrow> rundb \<Rightarrow> (run_row \<times> rundb) result" where
  "ResumeRun now db =
     andThen (transitionQueries now) (\<lambda>_.
     andThen (lockRun db) (\<lambda>_.
     case resumeRun_q db of
       None \<Rightarrow> Inl (runConflict RunStatusFailed RunStatusRunning db)
     | Some (rn, db1) \<Rightarrow> andThen (appendEvent EvRunResumed db1) (\<lambda>db2. Inr (rn, db2))))"

definition ParkRun :: "park_reason option \<Rightarrow> time \<Rightarrow> rundb \<Rightarrow> (run_row \<times> rundb) result" where
  "ParkRun reason now db =
     andThen (transitionQueries now) (\<lambda>_.
     case reason of None \<Rightarrow> Inl (ErrBadArgument ''Reason'') | Some why \<Rightarrow>
     andThen (lockRun db) (\<lambda>_.
     case parkRun_q why db of
       None \<Rightarrow> Inl (runConflict RunStatusRunning RunStatusParked db)
     | Some (rn, db1) \<Rightarrow> andThen (appendEvent (EvRunParked why) db1) (\<lambda>db2. Inr (rn, db2))))"

definition UnparkRun :: "time \<Rightarrow> rundb \<Rightarrow> (run_row \<times> rundb) result" where
  "UnparkRun now db =
     andThen (transitionQueries now) (\<lambda>_.
     andThen (lockRun db) (\<lambda>_.
     case unparkRun_q db of
       None \<Rightarrow> Inl (runConflict RunStatusParked RunStatusRunning db)
     | Some (rn, db1) \<Rightarrow> andThen (appendEvent EvRunUnparked db1) (\<lambda>db2. Inr (rn, db2))))"

definition CancelRun :: "run_cancel_reason option \<Rightarrow> time \<Rightarrow> rundb \<Rightarrow> (run_row \<times> rundb) result" where
  "CancelRun reason now db =
     andThen (transitionQueries now) (\<lambda>_.
     case reason of None \<Rightarrow> Inl (ErrBadArgument ''Reason'') | Some why \<Rightarrow>
     andThen (lockRun db) (\<lambda>_.
     case cancelRun_q why db of
       None \<Rightarrow> Inl (runConflict RunStatusRunning RunStatusCancelling db)
     | Some (rn, db1) \<Rightarrow> andThen (appendEvent (EvRunCancelling why) db1) (\<lambda>db2. Inr (rn, db2))))"

definition CancelRunRollup :: "time \<Rightarrow> rundb \<Rightarrow> (run_row \<times> rundb) result" where
  "CancelRunRollup now db =
     andThen (transitionQueries now) (\<lambda>_.
     andThen (lockRun db) (\<lambda>_.
     case cancelRunRollup_q now db of
       None \<Rightarrow> Inl (runConflict RunStatusCancelling RunStatusCancelled db)
     | Some (rn, db1) \<Rightarrow> andThen (appendEvent EvRunCancelled db1) (\<lambda>db2. Inr (rn, db2))))"

definition LockRunStatus :: "time \<Rightarrow> rundb \<Rightarrow> run_status result" where
  "LockRunStatus now db =
     andThen (transitionQueries now) (\<lambda>_. andThen (lockRun db) (\<lambda>rn. Inr (r_status rn)))"

section \<open>Transactions\<close>

text \<open>
  \<open>withTx fn db\<close> is the tables after \<^verbatim>\<open>WithTx\<close>, what \<open>fn\<close> returned, and the envelopes
  handed to the event sink after the commit: none when the transaction rolled back.  A
  failing commit is a failing \<open>fn\<close>.
\<close>

definition withTx :: "(rundb \<Rightarrow> ('a \<times> rundb) result) \<Rightarrow> rundb \<Rightarrow> rundb \<times> 'a result \<times> event_row list" where
  "withTx fn db =
     (case fn (db\<lparr>txbuf := []\<rparr>) of
        Inl e \<Rightarrow> (db, Inl e, [])
      | Inr (a, db') \<Rightarrow> (db'\<lparr>txbuf := []\<rparr>, Inr a, txbuf db'))"

end
