(* ===== verification/Store_Approvals.thy ===== *)
theory Store_Approvals
  imports Store_Transitions
begin

text \<open>
  The transitions of \<^verbatim>\<open>internal/store/approval.go\<close>, \<^verbatim>\<open>budget.go\<close> and \<^verbatim>\<open>loop.go\<close>: parking a
  step for a human and settling it, the approval decision compare-and-set, the park
  timeout policy, the budget park of a claimed step, the run budget update and the
  event-only records of the loop guards.
\<close>

section \<open>Human approval\<close>

record approval_request =
  aq_id :: uuid
  aq_title :: string
  aq_description :: string
  aq_payload :: raw
  aq_allowed_decisions :: "approval_decision list"
  aq_allow_edit :: bool
  aq_edit_schema :: raw
  aq_timeout_at :: "time option"

definition pending_approval :: "step_id \<Rightarrow> int \<Rightarrow> approval_request \<Rightarrow> time \<Rightarrow> approval_row" where
  "pending_approval sid no q now =
     \<lparr>ap_id = aq_id q, ap_step_id = sid, ap_attempt = no, ap_status = ApprovalStatusPending,
      ap_title = aq_title q, ap_description = aq_description q, ap_payload = aq_payload q,
      ap_allowed_decisions = aq_allowed_decisions q, ap_allow_edit = aq_allow_edit q,
      ap_edit_schema = aq_edit_schema q, ap_timeout_at = aq_timeout_at q, ap_decision = None,
      ap_edited_payload = None, ap_comment = None, ap_decided_by = None, ap_decided_at = None,
      ap_decision_source = None, ap_updated_at = now, ap_expired_at = None\<rparr>"

definition AwaitHumanStep :: "step_id \<Rightarrow> uuid \<Rightarrow> approval_request \<Rightarrow> time \<Rightarrow> rundb
    \<Rightarrow> (step_row \<times> rundb) result" where
  "AwaitHumanStep sid c q now db =
     andThen (transitionQueries now) (\<lambda>_.
     andThen (lockRun db) (\<lambda>_.
     case awaitHumanRunStep sid c now db of
       None \<Rightarrow> Inl (stepConflict sid StepStatusRunning StepStatusAwaitingHuman (Some c) db)
     | Some (step, db1) \<Rightarrow>
         andThen (insertApproval (pending_approval sid (s_attempt_count step) q now) db1) (\<lambda>(_, db2).
         andThen (appendEvent (EvApprovalRequested (aq_id q) sid (s_attempt_count step) (aq_title q)
                    (aq_allowed_decisions q) (aq_allow_edit q) (aq_timeout_at q)) db2) (\<lambda>db3.
         Inr (step, db3)))))"

definition CancelAwaitingHumanStep :: "step_id \<Rightarrow> cancel_reason option \<Rightarrow> time \<Rightarrow> rundb
    \<Rightarrow> (step_row \<times> rundb) result" where
  "CancelAwaitingHumanStep sid reason now db =
     andThen (transitionQueries now) (\<lambda>_.
     case reason of None \<Rightarrow> Inl (ErrBadArgument ''Reason'') | Some why \<Rightarrow>
     andThen (lockRun db) (\<lambda>_.
     case cancelAwaitingHumanRunStep sid now db of
       None \<Rightarrow> Inl (stepConflict sid StepStatusAwaitingHuman StepStatusCancelled None db)
     | Some (step, db1) \<Rightarrow>
         andThen (finishAttempt step AttemptOutcomeCancelled None None None None now db1) (\<lambda>db2.
         andThen (bumpCounters (no_delta\<lparr>d_cancelled := 1\<rparr>) db2) (\<lambda>db3.
         andThen (appendEvent (EvStepCancelled sid why) db3) (\<lambda>db4.
         case cancelPendingApprovalByStep sid now db4 of
           None \<Rightarrow> Inr (step, db4)
         | Some (ap, db5) \<Rightarrow>
             andThen (appendEvent (EvApprovalCancelled (ap_id ap) sid why) db5) (\<lambda>db6.
             Inr (step, db6)))))))"

definition DecideApproval :: "uuid \<Rightarrow> step_id \<Rightarrow> int \<Rightarrow> approval_status \<Rightarrow> approval_decision
    \<Rightarrow> time option \<Rightarrow> time option \<Rightarrow> raw \<Rightarrow> string \<Rightarrow> string \<Rightarrow> approval_source \<Rightarrow> time \<Rightarrow> rundb
    \<Rightarrow> (approval_row \<times> rundb) result" where
  "DecideApproval i sid attemptNo st dec expiredAt timeoutAt edited comment by src now db =
     andThen (transitionQueries now) (\<lambda>_.
     if st \<noteq> ApprovalStatusApproved \<and> st \<noteq> ApprovalStatusRejected \<and> st \<noteq> ApprovalStatusExpired
     then Inl (ErrBadArgument ''Status'') else
     andThen (lockRun db) (\<lambda>_.
     case decideApproval_q i st dec edited (nullableText comment) by src expiredAt now db of
       None \<Rightarrow>
         (case getApproval i db of
            None \<Rightarrow> Inl (ErrNotFound ''approval'')
          | Some cur \<Rightarrow> Inl (ErrApprovalNotPending i (ap_status cur)))
     | Some (ap, db1) \<Rightarrow>
         if st = ApprovalStatusExpired
         then andThen (appendEvent (EvApprovalExpired i sid attemptNo (PolicyDecision dec) (Some dec)
                (if dec = ApprovalReject then ApprovalActionRejected else ApprovalActionApproved)
                timeoutAt) db1) (\<lambda>db2. Inr (ap, db2))
         else andThen (appendEvent (EvApprovalDecided i sid attemptNo dec (edited \<noteq> None) comment by src) db1)
                (\<lambda>db2. Inr (ap, db2))))"

record expire_park_result =
  xp_approval :: approval_row
  xp_run :: run_row
  xp_action :: approval_action

definition ExpireApprovalPark :: "uuid \<Rightarrow> step_id \<Rightarrow> int \<Rightarrow> time option \<Rightarrow> time \<Rightarrow> rundb
    \<Rightarrow> (expire_park_result \<times> rundb) result" where
  "ExpireApprovalPark i sid attemptNo timeoutAt now db =
     andThen (transitionQueries now) (\<lambda>_.
     andThen (lockRun db) (\<lambda>runRow.
     case markApprovalExpiredPending i now db of
       None \<Rightarrow>
         (case getApproval i db of
            None \<Rightarrow> Inl (ErrNotFound ''approval'')
          | Some cur \<Rightarrow>
              if ap_status cur \<noteq> ApprovalStatusPending then Inl (ErrApprovalNotPending i (ap_status cur))
              else Inl (ErrApprovalAlreadyExpired i))
     | Some (ap, db1) \<Rightarrow>
         andThen (if r_status runRow = RunStatusParked
                  then (case getRun db1 of
                          None \<Rightarrow> Inl (ErrNotFound ''run'')
                        | Some rn \<Rightarrow> Inr ((rn, ApprovalActionRunAlreadyParked), db1))
                  else andThen (ParkRun (Some ParkReasonAwaitingHuman) now db1) (\<lambda>(rn, db2).
                       Inr ((rn, ApprovalActionRunParked), db2)))
           (\<lambda>((rn, act), db3).
         andThen (appendEvent (EvApprovalExpired i sid attemptNo ApprovalTimeoutPark None act timeoutAt) db3) (\<lambda>db4.
         Inr (\<lparr>xp_approval = ap, xp_run = rn, xp_action = act\<rparr>, db4)))))"

definition SucceedAwaitingHumanStep :: "step_id \<Rightarrow> raw \<Rightarrow> time \<Rightarrow> rundb \<Rightarrow> (step_row \<times> rundb) result" where
  "SucceedAwaitingHumanStep sid out now db =
     andThen (transitionQueries now) (\<lambda>_.
     andThen (lockRun db) (\<lambda>_.
     case succeedAwaitingHumanRunStep sid out now db of
       None \<Rightarrow> Inl (stepConflict sid StepStatusAwaitingHuman StepStatusSucceeded None db)
     | Some (step, db1) \<Rightarrow>
         andThen (finishAttempt step AttemptOutcomeSucceeded None None None None now db1) (\<lambda>db2.
         andThen (bumpCounters (no_delta\<lparr>d_succeeded := 1\<rparr>) db2) (\<lambda>db3.
         andThen (appendEvent (EvStepSucceeded sid (s_attempt_count step)) db3) (\<lambda>db4.
         Inr (step, db4))))))"

definition DeadLetterAwaitingHumanStep :: "step_id \<Rightarrow> raw \<Rightarrow> time \<Rightarrow> rundb \<Rightarrow> (step_row \<times> rundb) result" where
  "DeadLetterAwaitingHumanStep sid err now db =
     andThen (transitionQueries now) (\<lambda>_.
     andThen (lockRun db) (\<lambda>_.
     case deadLetterAwaitingHumanRunStep sid err now db of
       None \<Rightarrow> Inl (stepConflict sid StepStatusAwaitingHuman StepStatusDeadLettered None db)
     | Some (step, db1) \<Rightarrow>
         andThen (finishAttempt step AttemptOutcomePermanent err None None None now db1) (\<lambda>db2.
         andThen (bumpCounters (no_delta\<lparr>d_failed := 1\<rparr>) db2) (\<lambda>db3.
         andThen (createDeadLetter sid DeadLetterSourcePermanent (Some AttemptOutcomePermanent) err None
                    (s_attempt_count step) now db3) (\<lambda>(dl, db4).
         andThen (appendEvent (EvStepDeadLettered sid DeadLetterSourcePermanent (Some AttemptOutcomePermanent)
                    (s_attempt_count step) (dl_seq dl)) db4) (\<lambda>db5.
         Inr (step, db5)))))))"

definition RecordApprovalNotification :: "string \<Rightarrow> time \<Rightarrow> rundb \<Rightarrow> (unit \<times> rundb) result" where
  "RecordApprovalNotification payload now db =
     andThen (transitionQueries now) (\<lambda>_.
     andThen (lockRun db) (\<lambda>_.
     andThen (appendEvent (EvApprovalNotification payload) db) (\<lambda>db1. Inr ((), db1))))"

section \<open>Budgets\<close>

text \<open>\<^verbatim>\<open>json.Marshal\<close> of the budget event; a zero or empty \<^verbatim>\<open>omitempty\<close> field is left out.\<close>

definition omit_zero :: "string \<Rightarrow> int \<Rightarrow> (string \<times> json) list" where
  "omit_zero k n = (if n = 0 then [] else [(k, JNum n)])"

definition budget_event_json :: "budget_event \<Rightarrow> json" where
  "budget_event_json e = JObj
     ([(''step_id'', JStr (be_step_id e)), (''attempt'', JNum (be_attempt e))]
      @ (if be_resource e = [] then [] else [(''resource'', JStr (be_resource e))])
      @ [(''limit'', JStr (be_limit e)), (''action'', JStr (be_action e))]
      @ omit_zero ''spent_nano_usd'' (be_spent e) @ omit_zero ''estimate_nano_usd'' (be_estimate e)
      @ omit_zero ''projected_nano_usd'' (be_projected e) @ omit_zero ''budget_nano_usd'' (be_budget e)
      @ omit_zero ''projected_tokens'' (be_projected_tokens e) @ omit_zero ''max_tokens'' (be_max_tokens e))"

definition BudgetParkStep :: "step_id \<Rightarrow> uuid \<Rightarrow> budget_event \<Rightarrow> time \<Rightarrow> rundb \<Rightarrow> (step_row \<times> rundb) result" where
  "BudgetParkStep sid c ev now db =
     andThen (transitionQueries now) (\<lambda>_.
     andThen (lockRun db) (\<lambda>rn.
     case budgetParkRunStep sid c now db of
       None \<Rightarrow> Inl (stepConflict sid StepStatusRunning StepStatusReady (Some c) db)
     | Some (step, db1) \<Rightarrow>
         let ev' = ev\<lparr>be_step_id := sid, be_attempt := s_attempt_count step, be_action := ''park''\<rparr> in
         andThen (finishAttempt step AttemptOutcomeBudgetExceeded (Some (budget_event_json ev')) None None None now db1)
           (\<lambda>db2.
         andThen (appendEvent (EvBudgetExceeded ev') db2) (\<lambda>db3.
         if r_status rn = RunStatusRunning
         then (case parkRun_q ParkReasonBudgetExceeded db3 of
                 None \<Rightarrow> Inl (ErrNotFound ''run'')
               | Some (_, db4) \<Rightarrow>
                   andThen (appendEvent (EvRunParked ParkReasonBudgetExceeded) db4) (\<lambda>db5. Inr (step, db5)))
         else Inr (step, db3)))))"

definition SetRunBudget :: "int \<Rightarrow> time \<Rightarrow> rundb \<Rightarrow> (run_row \<times> rundb) result" where
  "SetRunBudget budget now db =
     andThen (transitionQueries now) (\<lambda>_.
     andThen (lockRun db) (\<lambda>locked.
     let previous = (case r_budget_nano_usd locked of None \<Rightarrow> 0 | Some b \<Rightarrow> b) in
     (case setRunBudget_q budget db of
        None \<Rightarrow> Inl (transitionError None (RunSt (r_status locked)) (RunSt (r_status locked))
                       ConflictWrongStatus None None)
      | Some (rn, db1) \<Rightarrow>
          andThen (appendEvent (EvRunBudgetUpdated previous budget) db1) (\<lambda>db2. Inr (rn, db2)))))"

definition RecordModelDowngrade :: "step_id \<Rightarrow> uuid \<Rightarrow> downgrade_event \<Rightarrow> time \<Rightarrow> rundb
    \<Rightarrow> (unit \<times> rundb) result" where
  "RecordModelDowngrade sid c ev now db =
     andThen (transitionQueries now) (\<lambda>_.
     andThen (lockRun db) (\<lambda>_.
     case getRunStep sid db of
       None \<Rightarrow> Inl (ErrNotFound ''step'')
     | Some step \<Rightarrow>
         if s_status step \<noteq> StepStatusRunning \<or> s_claim_id step \<noteq> Some c
         then Inl (stepConflict sid StepStatusRunning StepStatusRunning (Some c) db)
         else andThen (appendEvent (EvModelDowngraded
                (ev\<lparr>md_step_id := sid, md_attempt := s_attempt_count step\<rparr>)) db) (\<lambda>db1. Inr ((), db1))))"

section \<open>Event-only records\<close>

definition RecordLoopExhausted :: "string \<Rightarrow> time \<Rightarrow> rundb \<Rightarrow> (unit \<times> rundb) result" where
  "RecordLoopExhausted ev now db =
     andThen (transitionQueries now) (\<lambda>_.
     andThen (appendEvent (EvLoopExhausted ev) db) (\<lambda>db1. Inr ((), db1)))"

definition RecordLoopNoProgress :: "string \<Rightarrow> time \<Rightarrow> rundb \<Rightarrow> (unit \<times> rundb) result" where
  "RecordLoopNoProgress ev now db =
     andThen (transitionQueries now) (\<lambda>_.
     andThen (appendEvent (EvLoopNoProgress ev) db) (\<lambda>db1. Inr ((), db1)))"

definition RecordGuardTripped :: "string \<Rightarrow> time \<Rightarrow> rundb \<Rightarrow> (unit \<times> rundb) result" where
  "RecordGuardTripped ev now db =
     andThen (transitionQueries now) (\<lambda>_.
     andThen (appendEvent (EvGuardTripped ev) db) (\<lambda>db1. Inr ((), db1)))"

end
