(* ===== verification/Store_Moves.thy ===== *)
theory Store_Moves
  imports Store_Approvals
begin

text \<open>
  The abstract specification of the transition layer: the state machine of a step, the
  state machine of a run, and for each table what a transition may do to it.  A
  transition of \<^verbatim>\<open>transitions.go\<close>, \<^verbatim>\<open>approval.go\<close>, \<^verbatim>\<open>budget.go\<close> or \<^verbatim>\<open>loop.go\<close> that returns
  without error performs a sequence of such moves; this theory states the moves, the
  next one shows that every transition refines them.
\<close>

interpretation step_rows: keyed_rows s_step_id .

interpretation edge_rows: keyed_rows e_ordinal .

interpretation approval_rows: keyed_rows ap_id .

section \<open>State machines\<close>

text \<open>The transition matrix of a step, after \<^verbatim>\<open>docs/adr/ADR-004\<close> and its later rows.\<close>

definition step_edge :: "step_status \<Rightarrow> step_status \<Rightarrow> bool" where
  "step_edge a b \<longleftrightarrow> (case a of
     StepStatusPending \<Rightarrow> b \<in> {StepStatusReady, StepStatusSkipped, StepStatusCancelled, StepStatusDeadLettered}
   | StepStatusReady \<Rightarrow> b \<in> {StepStatusRunning, StepStatusCancelled, StepStatusDeadLettered}
   | StepStatusRetrying \<Rightarrow> b \<in> {StepStatusRunning, StepStatusCancelled, StepStatusDeadLettered}
   | StepStatusRunning \<Rightarrow> b \<in> {StepStatusSucceeded, StepStatusDeadLettered, StepStatusCollected,
       StepStatusCancelled, StepStatusRetrying, StepStatusReady, StepStatusAwaitingHuman}
   | StepStatusAwaitingHuman \<Rightarrow> b \<in> {StepStatusSucceeded, StepStatusDeadLettered, StepStatusCancelled}
   | StepStatusDeadLettered \<Rightarrow> b = StepStatusReady
   | StepStatusCancelled \<Rightarrow> b = StepStatusPending
   | _ \<Rightarrow> False)"

definition run_edge :: "run_status \<Rightarrow> run_status \<Rightarrow> bool" where
  "run_edge a b \<longleftrightarrow> (case a of
     RunStatusRunning \<Rightarrow> b \<in> {RunStatusSucceeded, RunStatusFailed, RunStatusParked, RunStatusCancelling}
   | RunStatusParked \<Rightarrow> b \<in> {RunStatusSucceeded, RunStatusFailed, RunStatusRunning, RunStatusCancelling}
   | RunStatusCancelling \<Rightarrow> b = RunStatusCancelled
   | RunStatusFailed \<Rightarrow> b = RunStatusRunning
   | _ \<Rightarrow> False)"

text \<open>An attempt row is open while its step is running or parked for a human.\<close>

definition attempt_open :: "step_status \<Rightarrow> bool" where
  "attempt_open s \<longleftrightarrow> s = StepStatusRunning \<or> s = StepStatusAwaitingHuman"

text \<open>The counter a step of a given status contributes to.\<close>

definition status_class :: "step_status \<Rightarrow> counter_delta" where
  "status_class s = (case s of
     StepStatusSucceeded \<Rightarrow> no_delta\<lparr>d_succeeded := 1\<rparr>
   | StepStatusDeadLettered \<Rightarrow> no_delta\<lparr>d_failed := 1\<rparr>
   | StepStatusSkipped \<Rightarrow> no_delta\<lparr>d_skipped := 1\<rparr>
   | StepStatusCancelled \<Rightarrow> no_delta\<lparr>d_cancelled := 1\<rparr>
   | StepStatusCollected \<Rightarrow> no_delta\<lparr>d_collected := 1\<rparr>
   | _ \<Rightarrow> no_delta)"

definition class_delta :: "step_status \<Rightarrow> step_status \<Rightarrow> counter_delta" where
  "class_delta a b =
     (let x = status_class a; y = status_class b
      in \<lparr>d_succeeded = d_succeeded y - d_succeeded x, d_failed = d_failed y - d_failed x,
          d_skipped = d_skipped y - d_skipped x, d_cancelled = d_cancelled y - d_cancelled x,
          d_collected = d_collected y - d_collected x\<rparr>)"

section \<open>Moves\<close>

text \<open>Events numbered from the run's counter.\<close>

fun numbered :: "int \<Rightarrow> event_payload list \<Rightarrow> event_row list" where
  "numbered n [] = []"
| "numbered n (p # ps) = \<lparr>ev_seq = n + 1, ev_payload = p\<rparr> # numbered (n + 1) ps"

definition log_event :: "event_payload \<Rightarrow> rundb \<Rightarrow> rundb" where
  "log_event p db =
     (case run db of
        None \<Rightarrow> db
      | Some r \<Rightarrow>
          let e = \<lparr>ev_seq = r_next_seq r + 1, ev_payload = p\<rparr>
          in db\<lparr>run := Some (r\<lparr>r_next_seq := r_next_seq r + 1\<rparr>),
                events := events db @ [e], txbuf := txbuf db @ [e]\<rparr>)"

text \<open>
  What every transition keeps of a run's row apart from the counters, the event number
  and the fields of the run's own state machine.
\<close>

definition same_run_identity :: "run_row \<Rightarrow> run_row \<Rightarrow> bool" where
  "same_run_identity r r' \<longleftrightarrow>
     r_params r' = r_params r \<and> r_graph_version r' = r_graph_version r
   \<and> r_steps_total r' = r_steps_total r \<and> r_started_at r' = r_started_at r
   \<and> r_on_failure r' = r_on_failure r \<and> r_deadline_at r' = r_deadline_at r \<and> r_trace r' = r_trace r
   \<and> r_spent_nano_usd r' = r_spent_nano_usd r \<and> r_saved_nano_usd r' = r_saved_nano_usd r
   \<and> r_on_budget_exceeded r' = r_on_budget_exceeded r"

definition same_run_state :: "run_row \<Rightarrow> run_row \<Rightarrow> bool" where
  "same_run_state r r' \<longleftrightarrow>
     r_status r' = r_status r \<and> r_park_reason r' = r_park_reason r
   \<and> r_cancel_reason r' = r_cancel_reason r \<and> r_finished_at r' = r_finished_at r
   \<and> r_budget_nano_usd r' = r_budget_nano_usd r"

definition same_step_identity :: "step_row \<Rightarrow> step_row \<Rightarrow> bool" where
  "same_step_identity s s' \<longleftrightarrow>
     s_step_id s' = s_step_id s \<and> s_step_type s' = s_step_type s \<and> s_config s' = s_config s
   \<and> s_graph_version s' = s_graph_version s \<and> s_retry_policy s' = s_retry_policy s
   \<and> s_timeout s' = s_timeout s \<and> s_depth s' = s_depth s
   \<and> s_origin_step s' = s_origin_step s \<and> s_origin_kind s' = s_origin_kind s"

definition counters_shift :: "counter_delta \<Rightarrow> run_row \<Rightarrow> run_row \<Rightarrow> bool" where
  "counters_shift d r r' \<longleftrightarrow>
     r_steps_succeeded r' = r_steps_succeeded r + d_succeeded d
   \<and> r_steps_failed r' = r_steps_failed r + d_failed d
   \<and> r_steps_skipped r' = r_steps_skipped r + d_skipped d
   \<and> r_steps_cancelled r' = r_steps_cancelled r + d_cancelled d
   \<and> r_steps_collected r' = r_steps_collected r + d_collected d"

text \<open>The event log grows by events numbered from the run's counter.\<close>

definition log_move :: "rundb \<Rightarrow> rundb \<Rightarrow> bool" where
  "log_move db db' \<longleftrightarrow> (\<exists>r r' ps. run db = Some r \<and> run db' = Some r'
     \<and> r_next_seq r' = r_next_seq r + int (length ps)
     \<and> events db' = events db @ numbered (r_next_seq r) ps
     \<and> txbuf db' = txbuf db @ numbered (r_next_seq r) ps)"

definition row_move :: "step_row \<Rightarrow> step_row \<Rightarrow> bool" where
  "row_move old new \<longleftrightarrow>
     same_step_identity old new
   \<and> s_remaining_deps new = s_remaining_deps old \<and> s_fired_deps new = s_fired_deps old
   \<and> step_edge (s_status old) (s_status new)
   \<and> s_attempt_count new = s_attempt_count old + (if s_status new = StepStatusRunning then 1 else 0)
   \<and> (s_status new = StepStatusRunning \<longrightarrow> s_claim_id new \<noteq> None)
   \<and> (s_status new = StepStatusRetrying \<longrightarrow> s_next_attempt_at new \<noteq> None)"

text \<open>
  Entering \<^verbatim>\<open>running\<close> opens the next attempt under the new claim; leaving \<^verbatim>\<open>running\<close> or
  \<^verbatim>\<open>awaiting_human\<close> for another kind of status closes the current one; no other change
  touches the attempt rows.
\<close>

definition closes_attempt :: "step_row \<Rightarrow> attempt_row list \<Rightarrow> attempt_row list \<Rightarrow> bool" where
  "closes_attempt old ats ats' \<longleftrightarrow> (\<exists>out err usage verdict repair now.
     ats' = map (\<lambda>a. if at_step_id a = s_step_id old \<and> at_attempt_no a = s_attempt_count old
                     then close_attempt out err usage verdict repair now a else a) ats)"

definition opens_attempt :: "step_row \<Rightarrow> attempt_row list \<Rightarrow> attempt_row list \<Rightarrow> bool" where
  "opens_attempt new ats ats' \<longleftrightarrow> (\<exists>a. ats' = ats @ [a] \<and> at_step_id a = s_step_id new
     \<and> at_attempt_no a = s_attempt_count new \<and> Some (at_claim_id a) = s_claim_id new
     \<and> at_outcome a = None)"

definition attempts_move :: "step_row \<Rightarrow> step_row \<Rightarrow> attempt_row list \<Rightarrow> attempt_row list \<Rightarrow> bool" where
  "attempts_move old new ats ats' \<longleftrightarrow>
     (if s_status new = StepStatusRunning then opens_attempt new ats ats'
      else if attempt_open (s_status old) \<and> \<not> attempt_open (s_status new) then closes_attempt old ats ats'
      else ats' = ats)"

definition dead_letters_move :: "step_row \<Rightarrow> rundb \<Rightarrow> rundb \<Rightarrow> bool" where
  "dead_letters_move new db db' \<longleftrightarrow>
     (if s_status new = StepStatusDeadLettered
      then \<exists>d. dead_letters db' = dead_letters db @ [d] \<and> dl_step_id d = s_step_id new
            \<and> dl_seq d = next_dead_letter_seq (s_step_id new) db
            \<and> dl_attempts_at_death d = s_attempt_count new
      else dead_letters db' = dead_letters db)"

definition approvals_move :: "rundb \<Rightarrow> rundb \<Rightarrow> bool" where
  "approvals_move db db' \<longleftrightarrow>
     approvals db' = approvals db
   \<or> (\<exists>a. approvals db' = approvals db @ [a] \<and> ap_status a = ApprovalStatusPending
        \<and> ap_id a \<notin> ap_id ` set (approvals db)
        \<and> (\<forall>b \<in> set (approvals db). ap_step_id b = ap_step_id a \<longrightarrow> ap_status b \<noteq> ApprovalStatusPending))
   \<or> (\<exists>a a'. a \<in> set (approvals db) \<and> ap_status a = ApprovalStatusPending
        \<and> ap_id a' = ap_id a \<and> ap_step_id a' = ap_step_id a \<and> ap_attempt a' = ap_attempt a
        \<and> approvals db' = replace_row ap_id (ap_id a) a' (approvals db))"

text \<open>One step changes status; the run's counters follow.\<close>

definition step_move :: "step_row \<Rightarrow> step_row \<Rightarrow> rundb \<Rightarrow> rundb \<Rightarrow> bool" where
  "step_move old new db db' \<longleftrightarrow>
     getRunStep (s_step_id old) db = Some old \<and> row_move old new
   \<and> steps db' = replace_row s_step_id (s_step_id old) new (steps db)
   \<and> attempts_move old new (attempts db) (attempts db')
   \<and> dead_letters_move new db db' \<and> approvals_move db db'
   \<and> edges db' = edges db \<and> outbox db' = outbox db
   \<and> log_move db db'
   \<and> (\<exists>r r'. run db = Some r \<and> run db' = Some r'
        \<and> counters_shift (class_delta (s_status old) (s_status new)) r r'
        \<and> same_run_identity r r' \<and> same_run_state r r')"

text \<open>One normal edge resolves and its target's dependency counters follow.\<close>

definition edge_move :: "edge_row \<Rightarrow> edge_resolution \<Rightarrow> rundb \<Rightarrow> rundb \<Rightarrow> bool" where
  "edge_move e res db db' \<longleftrightarrow>
     getRunEdge (e_ordinal e) db = Some e
   \<and> e_edge_type e = EdgeTypeNormal \<and> e_resolution e = EdgeResolutionUnresolved
   \<and> res \<noteq> EdgeResolutionUnresolved
   \<and> (\<exists>old now. getRunStep (e_to_step e) db = Some old \<and> s_remaining_deps old > 0
        \<and> db' = db\<lparr>edges := replace_row e_ordinal (e_ordinal e) (e\<lparr>e_resolution := res\<rparr>) (edges db),
                   steps := replace_row s_step_id (e_to_step e)
                     (old\<lparr>s_remaining_deps := s_remaining_deps old - 1,
                          s_fired_deps := s_fired_deps old + (if res = EdgeResolutionFired then 1 else 0),
                          s_updated_at := now\<rparr>) (steps db)\<rparr>)"

text \<open>
  The run changes status along \<open>run_edge\<close>, or keeps it and changes its budget.  The
  bookkeeping columns follow the status: \<^verbatim>\<open>park_reason\<close>, \<^verbatim>\<open>cancel_reason\<close> and
  \<^verbatim>\<open>finished_at\<close>.
\<close>

definition run_state_ok :: "run_row \<Rightarrow> bool" where
  "run_state_ok r \<longleftrightarrow>
     (r_park_reason r \<noteq> None \<longleftrightarrow> r_status r = RunStatusParked)
   \<and> (r_cancel_reason r \<noteq> None \<longleftrightarrow> r_status r = RunStatusCancelling \<or> r_status r = RunStatusCancelled)
   \<and> (r_finished_at r \<noteq> None \<longleftrightarrow> run_terminal (r_status r))"

definition run_settles :: "run_row \<Rightarrow> run_row \<Rightarrow> bool" where
  "run_settles r r' \<longleftrightarrow>
     (r_status r' = RunStatusSucceeded \<longrightarrow>
        r_steps_failed r = 0 \<and> r_steps_succeeded r + r_steps_skipped r + r_steps_collected r = r_steps_total r)
   \<and> (r_status r' = RunStatusFailed \<longrightarrow> r_steps_failed r \<ge> 1)
   \<and> (r_status r' = RunStatusCancelled \<longrightarrow> steps_settled r = r_steps_total r)"

definition run_move :: "rundb \<Rightarrow> rundb \<Rightarrow> bool" where
  "run_move db db' \<longleftrightarrow>
     steps db' = steps db \<and> edges db' = edges db \<and> attempts db' = attempts db
   \<and> dead_letters db' = dead_letters db \<and> outbox db' = outbox db \<and> approvals db' = approvals db
   \<and> log_move db db'
   \<and> (\<exists>r r'. run db = Some r \<and> run db' = Some r'
        \<and> (r_status r' = r_status r \<and> r_park_reason r' = r_park_reason r
             \<and> r_cancel_reason r' = r_cancel_reason r \<and> r_finished_at r' = r_finished_at r
           \<or> run_edge (r_status r) (r_status r') \<and> run_settles r r')
        \<and> (run_state_ok r \<longrightarrow> run_state_ok r')
        \<and> counters_shift no_delta r r' \<and> same_run_identity r r')"

text \<open>Only the approvals, the outbox or the event log change.\<close>

definition side_move :: "rundb \<Rightarrow> rundb \<Rightarrow> bool" where
  "side_move db db' \<longleftrightarrow>
     steps db' = steps db \<and> edges db' = edges db \<and> attempts db' = attempts db
   \<and> dead_letters db' = dead_letters db \<and> approvals_move db db'
   \<and> (run db' = run db \<and> events db' = events db \<and> txbuf db' = txbuf db
      \<or> log_move db db' \<and> (\<exists>r r'. run db = Some r \<and> run db' = Some r' \<and> counters_shift no_delta r r'
           \<and> same_run_identity r r' \<and> same_run_state r r'))"

inductive store_move :: "rundb \<Rightarrow> rundb \<Rightarrow> bool" where
  step: "step_move old new db db' \<Longrightarrow> store_move db db'"
| edge: "edge_move e res db db' \<Longrightarrow> store_move db db'"
| run: "run_move db db' \<Longrightarrow> store_move db db'"
| side: "side_move db db' \<Longrightarrow> store_move db db'"

section \<open>The plumbing in closed form\<close>

lemma appendEvent_eq_Inr:
  "appendEvent p db = Inr db' \<longleftrightarrow>
     (\<exists>r. run db = Some r \<and> (\<forall>e \<in> set (events db). ev_seq e \<noteq> r_next_seq r + 1)
        \<and> db' = log_event p db)"
  by (auto simp: appendEvent_def allocateEventSeq_def appendEvent_q_def recordEnvelope_def
      log_event_def Let_def list_ex_iff andThen_eq_Inr split: option.splits if_splits)

lemma finishAttempt_eq_Inr:
  "finishAttempt step out err usage verdict repair now db = Inr db' \<longleftrightarrow>
     length (filter (\<lambda>a. at_step_id a = s_step_id step \<and> at_attempt_no a = s_attempt_count step) (attempts db)) = 1
   \<and> db' = db\<lparr>attempts := map (\<lambda>a. if at_step_id a = s_step_id step \<and> at_attempt_no a = s_attempt_count step
                                   then close_attempt out err usage verdict repair now a else a) (attempts db)\<rparr>"
  by (auto simp: finishAttempt_def finishStepAttempt_def Let_def)

lemma bumpCounters_eq_Inr:
  "bumpCounters d db = Inr db' \<longleftrightarrow> (\<exists>r. run db = Some r \<and> db' = db\<lparr>run := Some (add_delta d r)\<rparr>)"
  by (auto simp: bumpCounters_def bumpRunStepCounters_def Let_def split: option.splits)

lemma createDeadLetter_eq_Inr:
  "createDeadLetter sid src cls err payload n now db = Inr (d, db') \<longleftrightarrow>
     dead_letter_class_ok cls
   \<and> d = \<lparr>dl_step_id = sid, dl_seq = next_dead_letter_seq sid db, dl_source = src, dl_class = cls,
         dl_error = err, dl_payload = payload, dl_attempts_at_death = n, dl_created_at = now\<rparr>
   \<and> db' = db\<lparr>dead_letters := dead_letters db @ [d]\<rparr>"
  by (auto simp: createDeadLetter_def Let_def)

lemma transitionQueries_eq_Inr: "transitionQueries now = Inr u \<longleftrightarrow> now \<noteq> 0"
  by (auto simp: transitionQueries_def)

lemma lockRun_eq_Inr: "lockRun db = Inr r \<longleftrightarrow> run db = Some r"
  by (auto simp: lockRun_def lockRun_q_def split: option.splits)

lemmas plumbing_eq_Inr = appendEvent_eq_Inr finishAttempt_eq_Inr bumpCounters_eq_Inr
  createDeadLetter_eq_Inr transitionQueries_eq_Inr lockRun_eq_Inr andThen_eq_Inr

lemma log_event_frame [simp]:
  "steps (log_event p db) = steps db" "edges (log_event p db) = edges db"
  "attempts (log_event p db) = attempts db" "dead_letters (log_event p db) = dead_letters db"
  "outbox (log_event p db) = outbox db" "approvals (log_event p db) = approvals db"
  by (simp_all add: log_event_def Let_def split: option.splits)

lemma run_log_event:
  "run (log_event p db) = map_option (\<lambda>r. r\<lparr>r_next_seq := r_next_seq r + 1\<rparr>) (run db)"
  by (simp add: log_event_def Let_def split: option.splits)

text \<open>Any table change that keeps the run's event counter and the log, followed by one event.\<close>

lemma log_move_log_event:
  assumes "run db = Some r" "run mid = Some m" "r_next_seq m = r_next_seq r"
    and "events mid = events db" "txbuf mid = txbuf db"
  shows "log_move db (log_event p mid)"
  unfolding log_move_def
  by (rule exI [of _ r], rule exI [of _ "m\<lparr>r_next_seq := r_next_seq m + 1\<rparr>"], rule exI [of _ "[p]"])
     (use assms in \<open>simp add: log_event_def Let_def\<close>)

lemma getRunStep_id: "getRunStep sid db = Some s \<Longrightarrow> s_step_id s = sid"
  by (auto simp: getRunStep_def dest: step_rows.row_at_SomeD)

lemma getRunStep_in_steps: "getRunStep sid db = Some s \<Longrightarrow> s \<in> set (steps db)"
  by (auto simp: getRunStep_def dest: step_rows.row_at_SomeD)

lemma getRunEdge_ordinal: "getRunEdge k db = Some e \<Longrightarrow> e_ordinal e = k"
  by (auto simp: getRunEdge_def dest: edge_rows.row_at_SomeD)

end
