(* ===== verification/Store_Refinement.thy ===== *)
theory Store_Refinement
  imports Store_Moves
begin

text \<open>
  Every transition of the store that returns without error performs moves of
  \<open>Store_Moves\<close>: one step move for a step transition, one run move for a run
  transition, and a short sequence for the operations that combine them
  (\<open>BudgetParkStep\<close>, \<open>CancelAwaitingHumanStep\<close>, \<open>ExpireApprovalPark\<close>).
\<close>

section \<open>From table updates to moves\<close>

lemma log_event_moves:
  "dead_letters_move new db (log_event p mid) = dead_letters_move new db mid"
  "approvals_move db (log_event p mid) = approvals_move db mid"
  by (simp_all add: dead_letters_move_def approvals_move_def)

lemma step_moveI:
  assumes "getRunStep sid db = Some old" and "run db = Some r" and "row_move old new"
    and "steps mid = replace_row s_step_id sid new (steps db)"
    and "attempts_move old new (attempts db) (attempts mid)"
    and "dead_letters_move new db mid" and "approvals_move db mid"
    and "edges mid = edges db" and "outbox mid = outbox db"
    and "events mid = events db" and "txbuf mid = txbuf db"
    and "run mid = Some m" and "counters_shift (class_delta (s_status old) (s_status new)) r m"
    and "same_run_identity r m" and "same_run_state r m" and "r_next_seq m = r_next_seq r"
  shows "step_move old new db (log_event p mid)"
proof -
  have run': "run (log_event p mid) = Some (m\<lparr>r_next_seq := r_next_seq m + 1\<rparr>)"
    using assms by (simp add: run_log_event)
  have "counters_shift (class_delta (s_status old) (s_status new)) r (m\<lparr>r_next_seq := r_next_seq m + 1\<rparr>)"
    "same_run_identity r (m\<lparr>r_next_seq := r_next_seq m + 1\<rparr>)"
    "same_run_state r (m\<lparr>r_next_seq := r_next_seq m + 1\<rparr>)"
    using assms by (simp_all add: counters_shift_def same_run_identity_def same_run_state_def)
  moreover have "log_move db (log_event p mid)"
    by (rule log_move_log_event [where m = m]) (use assms in simp_all)
  ultimately show ?thesis
    using assms run' getRunStep_id [OF assms(1)]
    unfolding step_move_def by (simp only: log_event_moves log_event_frame) blast
qed

lemma run_moveI:
  assumes "run db = Some r" and "mid = db\<lparr>run := Some m\<rparr>"
    and "r_status m = r_status r \<and> r_park_reason m = r_park_reason r
           \<and> r_cancel_reason m = r_cancel_reason r \<and> r_finished_at m = r_finished_at r
         \<or> run_edge (r_status r) (r_status m) \<and> run_settles r m"
    and "run_state_ok r \<Longrightarrow> run_state_ok m"
    and "counters_shift no_delta r m" and "same_run_identity r m" and "r_next_seq m = r_next_seq r"
  shows "run_move db (log_event p mid)"
proof -
  let ?m = "m\<lparr>r_next_seq := r_next_seq m + 1\<rparr>"
  have log: "log_move db (log_event p mid)"
    by (rule log_move_log_event [where m = m]) (use assms in simp_all)
  have run': "run (log_event p mid) = Some ?m" using assms(2) by (simp add: run_log_event)
  have same: "run_settles r ?m = run_settles r m" "run_state_ok ?m = run_state_ok m"
    "counters_shift no_delta r ?m = counters_shift no_delta r m"
    "same_run_identity r ?m = same_run_identity r m"
    by (simp_all add: run_settles_def run_state_ok_def counters_shift_def same_run_identity_def)
  have "(r_status ?m = r_status r \<and> r_park_reason ?m = r_park_reason r
           \<and> r_cancel_reason ?m = r_cancel_reason r \<and> r_finished_at ?m = r_finished_at r
         \<or> run_edge (r_status r) (r_status ?m) \<and> run_settles r ?m)
      \<and> (run_state_ok r \<longrightarrow> run_state_ok ?m) \<and> counters_shift no_delta r ?m \<and> same_run_identity r ?m"
    unfolding same using assms(3-6) by simp
  with assms(1) run' have ex: "\<exists>r r'. run db = Some r \<and> run (log_event p mid) = Some r'
      \<and> (r_status r' = r_status r \<and> r_park_reason r' = r_park_reason r
             \<and> r_cancel_reason r' = r_cancel_reason r \<and> r_finished_at r' = r_finished_at r
           \<or> run_edge (r_status r) (r_status r') \<and> run_settles r r')
        \<and> (run_state_ok r \<longrightarrow> run_state_ok r')
        \<and> counters_shift no_delta r r' \<and> same_run_identity r r'" by blast
  show ?thesis
    unfolding run_move_def using log ex by (simp only: log_event_frame) (simp add: assms(2))
qed

lemma side_move_log_event:
  assumes "run db = Some r"
  shows "side_move db (log_event p db)"
proof -
  have "log_move db (log_event p db)" by (rule log_move_log_event [OF assms assms]) simp_all
  with assms show ?thesis
    by (simp add: side_move_def run_log_event approvals_move_def counters_shift_def no_delta_def
        same_run_identity_def same_run_state_def)
qed

lemmas row_move_simps = row_move_def same_step_identity_def step_edge_def

lemmas table_simps = attempts_move_def attempt_open_def dead_letters_move_def approvals_move_def
  next_dead_letter_seq_def

lemmas move_simps = row_move_simps table_simps class_delta_def status_class_def no_delta_def Let_def

text \<open>The conclusion shared by the step transitions.\<close>

definition refines_step :: "step_id \<Rightarrow> (step_row \<times> rundb) result \<Rightarrow> rundb \<Rightarrow> bool" where
  "refines_step sid res db \<longleftrightarrow> (\<forall>new db'. res = Inr (new, db') \<longrightarrow>
     (\<exists>old. getRunStep sid db = Some old \<and> step_move old new db db'))"

lemma closes_attempt_map [simp]:
  "s_step_id old = sid \<Longrightarrow> closes_attempt old ats
     (map (\<lambda>a. if at_step_id a = sid \<and> at_attempt_no a = s_attempt_count old
                then close_attempt out err usage verdict repair now a else a) ats)"
  unfolding closes_attempt_def by blast

section \<open>Step transitions\<close>

lemma add_delta_no_delta [simp]: "add_delta no_delta r = r"
  by (simp add: add_delta_def no_delta_def)

lemma add_delta_zero [simp]:
  "add_delta \<lparr>d_succeeded = 0, d_failed = 0, d_skipped = 0, d_cancelled = 0, d_collected = 0\<rparr> r = r"
  by (simp add: add_delta_def)

lemma add_delta_facts:
  "counters_shift d r (add_delta d r)" "same_run_identity r (add_delta d r)"
  "same_run_state r (add_delta d r)" "r_next_seq (add_delta d r) = r_next_seq r"
  by (simp_all add: add_delta_def counters_shift_def same_run_identity_def same_run_state_def)

text \<open>
  The skeleton of a step transition: a compare-and-set, changes to the attempts, the
  dead letters and the counters, and one event.
\<close>

lemma cas_step_moveI:
  assumes "getRunStep sid db = Some old" and "run db = Some r"
    and "steps mid = replace_row s_step_id sid new (steps db)"
    and "row_move old new" and "class_delta (s_status old) (s_status new) = d"
    and "attempts_move old new (attempts db) (attempts mid)"
    and "dead_letters_move new db mid" and "approvals_move db mid"
    and "edges mid = edges db" and "outbox mid = outbox db"
    and "events mid = events db" and "txbuf mid = txbuf db"
    and "run mid = Some (add_delta d r)"
  shows "step_move old new db (log_event p mid)"
  by (rule step_moveI [where m = "add_delta d r" and sid = sid and r = r])
     (simp_all only: assms add_delta_facts)

lemma ClaimStep_refines: "refines_step sid (ClaimStep sid worker span now fresh db) db"
  unfolding refines_step_def
proof (intro allI impI)
  fix new db'
  assume claim: "ClaimStep sid worker span now fresh db = Inr (new, db')"
  show "\<exists>old. getRunStep sid db = Some old \<and> step_move old new db db'"
  proof (cases "getRunStep sid db")
    case None
    with claim show ?thesis
      by (simp add: ClaimStep_def ClaimStepWithOrigin_def plumbing_eq_Inr claimRunStep_def cas_step_def
          Let_def split: if_splits)
  next
    case (Some old)
    with claim show ?thesis
      apply (clarsimp simp: ClaimStep_def ClaimStepWithOrigin_def plumbing_eq_Inr claimRunStep_def
          cas_step_eq_Some createStepAttempt_def Let_def split: option.splits prod.splits if_splits)
      apply (frule getRunStep_id, rule cas_step_moveI [where d = no_delta], assumption, assumption)
      by (auto simp: move_simps opens_attempt_def claim_due_def)
  qed
qed

lemma TakeoverStep_refines: "refines_step sid (TakeoverStep sid c now db) db"
  unfolding refines_step_def
  by (intro allI impI, clarsimp simp: TakeoverStep_def plumbing_eq_Inr takeoverRunStep_def cas_step_eq_Some Let_def
        split: option.splits prod.splits if_splits;
      (frule getRunStep_id, rule cas_step_moveI [where d = no_delta], assumption, assumption, auto simp: move_simps))

lemma SucceedStep_refines: "refines_step sid (SucceedStep sid c out usage verdict repair now db) db"
  unfolding refines_step_def
  by (intro allI impI, clarsimp simp: SucceedStep_def plumbing_eq_Inr succeedRunStep_def cas_step_eq_Some Let_def
        split: option.splits prod.splits if_splits;
      (frule getRunStep_id, rule cas_step_moveI, assumption, assumption, auto simp: move_simps))

lemma DeadLetterStep_refines: "refines_step sid (DeadLetterStep sid c src outcome err usage verdict repair now db) db"
  unfolding refines_step_def
  by (intro allI impI, clarsimp simp: DeadLetterStep_def plumbing_eq_Inr deadLetterRunStep_def cas_step_eq_Some Let_def
        split: option.splits prod.splits if_splits;
      (frule getRunStep_id, rule cas_step_moveI, assumption, assumption, auto simp: move_simps))

lemma CollectFailStep_refines: "refines_step sid (CollectFailStep sid c outcome out err usage now db) db"
  unfolding refines_step_def
  by (intro allI impI, clarsimp simp: CollectFailStep_def plumbing_eq_Inr collectFailRunStep_def cas_step_eq_Some Let_def
        split: option.splits prod.splits if_splits;
      (frule getRunStep_id, rule cas_step_moveI, assumption, assumption, auto simp: move_simps))

lemma PoisonDeadLetterStep_refines: "refines_step sid (PoisonDeadLetterStep sid err payload now db) db"
  unfolding refines_step_def
  by (intro allI impI, clarsimp simp: PoisonDeadLetterStep_def plumbing_eq_Inr poisonDeadLetterRunStep_def cas_step_eq_Some Let_def
        split: option.splits prod.splits if_splits;
      (frule getRunStep_id, rule cas_step_moveI, assumption, assumption, auto simp: move_simps))

lemma CancelStep_refines: "refines_step sid (CancelStep sid reason now db) db"
  unfolding refines_step_def
  by (intro allI impI, clarsimp simp: CancelStep_def plumbing_eq_Inr cancelRunStep_def cas_step_eq_Some Let_def
        split: option.splits prod.splits if_splits;
      (frule getRunStep_id, rule cas_step_moveI, assumption, assumption, auto simp: move_simps))

lemma CancelRunningStep_refines: "refines_step sid (CancelRunningStep sid c reason err now db) db"
  unfolding refines_step_def
  by (intro allI impI, clarsimp simp: CancelRunningStep_def plumbing_eq_Inr cancelRunningRunStep_def cas_step_eq_Some Let_def
        split: option.splits prod.splits if_splits;
      (frule getRunStep_id, rule cas_step_moveI, assumption, assumption, auto simp: move_simps))

lemma RequeueStep_refines: "refines_step sid (RequeueStep sid now db) db"
  unfolding refines_step_def
  by (intro allI impI, clarsimp simp: RequeueStep_def plumbing_eq_Inr requeueRunStep_def cas_step_eq_Some Let_def
        split: option.splits prod.splits if_splits;
      (frule getRunStep_id, rule cas_step_moveI, assumption, assumption, auto simp: move_simps))

lemma ReviveStep_refines: "refines_step sid (ReviveStep sid reason now db) db"
  unfolding refines_step_def
  by (intro allI impI, clarsimp simp: ReviveStep_def plumbing_eq_Inr reviveRunStep_def cas_step_eq_Some Let_def
        split: option.splits prod.splits if_splits;
      (frule getRunStep_id, rule cas_step_moveI, assumption, assumption, auto simp: move_simps))

lemma RetryStep_refines: "refines_step sid (RetryStep sid c outcome err usage next now db) db"
  unfolding refines_step_def
  by (intro allI impI, clarsimp simp: RetryStep_def plumbing_eq_Inr retryRunStep_def cas_step_eq_Some Let_def
        split: option.splits prod.splits if_splits;
      (frule getRunStep_id, rule cas_step_moveI [where d = no_delta], assumption, assumption, auto simp: move_simps))

lemma ThrottleStep_refines: "refines_step sid (ThrottleStep sid c resource bucket retryAfter next now db) db"
  unfolding refines_step_def
  by (intro allI impI, clarsimp simp: ThrottleStep_def plumbing_eq_Inr retryRunStep_def cas_step_eq_Some Let_def
        split: option.splits prod.splits if_splits;
      (frule getRunStep_id, rule cas_step_moveI [where d = no_delta], assumption, assumption, auto simp: move_simps))

lemma SemanticRetryStep_refines: "refines_step sid (SemanticRetryStep sid c err usage verdict repair feedback k m n next now db) db"
  unfolding refines_step_def
  by (intro allI impI, clarsimp simp: SemanticRetryStep_def plumbing_eq_Inr semanticRetryRunStep_def cas_step_eq_Some Let_def
        split: option.splits prod.splits if_splits;
      (frule getRunStep_id, rule cas_step_moveI [where d = no_delta], assumption, assumption, auto simp: move_simps))

lemma ReadyStep_refines: "refines_step sid (ReadyStep sid join_any now db) db"
  unfolding refines_step_def
  by (intro allI impI, clarsimp simp: ReadyStep_def plumbing_eq_Inr readyRunStep_def cas_step_eq_Some Let_def
        split: option.splits prod.splits if_splits;
      (frule getRunStep_id, rule cas_step_moveI [where d = no_delta], assumption, assumption, auto simp: move_simps))

lemma SkipStep_refines: "refines_step sid (SkipStep sid now db) db"
  unfolding refines_step_def
  by (intro allI impI, clarsimp simp: SkipStep_def plumbing_eq_Inr skipRunStep_def cas_step_eq_Some Let_def
        split: option.splits prod.splits if_splits;
      (frule getRunStep_id, rule cas_step_moveI, assumption, assumption, auto simp: move_simps))

lemma SucceedAwaitingHumanStep_refines: "refines_step sid (SucceedAwaitingHumanStep sid out now db) db"
  unfolding refines_step_def
  by (intro allI impI, clarsimp simp: SucceedAwaitingHumanStep_def plumbing_eq_Inr succeedAwaitingHumanRunStep_def cas_step_eq_Some Let_def
        split: option.splits prod.splits if_splits;
      (frule getRunStep_id, rule cas_step_moveI, assumption, assumption, auto simp: move_simps))

lemma DeadLetterAwaitingHumanStep_refines: "refines_step sid (DeadLetterAwaitingHumanStep sid err now db) db"
  unfolding refines_step_def
  by (intro allI impI, clarsimp simp: DeadLetterAwaitingHumanStep_def plumbing_eq_Inr deadLetterAwaitingHumanRunStep_def cas_step_eq_Some Let_def
        split: option.splits prod.splits if_splits;
      (frule getRunStep_id, rule cas_step_moveI, assumption, assumption, auto simp: move_simps))

lemma insertApproval_eq_Inr:
  "insertApproval a db = Inr (a', db') \<longleftrightarrow>
     a' = a \<and> db' = db\<lparr>approvals := approvals db @ [a]\<rparr>
   \<and> (\<forall>b \<in> set (approvals db). ap_id b \<noteq> ap_id a)
   \<and> (\<forall>b \<in> set (approvals db). ap_step_id b = ap_step_id a \<longrightarrow> ap_status b \<noteq> ApprovalStatusPending)"
  by (auto simp: insertApproval_def list_ex_iff)

lemma AwaitHumanStep_refines: "refines_step sid (AwaitHumanStep sid c q now db) db"
  unfolding refines_step_def
  by (intro allI impI, clarsimp simp: AwaitHumanStep_def plumbing_eq_Inr awaitHumanRunStep_def
        cas_step_eq_Some insertApproval_eq_Inr split: option.splits prod.splits if_splits;
      (frule getRunStep_id, rule cas_step_moveI [where d = no_delta], assumption, assumption,
       auto simp: move_simps pending_approval_def))

section \<open>Run transitions\<close>

text \<open>The conclusion shared by the run transitions.\<close>

definition refines_run :: "(run_row \<times> rundb) result \<Rightarrow> rundb \<Rightarrow> bool" where
  "refines_run res db \<longleftrightarrow> (\<forall>rn db'. res = Inr (rn, db') \<longrightarrow> run_move db db')"

lemmas run_move_simps = run_edge_def run_settles_def run_state_ok_def run_terminal_def
  counters_shift_def no_delta_def same_run_identity_def

lemma SucceedRun_refines: "refines_run (SucceedRun now db) db"
  unfolding refines_run_def
  by (intro allI impI, clarsimp simp: SucceedRun_def plumbing_eq_Inr succeedRun_q_def cas_run_eq_Some Let_def
        split: option.splits prod.splits;
      (rule run_moveI, assumption, rule refl, auto simp: run_move_simps))

lemma FailRun_refines: "refines_run (FailRun now db) db"
  unfolding refines_run_def
  by (intro allI impI, clarsimp simp: FailRun_def plumbing_eq_Inr failRun_q_def cas_run_eq_Some Let_def
        split: option.splits prod.splits;
      (rule run_moveI, assumption, rule refl, auto simp: run_move_simps))

lemma FailRunRollup_refines: "refines_run (FailRunRollup now db) db"
  unfolding refines_run_def
  by (intro allI impI, clarsimp simp: FailRunRollup_def plumbing_eq_Inr failRunRollup_q_def cas_run_eq_Some Let_def
        split: option.splits prod.splits;
      (rule run_moveI, assumption, rule refl, auto simp: run_move_simps))

lemma ResumeRun_refines: "refines_run (ResumeRun now db) db"
  unfolding refines_run_def
  by (intro allI impI, clarsimp simp: ResumeRun_def plumbing_eq_Inr resumeRun_q_def cas_run_eq_Some Let_def
        split: option.splits prod.splits;
      (rule run_moveI, assumption, rule refl, auto simp: run_move_simps))

lemma ParkRun_refines: "refines_run (ParkRun reason now db) db"
  unfolding refines_run_def
  by (intro allI impI, clarsimp simp: ParkRun_def plumbing_eq_Inr parkRun_q_def cas_run_eq_Some Let_def
        split: option.splits prod.splits;
      (rule run_moveI, assumption, rule refl, auto simp: run_move_simps))

lemma UnparkRun_refines: "refines_run (UnparkRun now db) db"
  unfolding refines_run_def
  by (intro allI impI, clarsimp simp: UnparkRun_def plumbing_eq_Inr unparkRun_q_def cas_run_eq_Some Let_def
        split: option.splits prod.splits;
      (rule run_moveI, assumption, rule refl, auto simp: run_move_simps))

lemma CancelRun_refines: "refines_run (CancelRun reason now db) db"
  unfolding refines_run_def
  by (intro allI impI, clarsimp simp: CancelRun_def plumbing_eq_Inr cancelRun_q_def cas_run_eq_Some Let_def
        split: option.splits prod.splits;
      (rule run_moveI, assumption, rule refl, auto simp: run_move_simps))

lemma CancelRunRollup_refines: "refines_run (CancelRunRollup now db) db"
  unfolding refines_run_def
  by (intro allI impI, clarsimp simp: CancelRunRollup_def plumbing_eq_Inr cancelRunRollup_q_def cas_run_eq_Some Let_def
        split: option.splits prod.splits;
      (rule run_moveI, assumption, rule refl, auto simp: run_move_simps))

lemma SetRunBudget_refines: "refines_run (SetRunBudget budget now db) db"
  unfolding refines_run_def
proof (intro allI impI)
  fix rn db'
  assume set: "SetRunBudget budget now db = Inr (rn, db')"
  then obtain mid where q: "setRunBudget_q budget db = Some (rn, mid)"
    by (cases "setRunBudget_q budget db") (auto simp: SetRunBudget_def plumbing_eq_Inr Let_def)
  with set obtain p where "db' = log_event p mid"
    by (auto simp: SetRunBudget_def plumbing_eq_Inr Let_def)
  with q show "run_move db db'"
    by (clarsimp simp: setRunBudget_q_def cas_run_eq_Some)
       (rule run_moveI, assumption, rule refl, auto simp: run_move_simps)
qed

section \<open>Operations made of several moves\<close>

text \<open>The conclusion shared by all operations.\<close>

definition refines :: "('a \<times> rundb) result \<Rightarrow> rundb \<Rightarrow> bool" where
  "refines res db \<longleftrightarrow> (\<forall>x db'. res = Inr (x, db') \<longrightarrow> rtranclp store_move db db')"

lemma refines_step_refines: "refines_step sid res db \<Longrightarrow> refines res db"
  unfolding refines_step_def refines_def by (metis r_into_rtranclp store_move.step)

lemma refines_run_refines: "refines_run res db \<Longrightarrow> refines res db"
  unfolding refines_run_def refines_def by (metis r_into_rtranclp store_move.run)

lemma refines_log_event:
  "run db = Some r \<Longrightarrow> rtranclp store_move db (log_event p db)"
  by (rule r_into_rtranclp, rule store_move.side, rule side_move_log_event)

lemma refines_andThen:
  assumes "refines m db" and "\<And>x mid. m = Inr (x, mid) \<Longrightarrow> refines (f (x, mid)) mid"
  shows "refines (andThen m f) db"
  using assms unfolding refines_def by (auto simp: andThen_eq_Inr intro: rtranclp_trans)

lemma refines_Inr [simp]: "refines (Inr (x, db)) db"
  by (simp add: refines_def)

lemma refines_Inl [simp]: "refines (Inl e) db"
  by (simp add: refines_def)

lemma refines_appendEvent:
  "refines (andThen (appendEvent p db) (\<lambda>db'. Inr (x, db'))) db"
  by (auto simp: refines_def plumbing_eq_Inr intro: refines_log_event)

lemma side_move_approvals:
  assumes "approvals_move db (db\<lparr>approvals := aps\<rparr>)"
  shows "rtranclp store_move db (db\<lparr>approvals := aps\<rparr>)"
  by (rule r_into_rtranclp, rule store_move.side) (use assms in \<open>simp add: side_move_def\<close>)

text \<open>An approval compare-and-set touches one pending row and keeps its key.\<close>

lemma cas_approval_refines:
  assumes "cas_approval guard upd db = Some (a', db')"
    and "\<And>a. guard a \<Longrightarrow> ap_status a = ApprovalStatusPending"
    and "\<And>a. ap_id (upd a) = ap_id a \<and> ap_step_id (upd a) = ap_step_id a \<and> ap_attempt (upd a) = ap_attempt a"
  shows "rtranclp store_move db db'"
proof -
  from assms(1) obtain a where a: "find guard (approvals db) = Some a" and a': "a' = upd a"
    and db': "db' = db\<lparr>approvals := replace_row ap_id (ap_id a) (upd a) (approvals db)\<rparr>"
    by (auto simp: cas_approval_def split: option.splits)
  from a have "a \<in> set (approvals db)" "guard a" by (auto simp: find_Some_iff)
  with assms(2,3) have "approvals_move db db'"
    unfolding approvals_move_def db' by (intro disjI2 exI [of _ a] exI [of _ "upd a"]) simp
  then show ?thesis unfolding db' by (rule side_move_approvals)
qed

lemma parkRun_q_refines:
  assumes "parkRun_q reason db = Some (rn, mid)" and "appendEvent p mid = Inr db'"
  shows "rtranclp store_move db db'"
proof (rule r_into_rtranclp, rule store_move.run)
  show "run_move db db'"
    using assms by (clarsimp simp: parkRun_q_def cas_run_eq_Some plumbing_eq_Inr)
      (rule run_moveI, assumption, rule refl, auto simp: run_move_simps)
qed

lemma BudgetParkStep_release:
  assumes "budgetParkRunStep sid c now db = Some (step, db1)" and "run db = Some r"
    and "finishAttempt step AttemptOutcomeBudgetExceeded err None None None now db1 = Inr db2"
    and "appendEvent p db2 = Inr db3"
  shows "rtranclp store_move db db3"
proof -
  from assms have "\<exists>old. getRunStep sid db = Some old \<and> step_move old step db db3"
    by (clarsimp simp: budgetParkRunStep_def cas_step_eq_Some plumbing_eq_Inr)
       (frule getRunStep_id, rule cas_step_moveI [where d = no_delta], assumption, assumption,
        auto simp: move_simps)
  then show ?thesis by (auto intro: r_into_rtranclp store_move.step)
qed

lemma BudgetParkStep_refines: "refines (BudgetParkStep sid c ev now db) db"
  unfolding refines_def
proof (intro allI impI)
  fix step db'
  assume park: "BudgetParkStep sid c ev now db = Inr (step, db')"
  then obtain rn db1 where rn: "run db = Some rn" and q: "budgetParkRunStep sid c now db = Some (step, db1)"
    by (cases "budgetParkRunStep sid c now db")
       (auto simp: BudgetParkStep_def andThen_eq_Inr lockRun_eq_Inr Let_def split: if_splits option.splits)
  let ?ev = "ev\<lparr>be_step_id := sid, be_attempt := s_attempt_count step, be_action := ''park''\<rparr>"
  from park rn q obtain db2 db3 where
    fin: "finishAttempt step AttemptOutcomeBudgetExceeded (Some (budget_event_json ?ev)) None None None now db1 = Inr db2"
    and app: "appendEvent (EvBudgetExceeded ?ev) db2 = Inr db3"
    and rest: "(if r_status rn = RunStatusRunning
         then (case parkRun_q ParkReasonBudgetExceeded db3 of
                 None \<Rightarrow> Inl (ErrNotFound ''run'')
               | Some (_, db4) \<Rightarrow>
                   andThen (appendEvent (EvRunParked ParkReasonBudgetExceeded) db4) (\<lambda>db5. Inr (step, db5)))
         else Inr (step, db3)) = Inr (step, db')"
    by (auto simp: BudgetParkStep_def andThen_eq_Inr lockRun_eq_Inr Let_def)
  have "rtranclp store_move db db3" by (rule BudgetParkStep_release [OF q rn fin app])
  moreover from rest have "rtranclp store_move db3 db'"
    by (auto simp: andThen_eq_Inr split: if_splits option.splits intro: parkRun_q_refines)
  ultimately show "rtranclp store_move db db'" by (rule rtranclp_trans)
qed

lemma DecideApproval_refines:
  "refines (DecideApproval i sid no st dec expired timeout edited comment by src now db) db"
  unfolding refines_def
proof (intro allI impI)
  fix ap db'
  assume dec: "DecideApproval i sid no st dec expired timeout edited comment by src now db = Inr (ap, db')"
  then obtain db1 where q: "decideApproval_q i st dec edited (nullableText comment) by src expired now db = Some (ap, db1)"
    by (cases "decideApproval_q i st dec edited (nullableText comment) by src expired now db")
       (auto simp: DecideApproval_def andThen_eq_Inr split: if_splits option.splits)
  have "rtranclp store_move db db1"
    using q unfolding decideApproval_q_def by (rule cas_approval_refines) auto
  moreover from dec q obtain p where "appendEvent p db1 = Inr db'"
    by (auto simp: DecideApproval_def andThen_eq_Inr split: if_splits)
  then have "rtranclp store_move db1 db'" by (auto simp: appendEvent_eq_Inr intro: refines_log_event)
  ultimately show "rtranclp store_move db db'" by (rule rtranclp_trans)
qed

lemma RecordApprovalNotification_refines: "refines (RecordApprovalNotification p now db) db"
  by (auto simp: RecordApprovalNotification_def refines_def plumbing_eq_Inr intro: refines_log_event)

lemma RecordModelDowngrade_refines: "refines (RecordModelDowngrade sid c ev now db) db"
  by (auto simp: RecordModelDowngrade_def refines_def plumbing_eq_Inr
      split: option.splits if_splits intro: refines_log_event)

lemma RecordLoopExhausted_refines: "refines (RecordLoopExhausted p now db) db"
  by (auto simp: RecordLoopExhausted_def refines_def plumbing_eq_Inr intro: refines_log_event)

lemma RecordLoopNoProgress_refines: "refines (RecordLoopNoProgress p now db) db"
  by (auto simp: RecordLoopNoProgress_def refines_def plumbing_eq_Inr intro: refines_log_event)

lemma RecordGuardTripped_refines: "refines (RecordGuardTripped p now db) db"
  by (auto simp: RecordGuardTripped_def refines_def plumbing_eq_Inr intro: refines_log_event)

lemma createOutboxTask_refines: "rtranclp store_move db (createOutboxTask sid reason tr db)"
  by (rule r_into_rtranclp, rule store_move.side)
     (simp add: side_move_def createOutboxTask_def approvals_move_def)

lemma CancelAwaitingHumanStep_release:
  assumes "cancelAwaitingHumanRunStep sid now db = Some (step, db1)" and "run db = Some r"
    and "finishAttempt step AttemptOutcomeCancelled None None None None now db1 = Inr db2"
    and "bumpCounters (no_delta\<lparr>d_cancelled := 1\<rparr>) db2 = Inr db3"
    and "appendEvent p db3 = Inr db4"
  shows "\<exists>old. getRunStep sid db = Some old \<and> step_move old step db db4"
  using assms
  by (clarsimp simp: cancelAwaitingHumanRunStep_def cas_step_eq_Some plumbing_eq_Inr)
     (frule getRunStep_id, rule cas_step_moveI, assumption, assumption, auto simp: move_simps)

lemma CancelAwaitingHumanStep_refines: "refines (CancelAwaitingHumanStep sid reason now db) db"
  unfolding refines_def
proof (intro allI impI)
  fix step db'
  assume cancel: "CancelAwaitingHumanStep sid reason now db = Inr (step, db')"
  then obtain rn why db1 where rn: "run db = Some rn" and why: "reason = Some why"
    and q: "cancelAwaitingHumanRunStep sid now db = Some (step, db1)"
    by (cases "cancelAwaitingHumanRunStep sid now db")
       (auto simp: CancelAwaitingHumanStep_def andThen_eq_Inr lockRun_eq_Inr split: option.splits)
  from cancel rn why q obtain db2 db3 db4 where
    fin: "finishAttempt step AttemptOutcomeCancelled None None None None now db1 = Inr db2"
    and bump: "bumpCounters (no_delta\<lparr>d_cancelled := 1\<rparr>) db2 = Inr db3"
    and app: "appendEvent (EvStepCancelled sid why) db3 = Inr db4"
    and rest: "(case cancelPendingApprovalByStep sid now db4 of
           None \<Rightarrow> Inr (step, db4)
         | Some (ap, db5) \<Rightarrow>
             andThen (appendEvent (EvApprovalCancelled (ap_id ap) sid why) db5) (\<lambda>db6.
             Inr (step, db6))) = Inr (step, db')"
    by (auto simp: CancelAwaitingHumanStep_def andThen_eq_Inr lockRun_eq_Inr)
  have first: "rtranclp store_move db db4"
    using CancelAwaitingHumanStep_release [OF q rn fin bump app]
    by (auto intro: r_into_rtranclp store_move.step)
  show "rtranclp store_move db db'"
  proof (cases "cancelPendingApprovalByStep sid now db4")
    case None
    with rest first show ?thesis by simp
  next
    case (Some res)
    then obtain ap db5 where c: "cancelPendingApprovalByStep sid now db4 = Some (ap, db5)" by (cases res) auto
    from c have "rtranclp store_move db4 db5"
      unfolding cancelPendingApprovalByStep_def by (rule cas_approval_refines) auto
    moreover from c rest have "rtranclp store_move db5 db'"
      by (auto simp: plumbing_eq_Inr intro: refines_log_event)
    ultimately show ?thesis using first by (blast intro: rtranclp_trans)
  qed
qed

lemma ExpireApprovalPark_refines: "refines (ExpireApprovalPark i sid no timeout now db) db"
  unfolding refines_def
proof (intro allI impI)
  fix res db'
  assume expire: "ExpireApprovalPark i sid no timeout now db = Inr (res, db')"
  then obtain rn ap db1 where rn: "run db = Some rn" and q: "markApprovalExpiredPending i now db = Some (ap, db1)"
    by (cases "markApprovalExpiredPending i now db")
       (auto simp: ExpireApprovalPark_def andThen_eq_Inr lockRun_eq_Inr split: option.splits if_splits)
  have "rtranclp store_move db db1"
    using q unfolding markApprovalExpiredPending_def by (rule cas_approval_refines) auto
  moreover from expire rn q obtain p db3 where "rtranclp store_move db1 db3" and "appendEvent p db3 = Inr db'"
  proof (cases "r_status rn = RunStatusParked")
    case True
    with expire rn q that [of db1] show ?thesis
      by (auto simp: ExpireApprovalPark_def andThen_eq_Inr lockRun_eq_Inr split: option.splits)
  next
    case False
    with expire rn q obtain rn' db3 p where park: "ParkRun (Some ParkReasonAwaitingHuman) now db1 = Inr (rn', db3)"
      and app: "appendEvent p db3 = Inr db'"
      by (auto simp: ExpireApprovalPark_def andThen_eq_Inr lockRun_eq_Inr)
    have "refines (ParkRun (Some ParkReasonAwaitingHuman) now db1) db1"
      by (rule refines_run_refines, rule ParkRun_refines)
    with park app that show ?thesis by (auto simp: refines_def)
  qed
  moreover from this(2) have "rtranclp store_move db3 db'"
    by (auto simp: appendEvent_eq_Inr intro: refines_log_event)
  ultimately show "rtranclp store_move db db'" by (blast intro: rtranclp_trans)
qed

lemma ResolveEdge_refines: "refines (ResolveEdge ord fired now db) db"
  unfolding refines_def
proof (intro allI impI)
  fix res db'
  assume resolve: "ResolveEdge ord fired now db = Inr (res, db')"
  let ?r = "if fired then EdgeResolutionFired else EdgeResolutionSkipped"
  show "rtranclp store_move db db'"
  proof (cases "resolveRunEdge ord ?r db")
    case None
    with resolve show ?thesis
      by (auto simp: ResolveEdge_def andThen_eq_Inr Let_def resolveEdgeNoop_def split: option.splits if_splits)
  next
    case (Some x)
    then obtain e where e: "getRunEdge ord db = Some e" "e_edge_type e = EdgeTypeNormal"
      "e_resolution e = EdgeResolutionUnresolved"
      and x: "x = (e\<lparr>e_resolution := ?r\<rparr>,
        db\<lparr>edges := replace_row e_ordinal ord (e\<lparr>e_resolution := ?r\<rparr>) (edges db)\<rparr>)"
      by (auto simp: resolveRunEdge_def split: option.splits if_splits)
    with Some resolve have "edge_move e ?r db db'"
      by (auto simp: ResolveEdge_def andThen_eq_Inr Let_def applyEdgeResolution_def cas_step_def
          edge_move_def getRunStep_def getRunEdge_ordinal split: option.splits if_splits)
    then show ?thesis by (intro r_into_rtranclp) (rule store_move.edge)
  qed
qed

end
