(* ===== verification/Store_Invariants.thy ===== *)
theory Store_Invariants
  imports Store_Refinement
begin

text \<open>
  The invariant of a run's tables and its preservation.  It relates the tables to one
  another: the run's aggregate counters to the statuses of its steps, the dependency
  counters of a step to the resolutions of its in-edges, the attempt rows to the step's
  attempt counter and status, the dead letters to the deaths, the event log to the run's
  sequence counter.  A locale states what an invariant of the moves is; the invariant of
  this theory is an instance, so every store operation preserves it.
\<close>

section \<open>The invariant\<close>

definition status_count :: "step_status \<Rightarrow> step_row list \<Rightarrow> int" where
  "status_count st ss = int (length (filter (\<lambda>s. s_status s = st) ss))"

definition counters_ok :: "run_row \<Rightarrow> step_row list \<Rightarrow> bool" where
  "counters_ok r ss \<longleftrightarrow>
     r_steps_total r = int (length ss)
   \<and> r_steps_succeeded r = status_count StepStatusSucceeded ss
   \<and> r_steps_failed r = status_count StepStatusDeadLettered ss
   \<and> r_steps_skipped r = status_count StepStatusSkipped ss
   \<and> r_steps_cancelled r = status_count StepStatusCancelled ss
   \<and> r_steps_collected r = status_count StepStatusCollected ss"

definition log_ok :: "run_row \<Rightarrow> event_row list \<Rightarrow> bool" where
  "log_ok r es \<longleftrightarrow> 0 \<le> r_next_seq r \<and> map ev_seq es = [1..r_next_seq r]"

definition run_succeeded_ok :: "run_row \<Rightarrow> step_row list \<Rightarrow> bool" where
  "run_succeeded_ok r ss \<longleftrightarrow> (r_status r = RunStatusSucceeded \<longrightarrow>
     (\<forall>s \<in> set ss. s_status s \<in> {StepStatusSucceeded, StepStatusSkipped, StepStatusCollected}))"

definition step_row_ok :: "step_row \<Rightarrow> bool" where
  "step_row_ok s \<longleftrightarrow> s_status s \<noteq> StepStatusFailed
     \<and> (s_status s = StepStatusRunning \<longrightarrow> s_claim_id s \<noteq> None)
     \<and> (s_status s = StepStatusRetrying \<longrightarrow> s_next_attempt_at s \<noteq> None)"

definition in_edges :: "step_id \<Rightarrow> edge_resolution \<Rightarrow> edge_row list \<Rightarrow> int" where
  "in_edges sid res es = int (length (filter
     (\<lambda>e. e_to_step e = sid \<and> e_edge_type e = EdgeTypeNormal \<and> e_resolution e = res) es))"

definition deps_ok :: "edge_row list \<Rightarrow> step_row \<Rightarrow> bool" where
  "deps_ok es s \<longleftrightarrow> s_remaining_deps s = in_edges (s_step_id s) EdgeResolutionUnresolved es
     \<and> s_fired_deps s = in_edges (s_step_id s) EdgeResolutionFired es"

definition attempts_of :: "step_id \<Rightarrow> attempt_row list \<Rightarrow> attempt_row list" where
  "attempts_of sid ats = filter (\<lambda>a. at_step_id a = sid) ats"

definition attempts_ok :: "attempt_row list \<Rightarrow> step_row \<Rightarrow> bool" where
  "attempts_ok ats s \<longleftrightarrow>
     0 \<le> s_attempt_count s
   \<and> map at_attempt_no (attempts_of (s_step_id s) ats) = [1..s_attempt_count s]
   \<and> (attempt_open (s_status s) \<longrightarrow> 1 \<le> s_attempt_count s)
   \<and> (\<forall>a \<in> set (attempts_of (s_step_id s) ats).
        (at_outcome a = None \<longleftrightarrow> attempt_open (s_status s) \<and> at_attempt_no a = s_attempt_count s)
      \<and> (s_status s = StepStatusRunning \<and> at_attempt_no a = s_attempt_count s \<longrightarrow>
           s_claim_id s = Some (at_claim_id a)))"

definition dead_letters_of :: "step_id \<Rightarrow> dead_letter_row list \<Rightarrow> dead_letter_row list" where
  "dead_letters_of sid dls = filter (\<lambda>d. dl_step_id d = sid) dls"

definition dead_letters_ok :: "dead_letter_row list \<Rightarrow> step_row \<Rightarrow> bool" where
  "dead_letters_ok dls s \<longleftrightarrow>
     map dl_seq (dead_letters_of (s_step_id s) dls) = [1..int (length (dead_letters_of (s_step_id s) dls))]
   \<and> (\<forall>d \<in> set (dead_letters_of (s_step_id s) dls). dl_attempts_at_death d \<le> s_attempt_count s)
   \<and> (s_status s = StepStatusDeadLettered \<longrightarrow> dead_letters_of (s_step_id s) dls \<noteq> [])"

definition approvals_ok :: "approval_row list \<Rightarrow> bool" where
  "approvals_ok aps \<longleftrightarrow> distinct (map ap_id aps)
     \<and> (\<forall>a \<in> set aps. \<forall>b \<in> set aps. ap_status a = ApprovalStatusPending \<and> ap_status b = ApprovalStatusPending
          \<and> ap_step_id a = ap_step_id b \<longrightarrow> ap_id a = ap_id b)"

definition edges_ok :: "step_row list \<Rightarrow> edge_row list \<Rightarrow> bool" where
  "edges_ok ss es \<longleftrightarrow> distinct (map e_ordinal es)
     \<and> (\<forall>e \<in> set es. e_from_step e \<in> s_step_id ` set ss \<and> e_to_step e \<in> s_step_id ` set ss
          \<and> (e_edge_type e = EdgeTypeLoop \<longrightarrow> e_resolution e = EdgeResolutionUnresolved))"

definition steps_inv :: "rundb \<Rightarrow> bool" where
  "steps_inv db \<longleftrightarrow> distinct (map s_step_id (steps db))
     \<and> (\<forall>s \<in> set (steps db). step_row_ok s \<and> deps_ok (edges db) s \<and> attempts_ok (attempts db) s
          \<and> dead_letters_ok (dead_letters db) s)"

definition run_inv :: "rundb \<Rightarrow> bool" where
  "run_inv db \<longleftrightarrow> (case run db of None \<Rightarrow> False | Some r \<Rightarrow>
     counters_ok r (steps db) \<and> log_ok r (events db) \<and> run_state_ok r \<and> run_succeeded_ok r (steps db))"

definition db_inv :: "rundb \<Rightarrow> bool" where
  "db_inv db \<longleftrightarrow> steps_inv db \<and> run_inv db \<and> edges_ok (steps db) (edges db) \<and> approvals_ok (approvals db)"

section \<open>Numbering\<close>

lemma upto_snoc: "m \<le> n + 1 \<Longrightarrow> [m..n] @ [n + 1] = [m..n + (1::int)]"
  by (simp add: upto_rec2)

lemma numbered_seqs:
  "map ev_seq (numbered n ps) = [n + 1..n + int (length ps)]"
  by (induction ps arbitrary: n) (simp_all add: upto_rec1 add.assoc)

lemma fold_max_upto:
  "0 \<le> n \<Longrightarrow> (case [1..n] of [] \<Rightarrow> 0 | x # xs \<Rightarrow> fold max xs x) = (n::int)"
proof (cases "[1..n]")
  case (Cons x xs)
  assume "0 \<le> n"
  from Cons have "1 \<le> n" by (metis list.distinct(1) upto_Nil not_less zle_add1_eq_le)
  have "fold max xs x = Max (set (x # xs))" by (rule Max.set_eq_fold [symmetric])
  also have "\<dots> = Max {1..n}" using Cons by (metis set_upto)
  also have "\<dots> = n" using \<open>1 \<le> n\<close> by (intro Max_eqI) auto
  finally show ?thesis using Cons by simp
qed (simp add: upto_Nil2)

lemma upto_append:
  assumes "m \<le> n + 1" and "n \<le> k"
  shows "[m..n] @ [n + 1..k] = [m..(k::int)]"
proof (cases "m \<le> n")
  case True
  then show ?thesis using assms upto_split2 [of m n k] by simp
next
  case False
  with assms have "m = n + 1" by simp
  then show ?thesis by simp
qed

lemma log_ok_extend:
  assumes "log_ok r es" and "r_next_seq r' = r_next_seq r + int (length ps)"
  shows "log_ok r' (es @ numbered (r_next_seq r) ps)"
  using assms by (simp add: log_ok_def numbered_seqs upto_append)

lemma log_move_log_ok:
  assumes "log_move db db'" and "run db = Some r" and "run db' = Some r'" and "log_ok r (events db)"
  shows "log_ok r' (events db')"
  using assms by (auto simp: log_move_def intro: log_ok_extend)

section \<open>A step move\<close>

lemma status_count_replace:
  assumes "distinct (map s_step_id ss)" and "old \<in> set ss"
  shows "status_count st (replace_row s_step_id (s_step_id old) new ss) =
         status_count st ss - (if s_status old = st then 1 else 0) + (if s_status new = st then 1 else 0)"
  using step_rows.count_replace_row [OF assms refl] by (simp add: status_count_def)

lemma class_delta_simps:
  "d_succeeded (class_delta a b) =
     (if b = StepStatusSucceeded then 1 else 0) - (if a = StepStatusSucceeded then 1 else 0)"
  "d_failed (class_delta a b) =
     (if b = StepStatusDeadLettered then 1 else 0) - (if a = StepStatusDeadLettered then 1 else 0)"
  "d_skipped (class_delta a b) =
     (if b = StepStatusSkipped then 1 else 0) - (if a = StepStatusSkipped then 1 else 0)"
  "d_cancelled (class_delta a b) =
     (if b = StepStatusCancelled then 1 else 0) - (if a = StepStatusCancelled then 1 else 0)"
  "d_collected (class_delta a b) =
     (if b = StepStatusCollected then 1 else 0) - (if a = StepStatusCollected then 1 else 0)"
  by (simp_all add: class_delta_def status_class_def no_delta_def Let_def split: step_status.split)

lemma counters_ok_step:
  assumes "counters_ok r ss" and "distinct (map s_step_id ss)" and "old \<in> set ss"
    and "counters_shift (class_delta (s_status old) (s_status new)) r r'" and "r_steps_total r' = r_steps_total r"
  shows "counters_ok r' (replace_row s_step_id (s_step_id old) new ss)"
  using assms by (simp add: counters_ok_def counters_shift_def class_delta_simps status_count_replace)

lemma attempts_of_other:
  assumes "attempts_move old new ats ats'" and "s_step_id new = s_step_id old" and "sid \<noteq> s_step_id old"
  shows "attempts_of sid ats' = attempts_of sid ats"
proof -
  have "filter (\<lambda>a. at_step_id a = sid) (map (\<lambda>a. if at_step_id a = s_step_id old \<and> at_attempt_no a = n
          then close_attempt out err usage verdict repair now a else a) ats)
      = filter (\<lambda>a. at_step_id a = sid) ats" for n out err usage verdict repair now
    using assms(3) by (induction ats) (auto simp: close_attempt_def)
  with assms show ?thesis
    by (auto simp: attempts_move_def opens_attempt_def closes_attempt_def attempts_of_def split: if_splits)
qed

lemma attempts_of_closed:
  "attempts_of sid (map (\<lambda>a. if at_step_id a = sid \<and> at_attempt_no a = n
       then close_attempt out err usage verdict repair now a else a) ats)
   = map (\<lambda>a. if at_attempt_no a = n then close_attempt out err usage verdict repair now a else a)
       (attempts_of sid ats)"
  by (induction ats) (auto simp: attempts_of_def close_attempt_def)

lemma attempts_ok_open:
  assumes "attempts_ok ats old" and "\<not> attempt_open (s_status old)" and "opens_attempt new ats ats'"
    and "s_step_id new = s_step_id old" and "s_attempt_count new = s_attempt_count old + 1"
    and "s_status new = StepStatusRunning"
  shows "attempts_ok ats' new"
proof -
  from assms(3) obtain a where ats': "ats' = ats @ [a]" and a: "at_step_id a = s_step_id new"
    "at_attempt_no a = s_attempt_count new" "Some (at_claim_id a) = s_claim_id new" "at_outcome a = None"
    by (auto simp: opens_attempt_def)
  have of': "attempts_of (s_step_id new) ats' = attempts_of (s_step_id old) ats @ [a]"
    using ats' a assms(4) by (simp add: attempts_of_def)
  have nos: "map at_attempt_no (attempts_of (s_step_id old) ats) = [1..s_attempt_count old]"
    using assms(1) by (simp add: attempts_ok_def)
  have old: "at_outcome b \<noteq> None \<and> at_attempt_no b \<le> s_attempt_count old"
    if "b \<in> set (attempts_of (s_step_id old) ats)" for b
  proof -
    have "at_attempt_no b \<in> set (map at_attempt_no (attempts_of (s_step_id old) ats))" using that by simp
    then have "at_attempt_no b \<in> {1..s_attempt_count old}" unfolding nos by simp
    with that assms(1,2) show ?thesis by (auto simp: attempts_ok_def)
  qed
  have "map at_attempt_no (attempts_of (s_step_id new) ats') = [1..s_attempt_count new]"
    using of' nos a assms(1,5) by (simp add: upto_snoc attempts_ok_def)
  moreover have "\<forall>b \<in> set (attempts_of (s_step_id new) ats').
        (at_outcome b = None \<longleftrightarrow> attempt_open (s_status new) \<and> at_attempt_no b = s_attempt_count new)
      \<and> (s_status new = StepStatusRunning \<and> at_attempt_no b = s_attempt_count new \<longrightarrow>
           s_claim_id new = Some (at_claim_id b))"
    using of' a old assms(5,6) by (fastforce simp: attempt_open_def)
  ultimately show ?thesis using assms(1,5) by (simp add: attempts_ok_def)
qed

lemma attempts_ok_close:
  assumes "attempts_ok ats old" and "closes_attempt old ats ats'" and "\<not> attempt_open (s_status new)"
    and "s_step_id new = s_step_id old" and "s_attempt_count new = s_attempt_count old"
  shows "attempts_ok ats' new"
proof -
  from assms(2) obtain out err usage verdict repair now where
    "ats' = map (\<lambda>a. if at_step_id a = s_step_id old \<and> at_attempt_no a = s_attempt_count old
                     then close_attempt out err usage verdict repair now a else a) ats"
    unfolding closes_attempt_def by blast
  then have ats': "attempts_of (s_step_id new) ats' =
      map (\<lambda>a. if at_attempt_no a = s_attempt_count old then close_attempt out err usage verdict repair now a else a)
        (attempts_of (s_step_id old) ats)"
    using assms(4) by (simp only: attempts_of_closed)
  have nos: "map at_attempt_no (attempts_of (s_step_id new) ats') = map at_attempt_no (attempts_of (s_step_id old) ats)"
    unfolding ats' by (simp add: close_attempt_def)
  have closed: "at_outcome b \<noteq> None" if "b \<in> set (attempts_of (s_step_id new) ats')" for b
  proof -
    from that obtain a where a: "a \<in> set (attempts_of (s_step_id old) ats)"
      and b: "b = (if at_attempt_no a = s_attempt_count old
                   then close_attempt out err usage verdict repair now a else a)"
      unfolding ats' by auto
    show ?thesis
      using a b assms(1) by (cases "at_attempt_no a = s_attempt_count old") (auto simp: close_attempt_def attempts_ok_def)
  qed
  have notrun: "s_status new \<noteq> StepStatusRunning" using assms(3) by (simp add: attempt_open_def)
  have "0 \<le> s_attempt_count old \<and> map at_attempt_no (attempts_of (s_step_id old) ats) = [1..s_attempt_count old]"
    using assms(1) by (simp add: attempts_ok_def)
  then show ?thesis
    unfolding attempts_ok_def using closed notrun assms(3,5) nos by simp
qed

lemma step_edge_to_running: "step_edge a StepStatusRunning \<Longrightarrow> \<not> attempt_open a"
  by (cases a) (auto simp: step_edge_def attempt_open_def)

lemma step_edge_attempt:
  "step_edge a b \<Longrightarrow> b \<noteq> StepStatusRunning \<Longrightarrow> attempt_open b \<Longrightarrow> attempt_open a"
  by (cases a) (auto simp: step_edge_def attempt_open_def)

lemma attempts_ok_step:
  assumes "attempts_ok ats old" and "row_move old new" and "attempts_move old new ats ats'"
  shows "attempts_ok ats' new"
proof -
  have edge: "step_edge (s_status old) (s_status new)" and same: "s_step_id new = s_step_id old"
    and count: "s_attempt_count new = s_attempt_count old + (if s_status new = StepStatusRunning then 1 else 0)"
    using assms(2) by (auto simp: row_move_def same_step_identity_def)
  consider (run) "s_status new = StepStatusRunning"
    | (close) "s_status new \<noteq> StepStatusRunning" "attempt_open (s_status old)" "\<not> attempt_open (s_status new)"
    | (keep) "s_status new \<noteq> StepStatusRunning" "attempt_open (s_status old) = attempt_open (s_status new)"
    using step_edge_attempt [OF edge] by blast
  then show ?thesis
  proof cases
    case run
    have "\<not> attempt_open (s_status old)" using edge step_edge_to_running unfolding run by blast
    moreover have "opens_attempt new ats ats'" using assms(3) run by (simp add: attempts_move_def)
    moreover have "s_attempt_count new = s_attempt_count old + 1" using count run by simp
    ultimately show ?thesis using assms(1) same run by (rule_tac attempts_ok_open)
  next
    case close
    have "closes_attempt old ats ats'" using assms(3) close by (simp add: attempts_move_def)
    moreover have "s_attempt_count new = s_attempt_count old" using count close by simp
    ultimately show ?thesis using assms(1) same close by (rule_tac attempts_ok_close)
  next
    case keep
    have "ats' = ats" using assms(3) keep by (auto simp: attempts_move_def)
    moreover have "s_attempt_count new = s_attempt_count old" using count keep by simp
    ultimately show ?thesis using assms(1) same keep unfolding attempts_ok_def by simp
  qed
qed

lemma next_dead_letter_seq_ok:
  assumes "map dl_seq (dead_letters_of sid (dead_letters db)) = [1..int (length (dead_letters_of sid (dead_letters db)))]"
  shows "next_dead_letter_seq sid db = int (length (dead_letters_of sid (dead_letters db))) + 1"
  using assms fold_max_upto [of "int (length (dead_letters_of sid (dead_letters db)))"]
  by (simp add: next_dead_letter_seq_def dead_letters_of_def)

lemma dead_letters_of_other:
  assumes "dead_letters_move new db db'" and "sid \<noteq> s_step_id new"
  shows "dead_letters_of sid (dead_letters db') = dead_letters_of sid (dead_letters db)"
  using assms by (auto simp: dead_letters_move_def dead_letters_of_def split: if_splits)

lemma dead_letters_ok_step:
  assumes ok: "dead_letters_ok (dead_letters db) old" and move: "dead_letters_move new db db'"
    and same: "s_step_id new = s_step_id old" and count: "s_attempt_count old \<le> s_attempt_count new"
  shows "dead_letters_ok (dead_letters db') new"
proof (cases "s_status new = StepStatusDeadLettered")
  case False
  then have "dead_letters db' = dead_letters db" using move by (simp add: dead_letters_move_def)
  with ok same count False show ?thesis by (auto simp: dead_letters_ok_def)
next
  case True
  let ?of = "dead_letters_of (s_step_id old) (dead_letters db)"
  from True move obtain d where d: "dead_letters db' = dead_letters db @ [d]" "dl_step_id d = s_step_id new"
    "dl_seq d = next_dead_letter_seq (s_step_id new) db" "dl_attempts_at_death d = s_attempt_count new"
    by (auto simp: dead_letters_move_def)
  have of': "dead_letters_of (s_step_id new) (dead_letters db') = ?of @ [d]"
    using d same by (simp add: dead_letters_of_def)
  have seqs: "map dl_seq ?of = [1..int (length ?of)]" using ok by (simp add: dead_letters_ok_def)
  then have "dl_seq d = int (length ?of) + 1" using d(3) same next_dead_letter_seq_ok by simp
  then have "map dl_seq (?of @ [d]) = [1..int (length (?of @ [d]))]"
    using seqs upto_snoc [of 1 "int (length ?of)"] by (simp add: add.commute)
  moreover have "\<forall>e \<in> set ?of. dl_attempts_at_death e \<le> s_attempt_count new"
    using ok count by (auto simp: dead_letters_ok_def)
  ultimately show ?thesis unfolding dead_letters_ok_def of' using d(4) by simp
qed

lemma step_row_ok_step: "row_move old new \<Longrightarrow> step_row_ok new"
  by (cases "s_status old") (auto simp: row_move_def step_edge_def step_row_ok_def)

lemma deps_ok_step: "deps_ok es old \<Longrightarrow> row_move old new \<Longrightarrow> deps_ok es new"
  by (simp add: deps_ok_def row_move_def same_step_identity_def)

lemma steps_inv_step:
  assumes inv: "steps_inv db" and move: "step_move old new db db'"
  shows "steps_inv db'"
proof -
  have row: "row_move old new" and steps': "steps db' = replace_row s_step_id (s_step_id old) new (steps db)"
    and ats: "attempts_move old new (attempts db) (attempts db')" and dls: "dead_letters_move new db db'"
    and edges': "edges db' = edges db" and old: "old \<in> set (steps db)"
    using move getRunStep_in_steps by (auto simp: step_move_def)
  have same: "s_step_id new = s_step_id old" and count: "s_attempt_count old \<le> s_attempt_count new"
    using row by (simp_all add: row_move_def same_step_identity_def)
  have rows: "step_row_ok s \<and> deps_ok (edges db) s \<and> attempts_ok (attempts db) s \<and> dead_letters_ok (dead_letters db) s"
    if "s \<in> set (steps db)" for s
    using inv that by (simp add: steps_inv_def)
  have new: "step_row_ok new \<and> deps_ok (edges db') new \<and> attempts_ok (attempts db') new
      \<and> dead_letters_ok (dead_letters db') new"
    unfolding edges' using rows [OF old] row ats dls same count
    by (blast intro: step_row_ok_step deps_ok_step attempts_ok_step dead_letters_ok_step)
  have other: "step_row_ok s \<and> deps_ok (edges db') s \<and> attempts_ok (attempts db') s \<and> dead_letters_ok (dead_letters db') s"
    if "s \<in> set (steps db)" "s_step_id s \<noteq> s_step_id old" for s
    using rows [OF that(1)] attempts_of_other [OF ats same that(2)] dead_letters_of_other [OF dls] that(2) same
    by (simp add: edges' attempts_ok_def dead_letters_ok_def)
  have "distinct (map s_step_id (steps db'))"
    unfolding steps' using inv same by (simp add: step_rows.replace_row_distinct steps_inv_def)
  then show ?thesis
    unfolding steps_inv_def using new other step_rows.in_replace_rowD unfolding steps' by blast
qed

lemma run_succeeded_ok_step:
  assumes "run_succeeded_ok r ss" and "old \<in> set ss" and "row_move old new" and "r_status r' = r_status r"
  shows "run_succeeded_ok r' (replace_row s_step_id (s_step_id old) new ss)"
proof (cases "r_status r = RunStatusSucceeded")
  case True
  with assms(1,2) have "s_status old \<in> {StepStatusSucceeded, StepStatusSkipped, StepStatusCollected}"
    by (simp add: run_succeeded_ok_def)
  with assms(3) show ?thesis by (auto simp: row_move_def step_edge_def)
qed (simp add: run_succeeded_ok_def assms(4))

lemma run_inv_step:
  assumes inv: "run_inv db" "steps_inv db" and move: "step_move old new db db'"
  shows "run_inv db'"
proof -
  obtain r r' where run: "run db = Some r" "run db' = Some r'"
    and shift: "counters_shift (class_delta (s_status old) (s_status new)) r r'"
    and same: "same_run_identity r r'" "same_run_state r r'" and log: "log_move db db'"
    and steps': "steps db' = replace_row s_step_id (s_step_id old) new (steps db)"
    and row: "row_move old new" and old: "old \<in> set (steps db)"
    using move getRunStep_in_steps by (auto simp: step_move_def)
  have ok: "counters_ok r (steps db)" "log_ok r (events db)" "run_state_ok r" "run_succeeded_ok r (steps db)"
    using inv(1) run(1) by (simp_all add: run_inv_def)
  have "counters_ok r' (steps db')"
    unfolding steps' using ok(1) inv(2) old shift same(1)
    by (intro counters_ok_step) (simp_all add: steps_inv_def same_run_identity_def)
  moreover have "log_ok r' (events db')" by (rule log_move_log_ok [OF log run ok(2)])
  moreover have "run_state_ok r'" using ok(3) same(2) by (simp add: run_state_ok_def same_run_state_def)
  moreover have "run_succeeded_ok r' (steps db')"
    unfolding steps' using ok(4) old row same(2) by (intro run_succeeded_ok_step) (simp_all add: same_run_state_def)
  ultimately show ?thesis by (simp add: run_inv_def run(2))
qed

lemma approvals_ok_move:
  assumes "approvals_move db db'" and "approvals_ok (approvals db)"
  shows "approvals_ok (approvals db')"
proof -
  consider (same) "approvals db' = approvals db"
    | (insert) a where "approvals db' = approvals db @ [a]" "ap_id a \<notin> ap_id ` set (approvals db)"
        "\<forall>b \<in> set (approvals db). ap_step_id b = ap_step_id a \<longrightarrow> ap_status b \<noteq> ApprovalStatusPending"
    | (update) a a' where "a \<in> set (approvals db)" "ap_status a = ApprovalStatusPending"
        "ap_id a' = ap_id a" "ap_step_id a' = ap_step_id a"
        "approvals db' = replace_row ap_id (ap_id a) a' (approvals db)"
    using assms(1) unfolding approvals_move_def by blast
  then show ?thesis
  proof cases
    case same
    with assms(2) show ?thesis by simp
  next
    case insert
    have "set (approvals db') = insert a (set (approvals db))" using insert(1) by simp
    moreover have "distinct (map ap_id (approvals db'))"
      using assms(2) insert(1,2) by (simp add: approvals_ok_def)
    ultimately show ?thesis using assms(2) insert(3) unfolding approvals_ok_def by (metis insert_iff)
  next
    case update
    have "distinct (map ap_id (approvals db'))"
      using assms(2) update(3,5) by (simp add: approvals_ok_def approval_rows.replace_row_distinct)
    moreover have "ap_id x = ap_id y"
      if "x \<in> set (approvals db')" "y \<in> set (approvals db')" "ap_status x = ApprovalStatusPending"
        "ap_status y = ApprovalStatusPending" "ap_step_id x = ap_step_id y" for x y
    proof -
      have orig: "\<exists>o' \<in> set (approvals db). ap_id o' = ap_id z \<and> ap_step_id o' = ap_step_id z
          \<and> ap_status o' = ApprovalStatusPending"
        if "z \<in> set (approvals db')" "ap_status z = ApprovalStatusPending" for z
        using approval_rows.in_replace_rowD [of z "ap_id a" a' "approvals db"] that update by metis
      from orig [OF that(1,3)] orig [OF that(2,4)] that(5) assms(2) show ?thesis
        unfolding approvals_ok_def by metis
    qed
    ultimately show ?thesis unfolding approvals_ok_def by blast
  qed
qed

lemma edges_ok_steps:
  "map s_step_id ss' = map s_step_id ss \<Longrightarrow> edges_ok ss es \<Longrightarrow> edges_ok ss' es"
  unfolding edges_ok_def by (metis list.set_map)

lemma db_inv_step:
  assumes "db_inv db" and "step_move old new db db'"
  shows "db_inv db'"
proof -
  have "map s_step_id (steps db') = map s_step_id (steps db)" "edges db' = edges db" "approvals_move db db'"
    using assms(2) by (simp_all add: step_move_def row_move_def same_step_identity_def step_rows.replace_row_keys)
  with assms show ?thesis
    unfolding db_inv_def
    by (metis steps_inv_step run_inv_step edges_ok_steps approvals_ok_move)
qed

section \<open>An edge move\<close>

lemma in_edges_replace:
  assumes "distinct (map e_ordinal es)" and "e \<in> set es"
  shows "in_edges sid res (replace_row e_ordinal (e_ordinal e) (e\<lparr>e_resolution := r'\<rparr>) es) =
         in_edges sid res es
         - (if e_to_step e = sid \<and> e_edge_type e = EdgeTypeNormal \<and> e_resolution e = res then 1 else 0)
         + (if e_to_step e = sid \<and> e_edge_type e = EdgeTypeNormal \<and> r' = res then 1 else 0)"
  using edge_rows.count_replace_row [OF assms refl] by (simp add: in_edges_def)

lemma deps_ok_edge:
  assumes "distinct (map e_ordinal es)" and "e \<in> set es" and "e_edge_type e = EdgeTypeNormal"
    and "e_resolution e = EdgeResolutionUnresolved" and "res \<noteq> EdgeResolutionUnresolved"
    and "deps_ok es s"
    and "s' = (if s_step_id s = e_to_step e
               then s\<lparr>s_remaining_deps := s_remaining_deps s - 1,
                      s_fired_deps := s_fired_deps s + (if res = EdgeResolutionFired then 1 else 0),
                      s_updated_at := now\<rparr>
               else s)"
  shows "deps_ok (replace_row e_ordinal (e_ordinal e) (e\<lparr>e_resolution := res\<rparr>) es) s'"
  using assms by (auto simp: deps_ok_def in_edges_replace)

lemma edges_ok_resolve:
  assumes "edges_ok ss es" and "e \<in> set es" and "e_edge_type e = EdgeTypeNormal"
  shows "edges_ok ss (replace_row e_ordinal (e_ordinal e) (e\<lparr>e_resolution := res\<rparr>) es)"
proof -
  have "x = e\<lparr>e_resolution := res\<rparr> \<or> x \<in> set es"
    if "x \<in> set (replace_row e_ordinal (e_ordinal e) (e\<lparr>e_resolution := res\<rparr>) es)" for x
    using edge_rows.in_replace_rowD [OF that] by blast
  moreover have "e_from_step (e\<lparr>e_resolution := res\<rparr>) = e_from_step e" "e_to_step (e\<lparr>e_resolution := res\<rparr>) = e_to_step e"
    "e_edge_type (e\<lparr>e_resolution := res\<rparr>) \<noteq> EdgeTypeLoop"
    using assms(3) by simp_all
  moreover have "distinct (map e_ordinal (replace_row e_ordinal (e_ordinal e) (e\<lparr>e_resolution := res\<rparr>) es))"
    using assms(1) by (simp add: edges_ok_def edge_rows.replace_row_distinct)
  ultimately show ?thesis using assms(1,2) unfolding edges_ok_def by metis
qed

text \<open>A row whose identity, status and attempt bookkeeping are kept satisfies the same row invariants.\<close>

lemma row_invs_cong:
  assumes "s_step_id s' = s_step_id s" "s_status s' = s_status s" "s_attempt_count s' = s_attempt_count s"
    "s_claim_id s' = s_claim_id s" "s_next_attempt_at s' = s_next_attempt_at s"
  shows "step_row_ok s' = step_row_ok s" "attempts_ok ats s' = attempts_ok ats s"
    "dead_letters_ok dls s' = dead_letters_ok dls s"
  using assms by (simp_all add: step_row_ok_def attempts_ok_def dead_letters_ok_def)

lemma db_inv_edge:
  assumes inv: "db_inv db" and move: "edge_move e res db db'"
  shows "db_inv db'"
proof -
  obtain old now where e: "getRunEdge (e_ordinal e) db = Some e" "e_edge_type e = EdgeTypeNormal"
      "e_resolution e = EdgeResolutionUnresolved" "res \<noteq> EdgeResolutionUnresolved"
    and old: "getRunStep (e_to_step e) db = Some old"
    and db': "db' = db\<lparr>edges := replace_row e_ordinal (e_ordinal e) (e\<lparr>e_resolution := res\<rparr>) (edges db),
                   steps := replace_row s_step_id (e_to_step e)
                     (old\<lparr>s_remaining_deps := s_remaining_deps old - 1,
                          s_fired_deps := s_fired_deps old + (if res = EdgeResolutionFired then 1 else 0),
                          s_updated_at := now\<rparr>) (steps db)\<rparr>"
    using move unfolding edge_move_def by blast
  let ?new = "old\<lparr>s_remaining_deps := s_remaining_deps old - 1,
      s_fired_deps := s_fired_deps old + (if res = EdgeResolutionFired then 1 else 0), s_updated_at := now\<rparr>"
  have e_in: "e \<in> set (edges db)" using e(1) by (auto simp: getRunEdge_def dest: edge_rows.row_at_SomeD)
  have old_in: "old \<in> set (steps db)" "s_step_id old = e_to_step e"
    using old getRunStep_in_steps getRunStep_id by blast+
  have parts: "steps_inv db" "run_inv db" "edges_ok (steps db) (edges db)" "approvals_ok (approvals db)"
    using inv by (simp_all add: db_inv_def)
  have keys: "map s_step_id (steps db') = map s_step_id (steps db)"
    using old_in by (simp add: db' step_rows.replace_row_keys)
  have deps: "deps_ok (edges db') s'"
    if "deps_ok (edges db) s" "s' = (if s_step_id s = e_to_step e
               then s\<lparr>s_remaining_deps := s_remaining_deps s - 1,
                      s_fired_deps := s_fired_deps s + (if res = EdgeResolutionFired then 1 else 0),
                      s_updated_at := now\<rparr> else s)" for s s'
    using deps_ok_edge [OF _ e_in e(2,3,4) that] parts(3) by (simp add: db' edges_ok_def)
  have rows: "step_row_ok s \<and> deps_ok (edges db') s \<and> attempts_ok (attempts db') s \<and> dead_letters_ok (dead_letters db') s"
    if s: "s \<in> set (steps db')" for s
  proof (cases "s = ?new")
    case True
    have "deps_ok (edges db') ?new" using parts(1) old_in by (intro deps [of old]) (simp_all add: steps_inv_def)
    with True parts(1) old_in show ?thesis
      by (simp add: db' steps_inv_def row_invs_cong [of ?new old])
  next
    case False
    have "s \<in> set (replace_row s_step_id (e_to_step e) ?new (steps db))" using s by (simp add: db')
    then have "s \<in> set (steps db)" "s_step_id s \<noteq> e_to_step e"
      using step_rows.in_replace_rowD [of s] False by blast+
    with deps [of s s] parts(1) show ?thesis by (simp add: db' steps_inv_def)
  qed
  have steps': "steps_inv db'" unfolding steps_inv_def using rows keys parts(1) by (simp add: steps_inv_def)
  have "status_count st (steps db') = status_count st (steps db)" for st
    using status_count_replace [of "steps db" old st ?new] parts(1) old_in by (simp add: db' steps_inv_def)
  moreover have "run_succeeded_ok r (steps db')" if "run_succeeded_ok r (steps db)" for r
  proof -
    have "\<exists>o' \<in> set (steps db). s_status o' = s_status s" if "s \<in> set (steps db')" for s
    proof -
      have "s \<in> set (replace_row s_step_id (e_to_step e) ?new (steps db))" using that by (simp add: db')
      then have "s = ?new \<or> s \<in> set (steps db)" using step_rows.in_replace_rowD [of s] by blast
      then show ?thesis using old_in(1) by (metis step_row.select_convs(4) step_row.surjective step_row.update_convs(5,6,12))
    qed
    with that show ?thesis unfolding run_succeeded_ok_def by metis
  qed
  moreover have "run db' = run db" "events db' = events db" "length (steps db') = length (steps db)"
    by (simp_all add: db')
  ultimately have "run_inv db'"
    using parts(2) unfolding run_inv_def counters_ok_def by (cases "run db") simp_all
  moreover have "edges_ok (steps db') (edges db')"
    using edges_ok_steps [OF keys edges_ok_resolve [OF parts(3) e_in e(2)]] by (simp add: db')
  moreover have "approvals db' = approvals db" by (simp add: db')
  ultimately show ?thesis using steps' parts(4) unfolding db_inv_def by simp
qed

section \<open>Run and side moves\<close>

lemma status_counts_cover:
  assumes "status_count StepStatusSucceeded ss + status_count StepStatusSkipped ss
           + status_count StepStatusCollected ss = int (length ss)"
  shows "\<forall>s \<in> set ss. s_status s \<in> {StepStatusSucceeded, StepStatusSkipped, StepStatusCollected}"
proof -
  let ?P = "\<lambda>s. s_status s \<in> {StepStatusSucceeded, StepStatusSkipped, StepStatusCollected}"
  have "status_count StepStatusSucceeded ss + status_count StepStatusSkipped ss
      + status_count StepStatusCollected ss = int (length (filter ?P ss))"
    by (induction ss) (simp_all add: status_count_def)
  with assms have "length (filter ?P ss) = length ss" by simp
  then show ?thesis by (metis length_filter_less less_irrefl)
qed

lemma counters_ok_cong:
  "counters_shift no_delta r r' \<Longrightarrow> same_run_identity r r' \<Longrightarrow> counters_ok r ss \<Longrightarrow> counters_ok r' ss"
  by (simp add: counters_shift_def no_delta_def same_run_identity_def counters_ok_def)

lemma run_succeeded_ok_run:
  assumes "counters_ok r ss" and "run_succeeded_ok r ss"
    and "r_status r' = r_status r \<or> run_edge (r_status r) (r_status r') \<and> run_settles r r'"
  shows "run_succeeded_ok r' ss"
proof (cases "r_status r' = RunStatusSucceeded \<and> r_status r \<noteq> RunStatusSucceeded")
  case True
  with assms(3) have "run_settles r r'" by auto
  with True assms(1) have "status_count StepStatusSucceeded ss + status_count StepStatusSkipped ss
           + status_count StepStatusCollected ss = int (length ss)"
    by (simp add: run_settles_def counters_ok_def)
  then show ?thesis using status_counts_cover unfolding run_succeeded_ok_def by blast
next
  case False
  then show ?thesis using assms(2) unfolding run_succeeded_ok_def by blast
qed

lemma db_inv_run:
  assumes inv: "db_inv db" and move: "run_move db db'"
  shows "db_inv db'"
proof -
  have tables: "steps db' = steps db" "edges db' = edges db" "attempts db' = attempts db"
    "dead_letters db' = dead_letters db" "approvals db' = approvals db" and log: "log_move db db'"
    using move unfolding run_move_def by blast+
  obtain r r' where run: "run db = Some r" "run db' = Some r'"
    and st: "r_status r' = r_status r \<or> run_edge (r_status r) (r_status r') \<and> run_settles r r'"
    and ok: "run_state_ok r \<longrightarrow> run_state_ok r'"
    and same: "counters_shift no_delta r r'" "same_run_identity r r'"
    using move unfolding run_move_def by blast
  have old: "counters_ok r (steps db)" "log_ok r (events db)" "run_state_ok r" "run_succeeded_ok r (steps db)"
    using inv run(1) by (simp_all add: db_inv_def run_inv_def)
  have "run_inv db'"
    using counters_ok_cong [OF same old(1)] log_move_log_ok [OF log run old(2)] ok old(3)
      run_succeeded_ok_run [OF old(1,4) st]
    by (simp add: run_inv_def run(2) tables)
  with inv show ?thesis by (simp add: db_inv_def steps_inv_def tables)
qed

lemma db_inv_side:
  assumes inv: "db_inv db" and move: "side_move db db'"
  shows "db_inv db'"
proof -
  have tables: "steps db' = steps db" "edges db' = edges db" "attempts db' = attempts db"
    "dead_letters db' = dead_letters db" and aps: "approvals_move db db'"
    using move unfolding side_move_def by blast+
  have "run_inv db'"
  proof (cases "run db' = run db \<and> events db' = events db")
    case True
    with inv show ?thesis by (cases "run db") (simp_all add: db_inv_def run_inv_def tables)
  next
    case False
    then obtain r r' where log: "log_move db db'" and run: "run db = Some r" "run db' = Some r'"
      and same: "counters_shift no_delta r r'" "same_run_identity r r'" "same_run_state r r'"
      using move unfolding side_move_def by blast
    have old: "counters_ok r (steps db)" "log_ok r (events db)" "run_state_ok r" "run_succeeded_ok r (steps db)"
      using inv run(1) by (simp_all add: db_inv_def run_inv_def)
    have "run_state_ok r'" "r_status r' = r_status r"
      using old(3) same(3) by (simp_all add: run_state_ok_def same_run_state_def)
    then show ?thesis
      using counters_ok_cong [OF same(1,2) old(1)] log_move_log_ok [OF log run old(2)]
        run_succeeded_ok_run [OF old(1,4)]
      by (simp add: run_inv_def run(2) tables)
  qed
  with inv show ?thesis
    using approvals_ok_move [OF aps] by (simp add: db_inv_def steps_inv_def tables)
qed

section \<open>Invariants of the store\<close>

text \<open>
  What the clients of the store rely on: a property of the tables that each kind of move
  keeps holds after every operation.
\<close>

locale store_invariant =
  fixes I :: "rundb \<Rightarrow> bool"
  assumes step_keeps: "I db \<Longrightarrow> step_move old new db db' \<Longrightarrow> I db'"
    and edge_keeps: "I db \<Longrightarrow> edge_move e res db db' \<Longrightarrow> I db'"
    and run_keeps: "I db \<Longrightarrow> run_move db db' \<Longrightarrow> I db'"
    and side_keeps: "I db \<Longrightarrow> side_move db db' \<Longrightarrow> I db'"
begin

lemma move_keeps: "store_move db db' \<Longrightarrow> I db \<Longrightarrow> I db'"
  by (induction rule: store_move.induct) (blast intro: step_keeps edge_keeps run_keeps side_keeps)+

lemma moves_keep: "rtranclp store_move db db' \<Longrightarrow> I db \<Longrightarrow> I db'"
  by (induction rule: rtranclp_induct) (blast intro: move_keeps)+

lemma refines_keeps: "refines res db \<Longrightarrow> res = Inr (x, db') \<Longrightarrow> I db \<Longrightarrow> I db'"
  unfolding refines_def using moves_keep by blast

end

interpretation db_inv: store_invariant db_inv
  by unfold_locales (rule db_inv_step db_inv_edge db_inv_run db_inv_side; assumption)+

end
