(* ===== verification/Store_Ops.thy ===== *)
theory Store_Ops
  imports Store_Invariants
begin

text \<open>
  The store as a state machine: one step of \<open>store_op\<close> is one successful call of an
  exported transition, whatever its arguments, in any order.  A call that returns an
  error changes nothing (\<open>withTx\<close> keeps the tables), so sequences of \<open>store_op\<close> are all
  the histories a run's tables can have between its creation and now, in the order in
  which the run's row lock serialised the transactions.
\<close>

section \<open>All operations\<close>

inductive store_op :: "rundb \<Rightarrow> rundb \<Rightarrow> bool" where
  ClaimStep: "ClaimStep sid worker span now fresh db = Inr (x, db') \<Longrightarrow> store_op db db'"
| TakeoverStep: "TakeoverStep sid c now db = Inr (x, db') \<Longrightarrow> store_op db db'"
| SucceedStep: "SucceedStep sid c out usage verdict repair now db = Inr (x, db') \<Longrightarrow> store_op db db'"
| DeadLetterStep: "DeadLetterStep sid c src outcome err usage verdict repair now db = Inr (x, db') \<Longrightarrow> store_op db db'"
| CollectFailStep: "CollectFailStep sid c outcome out err usage now db = Inr (x, db') \<Longrightarrow> store_op db db'"
| PoisonDeadLetterStep: "PoisonDeadLetterStep sid err payload now db = Inr (x, db') \<Longrightarrow> store_op db db'"
| CancelStep: "CancelStep sid creason now db = Inr (x, db') \<Longrightarrow> store_op db db'"
| CancelRunningStep: "CancelRunningStep sid c creason err now db = Inr (x, db') \<Longrightarrow> store_op db db'"
| RequeueStep: "RequeueStep sid now db = Inr (x, db') \<Longrightarrow> store_op db db'"
| ReviveStep: "ReviveStep sid oreason now db = Inr (x, db') \<Longrightarrow> store_op db db'"
| RetryStep: "RetryStep sid c outcome err usage next now db = Inr (x, db') \<Longrightarrow> store_op db db'"
| ThrottleStep: "ThrottleStep sid c resource bucket after next now db = Inr (x, db') \<Longrightarrow> store_op db db'"
| SemanticRetryStep: "SemanticRetryStep sid c err usage verdict repair feedback k m n next now db = Inr (x, db') \<Longrightarrow> store_op db db'"
| ReadyStep: "ReadyStep sid join_any now db = Inr (x, db') \<Longrightarrow> store_op db db'"
| SkipStep: "SkipStep sid now db = Inr (x, db') \<Longrightarrow> store_op db db'"
| AwaitHumanStep: "AwaitHumanStep sid c q now db = Inr (x, db') \<Longrightarrow> store_op db db'"
| SucceedAwaitingHumanStep: "SucceedAwaitingHumanStep sid out now db = Inr (x, db') \<Longrightarrow> store_op db db'"
| DeadLetterAwaitingHumanStep: "DeadLetterAwaitingHumanStep sid err now db = Inr (x, db') \<Longrightarrow> store_op db db'"
| SucceedRun: "SucceedRun now db = Inr (x, db') \<Longrightarrow> store_op db db'"
| FailRun: "FailRun now db = Inr (x, db') \<Longrightarrow> store_op db db'"
| FailRunRollup: "FailRunRollup now db = Inr (x, db') \<Longrightarrow> store_op db db'"
| ResumeRun: "ResumeRun now db = Inr (x, db') \<Longrightarrow> store_op db db'"
| ParkRun: "ParkRun preason now db = Inr (x, db') \<Longrightarrow> store_op db db'"
| UnparkRun: "UnparkRun now db = Inr (x, db') \<Longrightarrow> store_op db db'"
| CancelRun: "CancelRun rreason now db = Inr (x, db') \<Longrightarrow> store_op db db'"
| CancelRunRollup: "CancelRunRollup now db = Inr (x, db') \<Longrightarrow> store_op db db'"
| SetRunBudget: "SetRunBudget budget now db = Inr (x, db') \<Longrightarrow> store_op db db'"
| BudgetParkStep: "BudgetParkStep sid c bev now db = Inr (x, db') \<Longrightarrow> store_op db db'"
| CancelAwaitingHumanStep: "CancelAwaitingHumanStep sid creason now db = Inr (x, db') \<Longrightarrow> store_op db db'"
| DecideApproval: "DecideApproval i sid k st dec expired timeout edited comment by src now db = Inr (x, db') \<Longrightarrow> store_op db db'"
| ExpireApprovalPark: "ExpireApprovalPark i sid k timeout now db = Inr (x, db') \<Longrightarrow> store_op db db'"
| ResolveEdge: "ResolveEdge ord fired now db = Inr (x, db') \<Longrightarrow> store_op db db'"
| RecordApprovalNotification: "RecordApprovalNotification msg now db = Inr (x, db') \<Longrightarrow> store_op db db'"
| RecordModelDowngrade: "RecordModelDowngrade sid c mev now db = Inr (x, db') \<Longrightarrow> store_op db db'"
| RecordLoopExhausted: "RecordLoopExhausted msg now db = Inr (x, db') \<Longrightarrow> store_op db db'"
| RecordLoopNoProgress: "RecordLoopNoProgress msg now db = Inr (x, db') \<Longrightarrow> store_op db db'"
| RecordGuardTripped: "RecordGuardTripped msg now db = Inr (x, db') \<Longrightarrow> store_op db db'"
| OutboxTask: "store_op db (createOutboxTask sid reason tr db)"

text \<open>Every operation as a refinement of moves.\<close>

lemmas all_refine =
  refines_step_refines [OF ClaimStep_refines]
  refines_step_refines [OF TakeoverStep_refines]
  refines_step_refines [OF SucceedStep_refines]
  refines_step_refines [OF DeadLetterStep_refines]
  refines_step_refines [OF CollectFailStep_refines]
  refines_step_refines [OF PoisonDeadLetterStep_refines]
  refines_step_refines [OF CancelStep_refines]
  refines_step_refines [OF CancelRunningStep_refines]
  refines_step_refines [OF RequeueStep_refines]
  refines_step_refines [OF ReviveStep_refines]
  refines_step_refines [OF RetryStep_refines]
  refines_step_refines [OF ThrottleStep_refines]
  refines_step_refines [OF SemanticRetryStep_refines]
  refines_step_refines [OF ReadyStep_refines]
  refines_step_refines [OF SkipStep_refines]
  refines_step_refines [OF AwaitHumanStep_refines]
  refines_step_refines [OF SucceedAwaitingHumanStep_refines]
  refines_step_refines [OF DeadLetterAwaitingHumanStep_refines]
  refines_run_refines [OF SucceedRun_refines]
  refines_run_refines [OF FailRun_refines]
  refines_run_refines [OF FailRunRollup_refines]
  refines_run_refines [OF ResumeRun_refines]
  refines_run_refines [OF ParkRun_refines]
  refines_run_refines [OF UnparkRun_refines]
  refines_run_refines [OF CancelRun_refines]
  refines_run_refines [OF CancelRunRollup_refines]
  refines_run_refines [OF SetRunBudget_refines]
  BudgetParkStep_refines
  CancelAwaitingHumanStep_refines
  DecideApproval_refines
  ExpireApprovalPark_refines
  ResolveEdge_refines
  RecordApprovalNotification_refines
  RecordModelDowngrade_refines
  RecordLoopExhausted_refines
  RecordLoopNoProgress_refines
  RecordGuardTripped_refines

lemma refinesD: "refines res db \<Longrightarrow> res = Inr (x, db') \<Longrightarrow> rtranclp store_move db db'"
  unfolding refines_def by blast

lemma store_op_moves: "store_op db db' \<Longrightarrow> rtranclp store_move db db'"
  by (induction rule: store_op.induct)
     ((erule refinesD [rotated], rule all_refine) | rule createOutboxTask_refines)+

lemma store_ops_moves: "rtranclp store_op db db' \<Longrightarrow> rtranclp store_move db db'"
  by (induction rule: rtranclp_induct) (auto intro: store_op_moves rtranclp_trans)

section \<open>A two-step run\<close>

text \<open>
  A run of two steps \<^verbatim>\<open>a\<close> and \<^verbatim>\<open>b\<close> with the edge from \<^verbatim>\<open>a\<close> to \<^verbatim>\<open>b\<close>, as instantiation leaves
  it; the concrete input of the witnesses.
\<close>

definition no_trace :: trace_context where
  "no_trace = \<lparr>tc_parent = None, tc_state = None\<rparr>"

definition sample_run :: run_row where
  "sample_run = \<lparr>r_status = RunStatusRunning, r_params = None, r_graph_version = 1, r_next_seq = 2,
     r_steps_total = 2, r_steps_succeeded = 0, r_steps_failed = 0, r_steps_skipped = 0,
     r_steps_cancelled = 0, r_steps_collected = 0, r_started_at = Some 100, r_finished_at = None,
     r_on_failure = FailFast, r_park_reason = None, r_cancel_reason = None, r_deadline_at = None,
     r_trace = no_trace, r_spent_nano_usd = 0, r_saved_nano_usd = 0, r_budget_nano_usd = None,
     r_on_budget_exceeded = BudgetPark\<rparr>"

definition sample_step :: "step_id \<Rightarrow> step_status \<Rightarrow> int \<Rightarrow> step_row" where
  "sample_step sid st deps = \<lparr>s_step_id = sid, s_step_type = StepNoop, s_config = NoConfig, s_status = st,
     s_remaining_deps = deps, s_fired_deps = 0, s_claim_id = None, s_attempt_count = 0, s_output = None,
     s_error = None, s_graph_version = 1, s_updated_at = 100, s_started_at = None, s_finished_at = None,
     s_retry_policy = None, s_next_attempt_at = None, s_timeout = None, s_trace_span = None,
     s_feedback = None, s_depth = 0, s_origin_step = None, s_origin_kind = None\<rparr>"

definition sample_edge :: edge_row where
  "sample_edge = \<lparr>e_ordinal = 0, e_from_step = ''a'', e_to_step = ''b'', e_edge_type = EdgeTypeNormal,
     e_when_expr = None, e_condition = None, e_max_iterations = None,
     e_resolution = EdgeResolutionUnresolved, e_graph_version = 1, e_decision = None\<rparr>"

definition sample_db :: rundb where
  "sample_db = \<lparr>run = Some sample_run,
     steps = [sample_step ''a'' StepStatusReady 0, sample_step ''b'' StepStatusPending 1],
     edges = [sample_edge], attempts = [],
     events = [\<lparr>ev_seq = 1, ev_payload = EvRunCreated ''w'' [] 2\<rparr>, \<lparr>ev_seq = 2, ev_payload = EvStepReady ''a''\<rparr>],
     dead_letters = [], outbox = [\<lparr>ob_step_id = ''a'', ob_reason = OutboxReasonStepReady, ob_trace = no_trace\<rparr>],
     approvals = [], txbuf = []\<rparr>"

lemma sample_db_inv: "db_inv sample_db"
  by code_simp

text \<open>The tables a successful call leaves; \<open>db\<close> itself when the call fails.\<close>

definition db_after :: "('a \<times> rundb) result \<Rightarrow> rundb \<Rightarrow> rundb" where
  "db_after res db = (case res of Inl _ \<Rightarrow> db | Inr (_, db') \<Rightarrow> db')"

section \<open>The invariant holds throughout\<close>

text \<open>
  Whatever sequence of store transitions runs, with whatever arguments, a run's tables
  keep the invariant: counters equal to the numbers of steps per status, dependency
  counters equal to the in-edges by resolution, attempts numbered 1 to the attempt count
  with exactly the current one open while a step runs or awaits a human, dead letters
  numbered from 1, at most one pending approval per step, events numbered 1 to the
  run's sequence counter without gaps, and a succeeded run without unfinished steps.
\<close>

theorem store_ops_keep_invariant:
  assumes "db_inv db" and "rtranclp store_op db db'"
  shows "db_inv db'"
  using db_inv.moves_keep [OF store_ops_moves [OF assms(2)] assms(1)] .

lemma sample_claim: "store_op sample_db (db_after (ClaimStep ''a'' ''w1'' [] 200 7 sample_db) sample_db)"
proof -
  have "ClaimStep ''a'' ''w1'' [] 200 7 sample_db \<noteq> Inl e" for e by code_simp
  then obtain x db' where "ClaimStep ''a'' ''w1'' [] 200 7 sample_db = Inr (x, db')"
    by (metis sumE surj_pair)
  then show ?thesis by (simp add: db_after_def store_op.ClaimStep)
qed

theorem store_ops_keep_invariant_witness:
  "db_inv (db_after (ClaimStep ''a'' ''w1'' [] 200 7 sample_db) sample_db)"
  by (rule store_ops_keep_invariant [OF sample_db_inv]) (rule r_into_rtranclp, rule sample_claim)

end
