(* ===== verification/Dag_Retry.thy ===== *)
theory Dag_Retry
  imports Store_Types
begin

text \<open>
  Retry policies, \<^verbatim>\<open>internal/dag/retry.go\<close>, and their materialized JSON form, which
  \<^verbatim>\<open>store/materialize.go\<close> writes onto the step row and \<^verbatim>\<open>decodeRetryPolicy\<close> of
  \<^verbatim>\<open>internal/engine/complete.go\<close> reads back.

  \<^verbatim>\<open>ErrorClass\<close> and \<^verbatim>\<open>JitterMode\<close> are Go string types and stay strings.  The float
  multiplier is the decimal \<open>m / 10 ^ e\<close> it is written as.
\<close>

record backoff_spec =
  bo_initial :: string
  bo_cap :: string
  bo_multiplier :: decimal

record retry_policy =
  rp_max_attempts :: int
  rp_backoff :: "backoff_spec option"
  rp_jitter :: string
  rp_retry_on :: "string list option"

record resolved_retry_policy =
  rr_max_attempts :: int
  rr_backoff :: backoff_spec
  rr_jitter :: string
  rr_retry_on :: "string list"

definition DefaultRetryOn :: "string list" where
  "DefaultRetryOn = [''transient'', ''timeout'']"

definition default_retry_policy :: resolved_retry_policy where
  "default_retry_policy =
     \<lparr>rr_max_attempts = 3,
      rr_backoff = \<lparr>bo_initial = ''1s'', bo_cap = ''1m'', bo_multiplier = (2, 0)\<rparr>,
      rr_jitter = ''full'', rr_retry_on = DefaultRetryOn\<rparr>"

definition ResolveRetryPolicy :: "retry_policy option \<Rightarrow> resolved_retry_policy" where
  "ResolveRetryPolicy p =
     (case p of
        None \<Rightarrow> default_retry_policy
      | Some p \<Rightarrow>
          let r = default_retry_policy;
              r = (if rp_max_attempts p \<noteq> 0 then r\<lparr>rr_max_attempts := rp_max_attempts p\<rparr> else r);
              r = (case rp_backoff p of
                     None \<Rightarrow> r
                   | Some b \<Rightarrow>
                       r\<lparr>rr_backoff := \<lparr>bo_initial = bo_initial b, bo_cap = bo_cap b,
                           bo_multiplier = (if fst (bo_multiplier b) \<noteq> 0 then bo_multiplier b
                                            else bo_multiplier (rr_backoff r))\<rparr>\<rparr>);
              r = (if rp_jitter p \<noteq> [] then r\<lparr>rr_jitter := rp_jitter p\<rparr> else r)
          in (case rp_retry_on p of None \<Rightarrow> r | Some cs \<Rightarrow> r\<lparr>rr_retry_on := cs\<rparr>))"

definition Retries :: "resolved_retry_policy \<Rightarrow> string \<Rightarrow> bool" where
  "Retries r class \<longleftrightarrow> list_ex (\<lambda>c. c = class) (rr_retry_on r)"

section \<open>The materialized form\<close>

definition decimal_json :: "decimal \<Rightarrow> json" where
  "decimal_json d = (if snd d = 0 then JNum (fst d) else JDec (fst d) (snd d))"

definition retry_policy_json :: "resolved_retry_policy \<Rightarrow> json" where
  "retry_policy_json r = JObj
     [(''max_attempts'', JNum (rr_max_attempts r)),
      (''backoff'', JObj [(''initial'', JStr (bo_initial (rr_backoff r))), (''cap'', JStr (bo_cap (rr_backoff r))),
                          (''multiplier'', decimal_json (bo_multiplier (rr_backoff r)))]),
      (''jitter'', JStr (rr_jitter r)),
      (''retry_on'', JArr (map JStr (rr_retry_on r)))]"

text \<open>
  \<^verbatim>\<open>json.Unmarshal\<close> into a struct: the last occurrence of a key counts, an absent key and
  a null leave the field at its zero value, a value of another type is an error, other
  keys are ignored.  Keys are matched exactly, as the encoder writes them.
\<close>

definition json_field :: "string \<Rightarrow> (string \<times> json) list \<Rightarrow> json" where
  "json_field k kvs = (case map_of (rev kvs) k of None \<Rightarrow> JNull | Some j \<Rightarrow> j)"

fun json_int :: "json \<Rightarrow> int option" where
  "json_int JNull = Some 0"
| "json_int (JNum n) = Some n"
| "json_int _ = None"

fun json_string :: "json \<Rightarrow> string option" where
  "json_string JNull = Some []"
| "json_string (JStr s) = Some s"
| "json_string _ = None"

fun json_decimal :: "json \<Rightarrow> decimal option" where
  "json_decimal JNull = Some (0, 0)"
| "json_decimal (JNum n) = Some (n, 0)"
| "json_decimal (JDec m e) = Some (m, e)"
| "json_decimal _ = None"

fun json_strings :: "json \<Rightarrow> string list option" where
  "json_strings JNull = Some []"
| "json_strings (JArr js) = those (map json_string js)"
| "json_strings _ = None"

fun json_backoff :: "json \<Rightarrow> backoff_spec option" where
  "json_backoff JNull = Some \<lparr>bo_initial = [], bo_cap = [], bo_multiplier = (0, 0)\<rparr>"
| "json_backoff (JObj kvs) =
     (case (json_string (json_field ''initial'' kvs), json_string (json_field ''cap'' kvs),
            json_decimal (json_field ''multiplier'' kvs)) of
        (Some i, Some c, Some m) \<Rightarrow> Some \<lparr>bo_initial = i, bo_cap = c, bo_multiplier = m\<rparr>
      | _ \<Rightarrow> None)"
| "json_backoff _ = None"

fun unmarshal_retry_policy :: "json \<Rightarrow> resolved_retry_policy option" where
  "unmarshal_retry_policy JNull =
     Some \<lparr>rr_max_attempts = 0, rr_backoff = \<lparr>bo_initial = [], bo_cap = [], bo_multiplier = (0, 0)\<rparr>,
           rr_jitter = [], rr_retry_on = []\<rparr>"
| "unmarshal_retry_policy (JObj kvs) =
     (case (json_int (json_field ''max_attempts'' kvs), json_backoff (json_field ''backoff'' kvs),
            json_string (json_field ''jitter'' kvs), json_strings (json_field ''retry_on'' kvs)) of
        (Some n, Some b, Some j, Some cs) \<Rightarrow>
          Some \<lparr>rr_max_attempts = n, rr_backoff = b, rr_jitter = j, rr_retry_on = cs\<rparr>
      | _ \<Rightarrow> None)"
| "unmarshal_retry_policy _ = None"

datatype retry_policy_error = NoRetryPolicy | UndecodableRetryPolicy | BadMaxAttempts int

definition decodeRetryPolicy :: "raw \<Rightarrow> retry_policy_error + resolved_retry_policy" where
  "decodeRetryPolicy raw =
     (case raw of
        None \<Rightarrow> Inl NoRetryPolicy
      | Some j \<Rightarrow>
          (case unmarshal_retry_policy j of
             None \<Rightarrow> Inl UndecodableRetryPolicy
           | Some p \<Rightarrow> if rr_max_attempts p < 1 then Inl (BadMaxAttempts (rr_max_attempts p)) else Inr p))"

section \<open>Properties\<close>

lemma those_map_Some [simp]: "those (map Some xs) = Some xs"
  by (induction xs) auto

lemma json_decimal_json [simp]: "json_decimal (decimal_json d) = Some d"
  by (cases d) (simp add: decimal_json_def)

lemma unmarshal_retry_policy_json [simp]: "unmarshal_retry_policy (retry_policy_json r) = Some r"
  by (simp add: retry_policy_json_def json_field_def o_def)

lemma resolved_max_attempts:
  "rr_max_attempts (ResolveRetryPolicy p) =
     (case p of None \<Rightarrow> 3 | Some q \<Rightarrow> if rp_max_attempts q \<noteq> 0 then rp_max_attempts q else 3)"
  by (simp add: ResolveRetryPolicy_def default_retry_policy_def Let_def split: option.splits)


definition eager_policy :: retry_policy where
  "eager_policy = \<lparr>rp_max_attempts = 5, rp_backoff = Some \<lparr>bo_initial = ''2s'', bo_cap = ''30s'', bo_multiplier = (15, 1)\<rparr>,
     rp_jitter = ''none'', rp_retry_on = Some [''timeout'']\<rparr>"


end
