(* ===== verification/Dag_Order.thy ===== *)
theory Dag_Order
  imports Dag_Graph
begin

text \<open>
  Correctness of the graph functions of \<^verbatim>\<open>internal/dag/graph.go\<close>: what a built graph
  holds (\<open>graph_ok\<close>), Kahn's order and its completeness, and the searches.
\<close>

section \<open>What NewGraph builds\<close>

abbreviation edge_count :: "graph \<Rightarrow> nat" where
  "edge_count g \<equiv> length (wf_edges (g_def g))"

abbreviation nth_edge :: "graph \<Rightarrow> nat \<Rightarrow> dag_edge" where
  "nth_edge g k \<equiv> wf_edges (g_def g) ! k"

definition graph_ok :: "graph \<Rightarrow> bool" where
  "graph_ok g \<longleftrightarrow>
     (\<forall>i < step_count g. g_index g (step_name g i) = Some i)
   \<and> (\<forall>sid i. g_index g sid = Some i \<longrightarrow> i < step_count g \<and> step_name g i = sid)
   \<and> (\<forall>k < edge_count g. g_index g (ed_from (nth_edge g k)) \<noteq> None \<and> g_index g (ed_to (nth_edge g k)) \<noteq> None)
   \<and> length (g_outNormal g) = step_count g \<and> length (g_inNormal g) = step_count g
   \<and> (\<forall>u < step_count g. g_outNormal g ! u =
        filter (\<lambda>k. \<not> IsLoop (nth_edge g k) \<and> g_index g (ed_from (nth_edge g k)) = Some u) [0..<edge_count g])
   \<and> (\<forall>u < step_count g. g_inNormal g ! u =
        filter (\<lambda>k. \<not> IsLoop (nth_edge g k) \<and> g_index g (ed_to (nth_edge g k)) = Some u) [0..<edge_count g])
   \<and> g_loopEdges g = filter (\<lambda>k. IsLoop (nth_edge g k)) [0..<edge_count g]"

lemma graph_ok_index: "graph_ok g \<Longrightarrow> i < step_count g \<Longrightarrow> g_index g (step_name g i) = Some i"
  unfolding graph_ok_def by blast

lemma graph_ok_ids:
  assumes "graph_ok g"
  shows "distinct (map st_id (wf_steps (g_def g)))"
    and "e \<in> set (wf_edges (g_def g)) \<Longrightarrow>
      ed_from e \<in> st_id ` set (wf_steps (g_def g)) \<and> ed_to e \<in> st_id ` set (wf_steps (g_def g))"
proof -
  have ix: "g_index g (step_name g i) = Some i" if "i < step_count g" for i
    by (rule graph_ok_index [OF assms that])
  show "distinct (map st_id (wf_steps (g_def g)))"
    unfolding distinct_conv_nth by (simp, metis ix option.inject)
  have name: "sid \<in> st_id ` set (wf_steps (g_def g))" if "g_index g sid \<noteq> None" for sid
  proof -
    from that obtain i where "i < step_count g" "step_name g i = sid"
      using assms unfolding graph_ok_def by blast
    then show ?thesis by force
  qed
  show "ed_from e \<in> st_id ` set (wf_steps (g_def g)) \<and> ed_to e \<in> st_id ` set (wf_steps (g_def g))"
    if e: "e \<in> set (wf_edges (g_def g))"
  proof -
    from e obtain k where "k < edge_count g" "nth_edge g k = e" unfolding in_set_conv_nth by blast
    then have "g_index g (ed_from e) \<noteq> None \<and> g_index g (ed_to e) \<noteq> None"
      using assms unfolding graph_ok_def by blast
    then show ?thesis using name by blast
  qed
qed

lemma index_steps_Inr:
  "index_steps ss i ix = Inr ix' \<Longrightarrow>
     (\<forall>k < length ss. ix' (st_id (ss ! k)) = Some (i + k))
   \<and> (\<forall>sid. sid \<notin> st_id ` set ss \<longrightarrow> ix' sid = ix sid)
   \<and> distinct (map st_id ss)
   \<and> (\<forall>s \<in> set ss. ix (st_id s) = None)"
proof (induction ss arbitrary: i ix)
  case Nil
  then show ?case by simp
next
  case (Cons s ss)
  then have none: "ix (st_id s) = None" and rest: "index_steps ss (i + 1) (ix(st_id s := Some i)) = Inr ix'"
    by (auto split: option.splits)
  note IH = Cons.IH [OF rest]
  have fresh: "st_id s \<notin> st_id ` set ss" using IH by (metis fun_upd_same image_iff option.distinct(1))
  have "ix' (st_id s) = Some i" using IH fresh by simp
  then have "\<forall>k < length (s # ss). ix' (st_id ((s # ss) ! k)) = Some (i + k)"
    using IH by (auto simp: nth_Cons less_Suc_eq_0_disj split: nat.split)
  moreover have "\<forall>x \<in> set ss. ix (st_id x) = None" using IH fresh by (metis fun_upd_other image_eqI)
  ultimately show ?case using IH fresh none by simp
qed

lemma index_steps_complete:
  "distinct (map st_id ss) \<Longrightarrow> \<forall>s \<in> set ss. ix (st_id s) = None \<Longrightarrow> \<exists>ix'. index_steps ss i ix = Inr ix'"
proof (induction ss arbitrary: i ix)
  case Nil
  then show ?case by simp
next
  case (Cons s ss)
  have "\<forall>x \<in> set ss. (ix(st_id s := Some i)) (st_id x) = None"
    using Cons.prems by (metis distinct.simps(2) fun_upd_other image_eqI list.set_intros(2) list.set_map list.simps(9))
  with Cons show ?case by simp
qed

lemma push_at_nth: "k < length xss \<Longrightarrow> u < length xss \<Longrightarrow>
    push_at k x xss ! u = (if u = k then xss ! u @ [x] else xss ! u)"
  by (simp add: push_at_def nth_list_update)

lemma push_at_length [simp]: "length (push_at k x xss) = length xss"
  by (simp add: push_at_def)

lemma index_edges_Inr:
  assumes "index_edges es i g = Inr g'" and "es = drop i E" and "i \<le> length E"
    and "\<forall>sid k. g_index g sid = Some k \<longrightarrow> k < n" and "length (g_outNormal g) = n" and "length (g_inNormal g) = n"
  shows "g_def g' = g_def g \<and> g_index g' = g_index g
   \<and> (\<forall>k. i \<le> k \<and> k < length E \<longrightarrow> g_index g (ed_from (E ! k)) \<noteq> None \<and> g_index g (ed_to (E ! k)) \<noteq> None)
   \<and> length (g_outNormal g') = n \<and> length (g_inNormal g') = n
   \<and> (\<forall>u < n. g_outNormal g' ! u = g_outNormal g ! u @
        filter (\<lambda>k. \<not> IsLoop (E ! k) \<and> g_index g (ed_from (E ! k)) = Some u) [i..<length E])
   \<and> (\<forall>u < n. g_inNormal g' ! u = g_inNormal g ! u @
        filter (\<lambda>k. \<not> IsLoop (E ! k) \<and> g_index g (ed_to (E ! k)) = Some u) [i..<length E])
   \<and> g_loopEdges g' = g_loopEdges g @ filter (\<lambda>k. IsLoop (E ! k)) [i..<length E]"
  using assms
proof (induction es arbitrary: i g)
  case Nil
  then have "i = length E" by simp
  with Nil show ?case by (simp add: not_less [symmetric])
next
  case (Cons e es)
  then have i: "i < length E" by (metis drop_all leI list.distinct(1))
  then have e: "e = E ! i" and es: "es = drop (i + 1) E"
    using Cons.prems(2) by (simp_all add: Cons_nth_drop_Suc [symmetric])
  from Cons.prems(1) obtain u v where u: "g_index g (ed_from e) = Some u" and v: "g_index g (ed_to e) = Some v"
    by (auto split: option.splits)
  let ?g = "if IsLoop e then g\<lparr>g_loopEdges := g_loopEdges g @ [i]\<rparr>
     else g\<lparr>g_outNormal := push_at u i (g_outNormal g), g_inNormal := push_at v i (g_inNormal g)\<rparr>"
  have rest: "index_edges es (i + 1) ?g = Inr g'" using Cons.prems(1) u v by simp
  have uv: "u < n" "v < n" using Cons.prems(4) u v by blast+
  have ix: "g_index ?g = g_index g" "g_def ?g = g_def g" by simp_all
  have len: "length (g_outNormal ?g) = n" "length (g_inNormal ?g) = n" using Cons.prems(5,6) by simp_all
  have bnd: "\<forall>sid k. g_index ?g sid = Some k \<longrightarrow> k < n" using Cons.prems(4) ix by simp
  note IH = Cons.IH [OF rest es _ bnd len, unfolded ix]
  have known: "g_index g (ed_from (E ! k)) \<noteq> None \<and> g_index g (ed_to (E ! k)) \<noteq> None"
    if "i \<le> k" "k < length E" for k
  proof (cases "k = i")
    case True
    with u v e show ?thesis by simp
  next
    case False
    with IH i that show ?thesis by simp
  qed
  have out: "g_outNormal ?g ! w = g_outNormal g ! w @ (if \<not> IsLoop e \<and> g_index g (ed_from e) = Some w then [i] else [])"
    and inn: "g_inNormal ?g ! w = g_inNormal g ! w @ (if \<not> IsLoop e \<and> g_index g (ed_to e) = Some w then [i] else [])"
    if "w < n" for w
    using that uv u v Cons.prems(5,6) by (simp_all add: push_at_nth)
  show ?case
    using IH i known out inn e by (simp add: upt_conv_Cons)
qed

lemma NewGraph_ok:
  assumes "NewGraph def = Inr g"
  shows "graph_ok g" and "g_def g = def"
proof -
  let ?n = "length (wf_steps def)"
  from assms obtain ix where ix: "index_steps (wf_steps def) 0 (\<lambda>_. None) = Inr ix"
    and ed: "index_edges (wf_edges def) 0 \<lparr>g_def = def, g_index = ix, g_outNormal = replicate ?n [],
        g_inNormal = replicate ?n [], g_loopEdges = []\<rparr> = Inr g"
    by (auto simp: NewGraph_def andThen_eq_Inr)
  note st = index_steps_Inr [OF ix]
  have known: "i < ?n \<and> st_id (wf_steps def ! i) = sid" if "ix sid = Some i" for sid i
  proof -
    have "sid \<in> st_id ` set (wf_steps def)" using st that by fastforce
    then obtain k where k: "k < ?n" "sid = st_id (wf_steps def ! k)" by (auto simp: in_set_conv_nth)
    with st that show ?thesis by simp
  qed
  then have "\<forall>sid k. ix sid = Some k \<longrightarrow> k < ?n" by blast
  from index_edges_Inr [OF ed, of "wf_edges def" ?n] this
  show "graph_ok g" "g_def g = def" using st known by (simp_all add: graph_ok_def)
qed

section \<open>The normal-edge relation\<close>

definition normal_rel :: "graph \<Rightarrow> (nat \<times> nat) set" where
  "normal_rel g = {(u, v). \<exists>k < edge_count g. \<not> IsLoop (nth_edge g k)
     \<and> g_index g (ed_from (nth_edge g k)) = Some u \<and> g_index g (ed_to (nth_edge g k)) = Some v}"

lemma out_steps_set:
  assumes "graph_ok g" and "u < step_count g"
  shows "v \<in> set (out_steps g u) \<longleftrightarrow> (u, v) \<in> normal_rel g"
proof -
  have out: "g_outNormal g ! u =
      filter (\<lambda>k. \<not> IsLoop (nth_edge g k) \<and> g_index g (ed_from (nth_edge g k)) = Some u) [0..<edge_count g]"
    using assms by (simp add: graph_ok_def)
  have "toIdx g k = v \<longleftrightarrow> g_index g (ed_to (nth_edge g k)) = Some v" if "k < edge_count g" for k
    using assms(1) that by (auto simp: toIdx_def lookup_index_def graph_ok_def)
  then show ?thesis unfolding out_steps_def out normal_rel_def by auto
qed

lemma in_steps_set:
  assumes "graph_ok g" and "v < step_count g"
  shows "u \<in> set (in_steps g v) \<longleftrightarrow> (u, v) \<in> normal_rel g"
proof -
  have inn: "g_inNormal g ! v =
      filter (\<lambda>k. \<not> IsLoop (nth_edge g k) \<and> g_index g (ed_to (nth_edge g k)) = Some v) [0..<edge_count g]"
    using assms by (simp add: graph_ok_def)
  have "fromIdx g k = u \<longleftrightarrow> g_index g (ed_from (nth_edge g k)) = Some u" if "k < edge_count g" for k
    using assms(1) that by (auto simp: fromIdx_def lookup_index_def graph_ok_def)
  then show ?thesis unfolding in_steps_def inn normal_rel_def by auto
qed

lemma normal_rel_range:
  "graph_ok g \<Longrightarrow> (u, v) \<in> normal_rel g \<Longrightarrow> u < step_count g \<and> v < step_count g"
  by (auto simp: normal_rel_def graph_ok_def)

lemma finite_normal_rel: "graph_ok g \<Longrightarrow> finite (normal_rel g)"
  by (rule finite_subset [of _ "{..<step_count g} \<times> {..<step_count g}"]) (auto dest: normal_rel_range)

text \<open>The number of a step's normal in-edges, counted from their sources.\<close>

lemma sum_by_source:
  assumes "\<forall>k \<in> set ks. P k \<longrightarrow> (\<exists>u < (n::nat). f k = Some u)"
  shows "(\<Sum>u < n. length (filter (\<lambda>k. P k \<and> f k = Some u) ks)) = length (filter P ks)"
  using assms
proof (induction ks)
  case Nil
  then show ?case by simp
next
  case (Cons k ks)
  have "(\<Sum>u < n. length (filter (\<lambda>k. P k \<and> f k = Some u) (k # ks))) =
      (\<Sum>u < n. (if P k \<and> f k = Some u then 1 else 0) + length (filter (\<lambda>k. P k \<and> f k = Some u) ks))"
    by (intro sum.cong) auto
  also have "\<dots> = (\<Sum>u < n. if P k \<and> f k = Some u then 1 else 0) + length (filter P ks)"
    using Cons by (simp add: sum.distrib)
  also have "(\<Sum>u < n. if P k \<and> f k = Some u then 1 else 0) = (if P k then 1 else (0::nat))"
  proof (cases "P k")
    case True
    with Cons.prems obtain w where "w < n" "f k = Some w" by auto
    then have "(\<Sum>u < n. if P k \<and> f k = Some u then 1 else 0) = (\<Sum>u < n. if u = w then 1 else (0::nat))"
      using True by (intro sum.cong) auto
    also have "\<dots> = 1" using \<open>w < n\<close> by simp
    finally show ?thesis using True by simp
  qed simp
  finally show ?case by simp
qed

lemma count_list_map_filter: "count_list (map f xs) y = length (filter (\<lambda>x. f x = y) xs)"
  by (induction xs) auto

lemma indegree:
  assumes "graph_ok g" and "t < step_count g"
  shows "(\<Sum>u < step_count g. count_list (out_steps g u) t) = length (g_inNormal g ! t)"
proof -
  let ?P = "\<lambda>k. \<not> IsLoop (nth_edge g k) \<and> g_index g (ed_to (nth_edge g k)) = Some t"
  let ?f = "\<lambda>k. g_index g (ed_from (nth_edge g k))"
  have to: "toIdx g k = t \<longleftrightarrow> g_index g (ed_to (nth_edge g k)) = Some t" if "k < edge_count g" for k
    using assms(1) that by (auto simp: toIdx_def lookup_index_def graph_ok_def)
  have "count_list (out_steps g u) t = length (filter (\<lambda>k. ?P k \<and> ?f k = Some u) [0..<edge_count g])"
    if "u < step_count g" for u
  proof -
    have "count_list (out_steps g u) t = length (filter (\<lambda>k. toIdx g k = t)
        (filter (\<lambda>k. \<not> IsLoop (nth_edge g k) \<and> ?f k = Some u) [0..<edge_count g]))"
    proof -
      have "g_outNormal g ! u = filter (\<lambda>k. \<not> IsLoop (nth_edge g k) \<and> ?f k = Some u) [0..<edge_count g]"
        using assms(1) that unfolding graph_ok_def by blast
      then show ?thesis by (simp only: out_steps_def count_list_map_filter)
    qed
    also have "\<dots> = length (filter (\<lambda>k. ?P k \<and> ?f k = Some u) [0..<edge_count g])"
      unfolding filter_filter using to by (intro arg_cong [where f = length] filter_cong) auto
    finally show ?thesis .
  qed
  then have "(\<Sum>u < step_count g. count_list (out_steps g u) t) =
      (\<Sum>u < step_count g. length (filter (\<lambda>k. ?P k \<and> ?f k = Some u) [0..<edge_count g]))" by simp
  also have "\<dots> = length (filter ?P [0..<edge_count g])"
    using assms(1) by (intro sum_by_source) (auto simp: graph_ok_def)
  also have "\<dots> = length (g_inNormal g ! t)" using assms by (simp add: graph_ok_def)
  finally show ?thesis .
qed

section \<open>Kahn's loop\<close>

text \<open>
  What one pass over a step's targets does, when no target loses more in-edges than it has.
\<close>

lemma relax_spec:
  assumes "relax ts (rem, q) = (rem', q')" and "\<forall>t \<in> set ts. t < length rem"
    and "\<forall>t < length rem. int (count_list ts t) \<le> rem ! t"
  shows "length rem' = length rem \<and> (\<forall>t < length rem. rem' ! t = rem ! t - int (count_list ts t))
    \<and> (\<exists>new. q' = q @ new \<and> distinct new \<and> set new = {t. t < length rem \<and> 0 < rem ! t \<and> rem' ! t = 0})"
  using assms
proof (induction ts arbitrary: rem q)
  case Nil
  then show ?case by auto
next
  case (Cons t ts)
  let ?rem = "rem[t := rem ! t - 1]"
  let ?push = "rem ! t = 1"
  have t: "t < length rem" using Cons.prems(2) by simp
  have ge: "1 + int (count_list ts t) \<le> rem ! t" using Cons.prems(3) t by force
  have call: "relax ts (?rem, if ?push then q @ [t] else q) = (rem', q')"
    using Cons.prems(1) t by (simp add: Let_def)
  have cnt: "\<forall>x < length ?rem. int (count_list ts x) \<le> ?rem ! x"
    using Cons.prems(3) ge t by (auto simp: nth_list_update split: if_splits)
  obtain new where IH: "length rem' = length rem" "\<forall>x < length rem. rem' ! x = ?rem ! x - int (count_list ts x)"
    "q' = (if ?push then q @ [t] else q) @ new" "distinct new"
    "set new = {x. x < length rem \<and> 0 < ?rem ! x \<and> rem' ! x = 0}"
    using Cons.IH [OF call _ cnt] Cons.prems(2) by auto
  have vals: "\<forall>x < length rem. rem' ! x = rem ! x - int (count_list (t # ts) x)"
    using IH(2) t by (auto simp: nth_list_update)
  let ?new = "(if ?push then [t] else []) @ new"
  have "distinct ?new" using IH(4,5) t by auto
  moreover have "x \<in> set ?new \<longleftrightarrow> x < length rem \<and> 0 < rem ! x \<and> rem' ! x = 0" for x
  proof (cases "x = t")
    case True
    have "rem' ! t = rem ! t - (1 + int (count_list ts t))" using vals t by simp
    moreover have "t \<in> set new \<longleftrightarrow> 0 < rem ! t - 1 \<and> rem' ! t = 0" using IH(5) t by simp
    ultimately show ?thesis using True t ge by auto
  next
    case False
    then have "x \<in> set ?new \<longleftrightarrow> x \<in> set new" by simp
    with False show ?thesis using IH(5) by simp
  qed
  then have "set ?new = {x. x < length rem \<and> 0 < rem ! x \<and> rem' ! x = 0}" by blast
  moreover have "q' = q @ ?new" using IH(3) by simp
  ultimately show ?case using IH(1) vals by blast
qed

text \<open>Every step of the list comes after all its predecessors.\<close>

definition topo_sorted :: "(nat \<times> nat) set \<Rightarrow> nat list \<Rightarrow> bool" where
  "topo_sorted R l \<longleftrightarrow> (\<forall>i < length l. \<forall>u. (u, l ! i) \<in> R \<longrightarrow> u \<in> set (take i l))"

text \<open>
  The loop invariant: \<open>remaining\<close> counts the in-edges from steps not yet ordered, and the
  ordered or queued steps are those without such edges.
\<close>

definition kahn_inv :: "graph \<Rightarrow> int list \<Rightarrow> nat list \<Rightarrow> nat list \<Rightarrow> bool" where
  "kahn_inv g rem q order \<longleftrightarrow>
     distinct (order @ q) \<and> set (order @ q) \<subseteq> {..<step_count g} \<and> length rem = step_count g
   \<and> (\<forall>t < step_count g. rem ! t = int (\<Sum>u \<in> {..<step_count g} - set order. count_list (out_steps g u) t))
   \<and> (\<forall>t < step_count g. t \<in> set (order @ q) \<longleftrightarrow> rem ! t = 0)
   \<and> topo_sorted (normal_rel g) order"

lemma topo_sorted_snoc:
  assumes "topo_sorted R l" and "\<And>u. (u, s) \<in> R \<Longrightarrow> u \<in> set l"
  shows "topo_sorted R (l @ [s])"
  using assms by (auto simp: topo_sorted_def nth_append less_Suc_eq)

lemma kahn_inv_step:
  assumes ok: "graph_ok g" and inv: "kahn_inv g rem (s # q) order"
    and call: "relax (out_steps g s) (rem, q) = (rem', q')"
  shows "kahn_inv g rem' q' (order @ [s])"
proof -
  let ?n = "step_count g"
  let ?sum = "\<lambda>U t. \<Sum>u \<in> U. count_list (out_steps g u) t"
  have inv': "distinct (order @ s # q)" "set (order @ s # q) \<subseteq> {..<?n}" "length rem = ?n"
    "\<And>t. t < ?n \<Longrightarrow> rem ! t = int (?sum ({..<?n} - set order) t)"
    "\<And>t. t < ?n \<Longrightarrow> t \<in> set (order @ s # q) \<longleftrightarrow> rem ! t = 0" "topo_sorted (normal_rel g) order"
    using inv unfolding kahn_inv_def by blast+
  have s: "s < ?n" "s \<notin> set order" using inv'(1,2) by auto
  have drop: "?sum ({..<?n} - set order) t = count_list (out_steps g s) t + ?sum ({..<?n} - set (order @ [s])) t" for t
  proof -
    have "{..<?n} - set order - {s} = {..<?n} - set (order @ [s])" by auto
    with s show ?thesis by (simp add: sum.remove [of _ s])
  qed
  have targets: "\<forall>t \<in> set (out_steps g s). t < length rem"
    using out_steps_set [OF ok s(1)] normal_rel_range [OF ok] inv'(3) by simp
  have enough: "\<forall>t < length rem. int (count_list (out_steps g s) t) \<le> rem ! t"
    using inv'(3,4) drop by (simp add: sum_nonneg)
  obtain new where rem': "length rem' = ?n" "\<And>t. t < ?n \<Longrightarrow> rem' ! t = rem ! t - int (count_list (out_steps g s) t)"
    and new: "q' = q @ new" "distinct new" "set new = {t. t < ?n \<and> 0 < rem ! t \<and> rem' ! t = 0}"
    using relax_spec [OF call targets enough] inv'(3) by auto
  have sum': "rem' ! t = int (?sum ({..<?n} - set (order @ [s])) t)" if "t < ?n" for t
    using rem'(2) [OF that] inv'(4) [OF that] drop [of t] by simp
  have settled: "t \<in> set ((order @ [s]) @ q') \<longleftrightarrow> rem' ! t = 0" if t: "t < ?n" for t
  proof (cases "rem ! t = 0")
    case True
    then have "?sum ({..<?n} - set order) t = 0" using inv'(4) [OF t] by (simp del: of_nat_sum)
    then have "?sum ({..<?n} - set (order @ [s])) t = 0" using drop [of t] by linarith
    then have "rem' ! t = 0" using sum' [OF t] by (simp only: of_nat_0)
    moreover have "t \<in> set (order @ s # q)" using inv'(5) [OF t] True by simp
    ultimately show ?thesis by (auto simp: new(1))
  next
    case False
    then have "0 < rem ! t" using inv'(4) [OF t] by (metis of_nat_0_le_iff order_less_le)
    moreover have "t \<notin> set (order @ s # q)" using inv'(5) [OF t] False by blast
    ultimately have "0 < rem ! t" "t \<notin> set (order @ s # q)" by blast+
    with t show ?thesis by (simp add: new)
  qed
  have "x \<notin> set (order @ s # q)" if "x \<in> set new" for x
  proof -
    have x: "x < ?n" "rem ! x \<noteq> 0" using that new(3) by auto
    show ?thesis using inv'(5) [OF x(1)] x(2) by blast
  qed
  then have "distinct ((order @ [s]) @ q')" "set ((order @ [s]) @ q') \<subseteq> {..<?n}"
    using inv'(1,2) new by auto
  moreover have "u \<in> set order" if "(u, s) \<in> normal_rel g" for u
  proof (rule ccontr)
    assume "u \<notin> set order"
    then have u: "u \<in> {..<?n} - set order" using normal_rel_range [OF ok that] by simp
    have "?sum ({..<?n} - set order) s = 0" using inv'(4,5) [OF s(1)] by (simp del: of_nat_sum)
    then have "count_list (out_steps g u) s = 0" using u by simp
    then show False using out_steps_set [OF ok, of u s] u that by (simp add: count_list_0_iff)
  qed
  then have "topo_sorted (normal_rel g) (order @ [s])" by (rule topo_sorted_snoc [OF inv'(6)])
  ultimately show ?thesis unfolding kahn_inv_def using rem'(1) sum' settled by blast
qed

lemma kahn_inv_loop:
  assumes "graph_ok g" and "kahn_inv g rem q order"
  shows "\<exists>rem'. kahn_inv g rem' [] (topo_loop g rem q order)"
  using assms
proof (induction g rem q order rule: topo_loop.induct)
  case (1 g rem order)
  then show ?case by auto
next
  case (2 g rem s q order)
  obtain rem' q' where call: "relax (out_steps g s) (rem, q) = (rem', q')" by fastforce
  with 2 kahn_inv_step [OF 2(2,3) call] show ?case by (simp add: out_steps_def)
qed

lemma kahn_inv_init:
  assumes "graph_ok g"
  shows "kahn_inv g (map (\<lambda>es. int (length es)) (g_inNormal g))
    (filter (\<lambda>i. map (\<lambda>es. int (length es)) (g_inNormal g) ! i = 0) [0..<step_count g]) []"
proof -
  have len: "length (g_inNormal g) = step_count g" using assms by (simp add: graph_ok_def)
  then show ?thesis using indegree [OF assms] by (auto simp: kahn_inv_def topo_sorted_def)
qed

lemma topoOrder_inv:
  assumes "graph_ok g" and "topoOrder g = (order, ok)"
  shows "distinct order" "set order \<subseteq> {..<step_count g}" "topo_sorted (normal_rel g) order"
    "ok \<longleftrightarrow> set order = {..<step_count g}"
    "\<And>t. t < step_count g \<Longrightarrow> (\<And>u. (u, t) \<in> normal_rel g \<Longrightarrow> u \<in> set order) \<Longrightarrow> t \<in> set order"
proof -
  obtain rem where inv: "kahn_inv g rem [] order" and ok: "ok \<longleftrightarrow> length order = step_count g"
    using kahn_inv_loop [OF assms(1) kahn_inv_init [OF assms(1)]] assms(2) by (auto simp: topoOrder_def Let_def)
  show dist: "distinct order" and sub: "set order \<subseteq> {..<step_count g}" and "topo_sorted (normal_rel g) order"
    using inv by (simp_all add: kahn_inv_def)
  show "ok \<longleftrightarrow> set order = {..<step_count g}"
    using ok dist sub by (metis card_lessThan card_subset_eq distinct_card finite_lessThan)
  show "t \<in> set order" if t: "t < step_count g" and pre: "\<And>u. (u, t) \<in> normal_rel g \<Longrightarrow> u \<in> set order" for t
  proof -
    have "count_list (out_steps g u) t = 0" if "u \<in> {..<step_count g} - set order" for u
      using out_steps_set [OF assms(1), of u t] pre that by (auto simp: count_list_0_iff)
    then have "rem ! t = 0" using inv t by (simp add: kahn_inv_def)
    with inv t show ?thesis by (simp add: kahn_inv_def)
  qed
qed

text \<open>A complete topological order exists exactly when the relation is acyclic.\<close>

lemma topo_sorted_acyclic:
  assumes "topo_sorted R l" and "distinct l" and "\<And>u v. (u, v) \<in> R \<Longrightarrow> v \<in> set l"
  shows "acyclic R"
proof -
  have before: "\<exists>i j. i < j \<and> j < length l \<and> l ! i = u \<and> l ! j = v" if uv: "(u, v) \<in> R" for u v
  proof -
    obtain j where j: "j < length l" "l ! j = v" using assms(3) [OF uv] by (auto simp: in_set_conv_nth)
    with uv assms(1) have "u \<in> set (take j l)" by (auto simp: topo_sorted_def)
    then obtain i where "i < j" "l ! i = u" using j(1) by (auto simp: in_set_conv_nth)
    with j show ?thesis by blast
  qed
  have "\<exists>i j. i < j \<and> j < length l \<and> l ! i = u \<and> l ! j = v" if "(u, v) \<in> R\<^sup>+" for u v
    using that
  proof (induction rule: trancl_induct)
    case (base v)
    then show ?case by (rule before)
  next
    case (step v w)
    with before [OF step(2)] assms(2) show ?case by (metis less_trans nth_eq_iff_index_eq)
  qed
  then show ?thesis unfolding acyclic_def using assms(2) by (metis less_trans nat_neq_iff nth_eq_iff_index_eq)
qed

lemma topoOrder_ok_iff:
  assumes "graph_ok g"
  shows "snd (topoOrder g) \<longleftrightarrow> acyclic (normal_rel g)"
proof -
  obtain order ok where t: "topoOrder g = (order, ok)" by fastforce
  note kahn = topoOrder_inv [OF assms t]
  show ?thesis
  proof
    assume "snd (topoOrder g)"
    then have "set order = {..<step_count g}" using kahn(4) t by simp
    then show "acyclic (normal_rel g)"
      using kahn(1,3) normal_rel_range [OF assms] by (intro topo_sorted_acyclic) auto
  next
    assume "acyclic (normal_rel g)"
    then have wf: "wf (normal_rel g)" by (rule finite_acyclic_wf [OF finite_normal_rel [OF assms]])
    have "t \<in> set order" if "t < step_count g" for t
      using wf that
    proof (induction t rule: wf_induct_rule)
      case (less t)
      with kahn(5) normal_rel_range [OF assms] show ?case by blast
    qed
    then show "snd (topoOrder g)" using kahn(2,4) t by auto
  qed
qed

section \<open>The searches\<close>

definition marked :: "bool list \<Rightarrow> nat set" where
  "marked vs = {i. i < length vs \<and> vs ! i}"

lemma marked_replicate [simp]: "marked (replicate n False) = {}"
  by (auto simp: marked_def)

lemma enqueue_new_spec:
  assumes "enqueue_new ts (vs, q) = (vs', q')" and "\<forall>t \<in> set ts. t < length vs"
  shows "length vs' = length vs \<and> marked vs' = marked vs \<union> set ts \<and> set q' = set q \<union> (set ts - marked vs)"
  using assms
proof (induction ts arbitrary: vs q)
  case Nil
  then show ?case by simp
next
  case (Cons t ts)
  show ?case
  proof (cases "vs ! t")
    case True
    then have "enqueue_new ts (vs, q) = (vs', q')" "t \<in> marked vs"
      using Cons.prems by (simp_all add: marked_def)
    with Cons.IH [of vs q] Cons.prems(2) show ?thesis by auto
  next
    case False
    then have "enqueue_new ts (vs[t := True], q @ [t]) = (vs', q')" using Cons.prems by simp
    moreover have "marked (vs[t := True]) = insert t (marked vs)" "t \<notin> marked vs"
      using Cons.prems(2) False by (auto simp: marked_def nth_list_update)
    ultimately show ?thesis using Cons.IH [of "vs[t := True]" "q @ [t]"] Cons.prems(2) by auto
  qed
qed

definition nbr_rel :: "(nat \<Rightarrow> nat list) \<Rightarrow> nat \<Rightarrow> (nat \<times> nat) set" where
  "nbr_rel nbrs n = {(u, v). u < n \<and> v \<in> set (nbrs u)}"

text \<open>
  The search invariant: what is marked or queued is reachable from the start, and the
  neighbours of every reached step that is no longer queued are marked.
\<close>

definition search_inv :: "(nat \<Rightarrow> nat list) \<Rightarrow> nat \<Rightarrow> nat \<Rightarrow> bool list \<Rightarrow> nat list \<Rightarrow> bool" where
  "search_inv nbrs n start vs q \<longleftrightarrow>
     length vs = n \<and> start < n \<and> (\<forall>u < n. \<forall>v \<in> set (nbrs u). v < n)
   \<and> marked vs \<subseteq> (nbr_rel nbrs n)\<^sup>+ `` {start} \<and> set q \<subseteq> insert start (marked vs)
   \<and> (\<forall>u \<in> insert start (marked vs). u \<in> set q \<or> set (nbrs u) \<subseteq> marked vs)"

lemma search_inv_step:
  assumes inv: "search_inv nbrs n start vs (s # q)" and call: "enqueue_new (nbrs s) (vs, q) = (vs', q')"
  shows "search_inv nbrs n start vs' q'"
proof -
  have facts: "length vs = n" "start < n" "\<forall>u < n. \<forall>v \<in> set (nbrs u). v < n"
    "marked vs \<subseteq> (nbr_rel nbrs n)\<^sup>+ `` {start}" "set (s # q) \<subseteq> insert start (marked vs)"
    "\<forall>u \<in> insert start (marked vs). u \<in> set (s # q) \<or> set (nbrs u) \<subseteq> marked vs"
    using inv unfolding search_inv_def by blast+
  have s: "s < n" using facts(1,2,5) by (auto simp: marked_def)
  have new: "length vs' = n" "marked vs' = marked vs \<union> set (nbrs s)" "set q' = set q \<union> (set (nbrs s) - marked vs)"
    using enqueue_new_spec [OF call] facts(1,3) s by auto
  have "(start, v) \<in> (nbr_rel nbrs n)\<^sup>+" if "v \<in> set (nbrs s)" for v
  proof -
    have sv: "(s, v) \<in> nbr_rel nbrs n" using s that by (simp add: nbr_rel_def)
    have "s = start \<or> (start, s) \<in> (nbr_rel nbrs n)\<^sup>+" using facts(4,5) by auto
    then show ?thesis using sv by (auto intro: trancl_into_trancl)
  qed
  then have "marked vs' \<subseteq> (nbr_rel nbrs n)\<^sup>+ `` {start}" using new(2) facts(4) by auto
  moreover have "set q' \<subseteq> insert start (marked vs')" using new(2,3) facts(5) by auto
  moreover have "u \<in> set q' \<or> set (nbrs u) \<subseteq> marked vs'" if "u \<in> insert start (marked vs')" for u
    using that new(2,3) facts(6) by (cases "u \<in> insert start (marked vs)") auto
  ultimately show ?thesis unfolding search_inv_def using new(1) facts(2,3) by blast
qed

lemma search_inv_done:
  assumes "search_inv nbrs n start vs []"
  shows "marked vs = (nbr_rel nbrs n)\<^sup>+ `` {start}"
proof
  show "marked vs \<subseteq> (nbr_rel nbrs n)\<^sup>+ `` {start}" using assms by (simp add: search_inv_def)
  have closed: "\<forall>u \<in> insert start (marked vs). set (nbrs u) \<subseteq> marked vs"
    using assms by (simp add: search_inv_def)
  have "v \<in> marked vs" if "(start, v) \<in> (nbr_rel nbrs n)\<^sup>+" for v
    using that by (induction rule: trancl_induct) (use closed in \<open>auto simp: nbr_rel_def\<close>)
  then show "(nbr_rel nbrs n)\<^sup>+ `` {start} \<subseteq> marked vs" by auto
qed

lemma search_marks:
  "search_inv nbrs n start vs q \<Longrightarrow> search_inv nbrs n start (search nbrs vs q) []"
proof (induction nbrs vs q rule: search.induct)
  case (1 nbrs vs)
  then show ?case by simp
next
  case (2 nbrs vs s q)
  obtain vs' q' where call: "enqueue_new (nbrs s) (vs, q) = (vs', q')" by fastforce
  with 2 search_inv_step [OF 2(2) call] show ?case by simp
qed

lemma search_inv_init:
  assumes "start < n" and "\<forall>u < n. \<forall>v \<in> set (nbrs u). v < n"
  shows "search_inv nbrs n start (replicate n False) [start]"
  using assms by (simp add: search_inv_def)

lemma reach_loop_iff:
  assumes "search_inv (out_steps g) n start vs q"
    and "\<forall>u \<in> insert start (marked vs). u \<in> set q \<or> goal \<notin> set (out_steps g u)"
  shows "reach_loop g goal vs q \<longleftrightarrow> (start, goal) \<in> (nbr_rel (out_steps g) n)\<^sup>+"
  using assms
proof (induction g goal vs q rule: reach_loop.induct)
  case (1 g goal vs)
  have m: "marked vs = (nbr_rel (out_steps g) n)\<^sup>+ `` {start}" by (rule search_inv_done [OF 1(1)])
  have "(start, goal) \<notin> (nbr_rel (out_steps g) n)\<^sup>+"
  proof
    assume "(start, goal) \<in> (nbr_rel (out_steps g) n)\<^sup>+"
    then obtain u where "u = start \<or> (start, u) \<in> (nbr_rel (out_steps g) n)\<^sup>+" "(u, goal) \<in> nbr_rel (out_steps g) n"
      by (metis tranclE)
    then show False using 1(2) m by (auto simp: nbr_rel_def)
  qed
  then show ?case by simp
next
  case (2 g goal vs s q)
  show ?case
  proof (cases "goal \<in> set (out_steps g s)")
    case True
    have s: "s < n" "s = start \<or> (start, s) \<in> (nbr_rel (out_steps g) n)\<^sup>+"
      using 2(2) by (auto simp: search_inv_def marked_def)
    then have "(s, goal) \<in> nbr_rel (out_steps g) n" using True by (simp add: nbr_rel_def)
    with s(2) have "(start, goal) \<in> (nbr_rel (out_steps g) n)\<^sup>+" by (auto intro: trancl_into_trancl)
    with True show ?thesis by simp
  next
    case False
    obtain vs' q' where call: "enqueue_new (out_steps g s) (vs, q) = (vs', q')" by fastforce
    have s: "s < n" using 2(2) by (auto simp: search_inv_def marked_def)
    have new: "marked vs' = marked vs \<union> set (out_steps g s)" "set q' = set q \<union> (set (out_steps g s) - marked vs)"
      using enqueue_new_spec [OF call] 2(2) s by (auto simp: search_inv_def)
    have "\<forall>u \<in> insert start (marked vs'). u \<in> set q' \<or> goal \<notin> set (out_steps g u)"
      using 2(3) new False by auto
    then show ?thesis
      using 2(1) [OF False call [symmetric] refl search_inv_step [OF 2(2) call]] False call by simp
  qed
qed

text \<open>The neighbour relations of a built graph are its normal edges, forwards and backwards.\<close>

lemma out_rel: "graph_ok g \<Longrightarrow> nbr_rel (out_steps g) (step_count g) = normal_rel g"
  using out_steps_set normal_rel_range by (fastforce simp: nbr_rel_def)

lemma in_rel: "graph_ok g \<Longrightarrow> nbr_rel (in_steps g) (step_count g) = (normal_rel g)\<inverse>"
  using in_steps_set normal_rel_range by (fastforce simp: nbr_rel_def)

lemma out_range: "graph_ok g \<Longrightarrow> \<forall>u < step_count g. \<forall>v \<in> set (out_steps g u). v < step_count g"
  using out_steps_set normal_rel_range by blast

lemma in_range: "graph_ok g \<Longrightarrow> \<forall>u < step_count g. \<forall>v \<in> set (in_steps g u). v < step_count g"
  using in_steps_set normal_rel_range by blast

lemma marked_names_set:
  assumes "length vs = step_count g"
  shows "set (marked_names g vs) = step_name g ` marked vs"
  using assms by (auto simp: marked_names_def marked_def)

section \<open>Properties\<close>

lemma index_edges_complete:
  assumes "\<forall>e \<in> set es. g_index g (ed_from e) \<noteq> None \<and> g_index g (ed_to e) \<noteq> None"
  shows "\<exists>g'. index_edges es i g = Inr g'"
  using assms
proof (induction es arbitrary: i g)
  case Nil
  then show ?case by simp
next
  case (Cons e es)
  then obtain u v where "g_index g (ed_from e) = Some u" "g_index g (ed_to e) = Some v" by auto
  with Cons show ?case by (auto simp: split: if_splits)
qed

lemma NewGraph_total:
  assumes "distinct (map st_id (wf_steps def))"
    and "\<And>e. e \<in> set (wf_edges def) \<Longrightarrow> ed_from e \<in> st_id ` set (wf_steps def) \<and> ed_to e \<in> st_id ` set (wf_steps def)"
  shows "\<exists>g. NewGraph def = Inr g"
proof -
  obtain ix where ix: "index_steps (wf_steps def) 0 (\<lambda>_. None) = Inr ix"
    using index_steps_complete assms(1) by fastforce
  have "ix sid \<noteq> None" if "sid \<in> st_id ` set (wf_steps def)" for sid
    using index_steps_Inr [OF ix] that by (auto simp: in_set_conv_nth)
  with assms(2) ix index_edges_complete show ?thesis by (simp add: NewGraph_def)
qed

text \<open>
  \<open>NewGraph\<close> accepts a definition exactly when its step ids are unique and both ends
  of every edge, loop edges included, name a step.
\<close>

theorem NewGraph_accepts_iff:
  "(\<exists>g. NewGraph def = Inr g) \<longleftrightarrow>
     distinct (map st_id (wf_steps def))
   \<and> (\<forall>e \<in> set (wf_edges def). ed_from e \<in> st_id ` set (wf_steps def) \<and> ed_to e \<in> st_id ` set (wf_steps def))"
    (is "?L \<longleftrightarrow> ?R")
proof
  assume ?L
  then obtain g where g: "NewGraph def = Inr g" ..
  obtain ix where "index_steps (wf_steps def) 0 (\<lambda>_. None) = Inr ix"
    using g by (auto simp: NewGraph_def andThen_eq_Inr)
  then have "distinct (map st_id (wf_steps def))" using index_steps_Inr by blast
  moreover have "ed_from e \<in> st_id ` set (wf_steps def) \<and> ed_to e \<in> st_id ` set (wf_steps def)"
    if "e \<in> set (wf_edges def)" for e
  proof -
    have ok: "graph_ok g" and d: "g_def g = def" using NewGraph_ok [OF g] by blast+
    obtain k where "k < edge_count g" "e = nth_edge g k" using \<open>e \<in> set (wf_edges def)\<close> d by (auto simp: in_set_conv_nth)
    then have "g_index g (ed_from e) \<noteq> None" "g_index g (ed_to e) \<noteq> None" using ok unfolding graph_ok_def by blast+
    then obtain u v where "g_index g (ed_from e) = Some u" "g_index g (ed_to e) = Some v" by auto
    then have "u < step_count g" "step_name g u = ed_from e" "v < step_count g" "step_name g v = ed_to e"
      using ok unfolding graph_ok_def by blast+
    then show ?thesis using d by (metis image_eqI nth_mem)
  qed
  ultimately show ?R by blast
next
  assume ?R
  then show ?L using NewGraph_total by blast
qed

text \<open>
  C18.  \<open>topoOrder\<close> lists each step at most once and after all its predecessors over normal
  edges, and reports success exactly when the normal edges are acyclic, in which case the
  order holds every step.
\<close>

theorem topoOrder_correct:
  assumes "NewGraph def = Inr g" and "topoOrder g = (order, ok)"
  shows "distinct order \<and> topo_sorted (normal_rel g) order
    \<and> (ok \<longleftrightarrow> acyclic (normal_rel g)) \<and> (ok \<longleftrightarrow> set order = {..<length (wf_steps def)})"
proof -
  have ok: "graph_ok g" and d: "g_def g = def" using NewGraph_ok [OF assms(1)] by blast+
  show ?thesis
    using topoOrder_inv [OF ok assms(2)] topoOrder_ok_iff [OF ok] assms(2) d by simp
qed

lemma searches_closure:
  assumes "NewGraph def = Inr g" and "g_index g sid = Some i" and "j < length (wf_steps def)"
  shows "(\<exists>ds. Descendants g sid = Inr ds \<and> (step_name g j \<in> set ds \<longleftrightarrow> (i, j) \<in> (normal_rel g)\<^sup>+))
    \<and> (\<exists>as. Ancestors g sid = Inr as \<and> (step_name g j \<in> set as \<longleftrightarrow> (j, i) \<in> (normal_rel g)\<^sup>+))
    \<and> (reaches g i j \<longleftrightarrow> (i, j) \<in> (normal_rel g)\<^sup>+)"
proof -
  have ok: "graph_ok g" and d: "g_def g = def" using NewGraph_ok [OF assms(1)] by blast+
  have i: "i < step_count g" using ok assms(2) unfolding graph_ok_def by blast
  have j: "j < step_count g" using assms(3) d by simp
  have inj: "step_name g j \<in> step_name g ` marked vs \<longleftrightarrow> j \<in> marked vs" if len: "length vs = step_count g" for vs
  proof
    assume "step_name g j \<in> step_name g ` marked vs"
    then obtain k where k: "k \<in> marked vs" "step_name g j = step_name g k" by (rule imageE)
    have "k < step_count g" using k(1) len by (simp add: marked_def)
    with k(2) graph_ok_index [OF ok j] graph_ok_index [OF ok, of k] have "k = j" by (metis option.inject)
    with k(1) show "j \<in> marked vs" by simp
  qed (rule imageI)
  note outs = search_marks [OF search_inv_init [OF i out_range [OF ok]]]
  note ins = search_marks [OF search_inv_init [OF i in_range [OF ok]]]
  define dv where "dv = search (out_steps g) (replicate (step_count g) False) [i]"
  define av where "av = search (in_steps g) (replicate (step_count g) False) [i]"
  have len: "length dv = step_count g" "length av = step_count g"
    using outs ins by (simp_all only: search_inv_def dv_def av_def)
  have "marked dv = (normal_rel g)\<^sup>+ `` {i}" "marked av = ((normal_rel g)\<^sup>+)\<inverse> `` {i}"
    using search_inv_done [OF outs] search_inv_done [OF ins]
    by (simp_all only: dv_def av_def out_rel [OF ok] in_rel [OF ok] trancl_converse)
  then have "step_name g j \<in> set (marked_names g dv) \<longleftrightarrow> (i, j) \<in> (normal_rel g)\<^sup>+"
    "step_name g j \<in> set (marked_names g av) \<longleftrightarrow> (j, i) \<in> (normal_rel g)\<^sup>+"
    using inj [OF len(1)] inj [OF len(2)] by (simp_all add: marked_names_set len)
  moreover have "Descendants g sid = Inr (marked_names g dv)" "Ancestors g sid = Inr (marked_names g av)"
    using assms(2) by (simp_all only: Descendants_def Ancestors_def dv_def av_def option.case)
  moreover have "reaches g i j \<longleftrightarrow> (i, j) \<in> (normal_rel g)\<^sup>+"
    using reach_loop_iff [OF search_inv_init [OF i out_range [OF ok]]] out_rel [OF ok] by (simp add: reaches_def)
  ultimately show ?thesis by blast
qed

text \<open>
  C19.  \<open>Descendants\<close>, \<open>Ancestors\<close> and \<open>reaches\<close> compute the transitive closure of the
  normal edges: a step is a descendant exactly when a non-empty path of normal edges leads
  to it, an ancestor exactly when one leads from it, and \<open>reaches\<close> is that relation.
\<close>

theorem searches_compute_closure:
  assumes "NewGraph def = Inr g" and "g_index g sid = Some i" and "j < length (wf_steps def)"
  shows "(\<exists>ds. Descendants g sid = Inr ds \<and> (step_name g j \<in> set ds \<longleftrightarrow> (i, j) \<in> (normal_rel g)\<^sup>+))
    \<and> (\<exists>as. Ancestors g sid = Inr as \<and> (step_name g j \<in> set as \<longleftrightarrow> (j, i) \<in> (normal_rel g)\<^sup>+))
    \<and> (reaches g i j \<longleftrightarrow> (i, j) \<in> (normal_rel g)\<^sup>+)"
  using searches_closure [OF assms] .

section \<open>A diamond\<close>

text \<open>Four steps \<^verbatim>\<open>a\<close>, \<^verbatim>\<open>b\<close>, \<^verbatim>\<open>c\<close>, \<^verbatim>\<open>d\<close> in a diamond, with a loop edge from \<^verbatim>\<open>d\<close> back to \<^verbatim>\<open>a\<close>.\<close>

definition plain_step :: "string \<Rightarrow> dag_step" where
  "plain_step sid = \<lparr>st_id = sid, st_type = StepNoop, st_config = NoConfig, st_retry = None, st_timeout = []\<rparr>"

definition plain_edge :: "string \<Rightarrow> string \<Rightarrow> edge_type \<Rightarrow> dag_edge" where
  "plain_edge u v t = \<lparr>ed_from = u, ed_to = v, ed_type = t, ed_when = [], ed_condition = [],
     ed_max_iterations = 0, ed_decision = None, ed_on_exhausted = [], ed_no_progress = None\<rparr>"

definition diamond :: workflow where
  "diamond = \<lparr>wf_name = ''diamond'', wf_steps = map plain_step [''a'', ''b'', ''c'', ''d''],
     wf_edges = [plain_edge ''a'' ''b'' EdgeTypeNormal, plain_edge ''a'' ''c'' EdgeTypeNormal,
                 plain_edge ''b'' ''d'' EdgeTypeNormal, plain_edge ''c'' ''d'' EdgeTypeNormal,
                 plain_edge ''d'' ''a'' EdgeTypeLoop],
     wf_on_failure = None, wf_deadline = None, wf_budget_nano_usd = None, wf_on_budget_exceeded = None\<rparr>"

definition graph_of :: "workflow \<Rightarrow> graph" where
  "graph_of def = (case NewGraph def of Inr g \<Rightarrow> g
     | Inl _ \<Rightarrow> \<lparr>g_def = def, g_index = (\<lambda>_. None), g_outNormal = [], g_inNormal = [], g_loopEdges = []\<rparr>)"

lemma diamond_graph: "NewGraph diamond = Inr (graph_of diamond)"
proof -
  have "case NewGraph diamond of Inl _ \<Rightarrow> False | Inr _ \<Rightarrow> True" by code_simp
  then show ?thesis by (simp add: graph_of_def split: sum.splits)
qed

theorem NewGraph_accepts_iff_witness: "\<exists>g. NewGraph diamond = Inr g"
  using NewGraph_accepts_iff [of diamond] by (simp add: diamond_def plain_step_def plain_edge_def)

lemma diamond_order: "topoOrder (graph_of diamond) = ([0, 1, 2, 3], True)"
  by code_simp

theorem topoOrder_correct_witness:
  "acyclic (normal_rel (graph_of diamond)) \<and> topo_sorted (normal_rel (graph_of diamond)) [0, 1, 2, 3]"
  using topoOrder_correct [OF diamond_graph diamond_order] by simp

lemma diamond_index: "g_index (graph_of diamond) ''a'' = Some 0"
  by code_simp

lemma diamond_reaches: "reaches (graph_of diamond) 0 3"
  by code_simp

theorem searches_compute_closure_witness:
  "(0, 3) \<in> (normal_rel (graph_of diamond))\<^sup>+"
  using searches_compute_closure [OF diamond_graph diamond_index, of 3] diamond_reaches
  by (simp add: diamond_def)

end
