(* ===== verification/Dag_Ready.thy ===== *)
theory Dag_Ready
  imports Dag_Order "HOL-Library.List_Lexorder" "HOL-Library.Char_ord"
begin

text \<open>
  Readiness, \<^verbatim>\<open>internal/dag/ready.go\<close>: given which steps have completed, been skipped or
  failed, \<open>ReadySteps\<close> propagates skips in one pass over the topological order and then
  lists the steps that may run.

  A \<^verbatim>\<open>map[string]bool\<close> argument is the list of its keys that map to true; the Go code
  ranges over the map in an unspecified order, and sorts what depends on it.
\<close>

section \<open>The functions\<close>

datatype step_state = StatePending | StateCompleted | StateSkipped | StateFailed

fun assign :: "graph \<Rightarrow> step_state \<Rightarrow> string list \<Rightarrow> step_state list \<times> string list \<times> string list
    \<Rightarrow> step_state list \<times> string list \<times> string list" where
  "assign g state [] st = st"
| "assign g state (sid # ids) (states, unknown, overlap) =
     (case g_index g sid of
        None \<Rightarrow> assign g state ids (states, unknown @ [sid], overlap)
      | Some idx \<Rightarrow>
          if states ! idx \<noteq> StatePending then assign g state ids (states, unknown, overlap @ [sid])
          else assign g state ids (states[idx := state], unknown, overlap))"

definition inputStates :: "graph \<Rightarrow> string list \<Rightarrow> string list \<Rightarrow> string list \<Rightarrow> graph_error + step_state list" where
  "inputStates g completed skipped failed =
     (let (states, unknown, overlap) =
            assign g StateFailed failed (assign g StateSkipped skipped (assign g StateCompleted completed
              (replicate (step_count g) StatePending, [], [])))
      in if unknown = [] \<and> overlap = [] then Inr states
         else Inl (BadStepSets (sort unknown) (sort overlap)))"

definition joinMode :: "dag_step \<Rightarrow> join_mode option" where
  "joinMode s = (if st_type s \<noteq> StepJoin then None
     else case st_config s of JoinConfig m \<Rightarrow> m | _ \<Rightarrow> None)"

definition resolve_edge :: "graph \<Rightarrow> step_state list \<Rightarrow> nat \<Rightarrow> edge_resolution" where
  "resolve_edge g states e =
     (case states ! fromIdx g e of
        StateCompleted \<Rightarrow> EdgeResolutionFired
      | StateSkipped \<Rightarrow> EdgeResolutionSkipped
      | _ \<Rightarrow> EdgeResolutionUnresolved)"

fun skip_pass :: "graph \<Rightarrow> nat list \<Rightarrow> step_state list \<times> string list \<Rightarrow> step_state list \<times> string list" where
  "skip_pass g [] st = st"
| "skip_pass g (s # order) (states, newly) =
     (if states ! s \<noteq> StatePending \<or> g_inNormal g ! s = [] then skip_pass g order (states, newly)
      else if list_all (\<lambda>e. resolve_edge g states e = EdgeResolutionSkipped) (g_inNormal g ! s)
      then skip_pass g order (states[s := StateSkipped], newly @ [step_name g s])
      else skip_pass g order (states, newly))"

definition step_ready :: "graph \<Rightarrow> step_state list \<Rightarrow> nat \<Rightarrow> bool" where
  "step_ready g states s \<longleftrightarrow>
     states ! s = StatePending
   \<and> (if g_inNormal g ! s = [] then True
      else let anyFired = list_ex (\<lambda>e. resolve_edge g states e = EdgeResolutionFired) (g_inNormal g ! s);
               allResolved = list_all (\<lambda>e. resolve_edge g states e \<noteq> EdgeResolutionUnresolved) (g_inNormal g ! s)
           in if joinMode (wf_steps (g_def g) ! s) = Some JoinAny then anyFired
              else allResolved \<and> anyFired)"

definition ReadySteps :: "graph \<Rightarrow> string list \<Rightarrow> string list \<Rightarrow> string list
    \<Rightarrow> graph_error + string list \<times> string list" where
  "ReadySteps g completed skipped failed =
     andThen (inputStates g completed skipped failed) (\<lambda>states.
     let (order, ok) = topoOrder g in
     if \<not> ok then Inl (CyclicGraph ''ReadySteps'')
     else let (states', newly) = skip_pass g order (states, []) in
          Inr (map (step_name g) (filter (step_ready g states') [0..<step_count g]),
               sort_key (lookup_index g) newly))"

section \<open>Skip propagation reaches its fixpoint\<close>

text \<open>
  The intended states: a step that had no state yet is skipped exactly when it has normal
  in-edges and all of their sources are skipped.
\<close>

definition skip_closed :: "graph \<Rightarrow> step_state list \<Rightarrow> step_state list \<Rightarrow> nat \<Rightarrow> bool" where
  "skip_closed g states states' s \<longleftrightarrow>
     states' ! s = (if states ! s = StatePending \<and> g_inNormal g ! s \<noteq> []
                       \<and> (\<forall>e \<in> set (g_inNormal g ! s). states' ! fromIdx g e = StateSkipped)
                    then StateSkipped else states ! s)"

lemma skip_pass_length: "length (fst (skip_pass g order (states, newly))) = length states"
  by (induction order arbitrary: states newly) auto

lemma skip_pass_other:
  "s \<notin> set order \<Longrightarrow> fst (skip_pass g order (states, newly)) ! s = states ! s"
  by (induction order arbitrary: states newly) auto

lemma resolve_skipped: "resolve_edge g states e = EdgeResolutionSkipped \<longleftrightarrow> states ! fromIdx g e = StateSkipped"
  by (auto simp: resolve_edge_def split: step_state.splits)

lemma skip_pass_newly:
  assumes "distinct order" and "\<forall>s \<in> set order. s < length states"
  shows "snd (skip_pass g order (states, newly)) = newly @ map (step_name g)
    (filter (\<lambda>s. states ! s = StatePending \<and> fst (skip_pass g order (states, newly)) ! s = StateSkipped) order)"
  using assms
proof (induction order arbitrary: states newly)
  case Nil
  then show ?case by simp
next
  case (Cons s order)
  have keep: "fst (skip_pass g order (st, nw)) ! s = st ! s" for st nw
    using Cons.prems(1) by (simp add: skip_pass_other)
  have neq: "states[s := v] ! x = states ! x" if "x \<in> set order" for v x
    using Cons.prems(1) that by (metis distinct.simps(2) nth_list_update_neq)
  have cong: "filter (\<lambda>x. states[s := v] ! x = StatePending \<and> P x) order =
      filter (\<lambda>x. states ! x = StatePending \<and> P x) order" for v P
    by (intro filter_cong) (simp_all add: neq)
  show ?case
    using Cons.IH [of states newly] Cons.IH [of "states[s := StateSkipped]" "newly @ [step_name g s]"] Cons.prems
    by (auto simp: keep cong)
qed

lemma skip_pass_closed:
  assumes "distinct (done @ order)"
    and "\<forall>s \<in> set order. s < length states"
    and "\<And>i e. i < length order \<Longrightarrow> e \<in> set (g_inNormal g ! (order ! i)) \<Longrightarrow>
           fromIdx g e \<in> set done \<union> set (take i order)"
    and "s \<in> set order"
  shows "skip_closed g states (fst (skip_pass g order (states, newly))) s"
  using assms
proof (induction order arbitrary: states newly "done")
  case Nil
  then show ?case by simp
next
  case (Cons t order)
  have t: "t \<notin> set order" "t \<notin> set done" "t < length states" using Cons.prems(1,2) by auto
  have preds: "fromIdx g e \<in> set done" if "e \<in> set (g_inNormal g ! t)" for e
    using Cons.prems(3) [of 0 e] that by simp
  let ?skip = "states ! t = StatePending \<and> g_inNormal g ! t \<noteq> []
     \<and> (\<forall>e \<in> set (g_inNormal g ! t). states ! fromIdx g e = StateSkipped)"
  define st1 where "st1 = (if ?skip then states[t := StateSkipped] else states)"
  define nw1 where "nw1 = (if ?skip then newly @ [step_name g t] else newly)"
  have pass: "skip_pass g (t # order) (states, newly) = skip_pass g order (st1, nw1)"
    by (auto simp: st1_def nw1_def list_all_iff resolve_skipped)
  let ?fin = "fst (skip_pass g order (st1, nw1))"
  have later: "fromIdx g e \<in> set (done @ [t]) \<union> set (take i order)"
    if "i < length order" "e \<in> set (g_inNormal g ! (order ! i))" for i e
    using Cons.prems(3) [of "Suc i" e] that by auto
  show ?case
  proof (cases "s = t")
    case True
    have "?fin ! t = st1 ! t" using t(1) by (rule skip_pass_other)
    moreover have "?fin ! fromIdx g e = states ! fromIdx g e" if "e \<in> set (g_inNormal g ! t)" for e
    proof -
      have "fromIdx g e \<notin> set order" "fromIdx g e \<noteq> t" using preds [OF that] Cons.prems(1) by auto
      then show ?thesis by (simp add: skip_pass_other st1_def)
    qed
    ultimately show ?thesis using True t(3) unfolding pass skip_closed_def by (auto simp: st1_def)
  next
    case False
    then have s: "s \<in> set order" using Cons.prems(4) by simp
    have "skip_closed g st1 ?fin s"
      by (rule Cons.IH [of "done @ [t]"]) (use Cons.prems(1,2) later s in \<open>auto simp: st1_def\<close>)
    moreover have "st1 ! s = states ! s" using False by (simp add: st1_def)
    ultimately show ?thesis unfolding pass skip_closed_def by simp
  qed
qed

section \<open>The input states\<close>

lemma assign_spec:
  assumes "graph_ok g" and "state \<noteq> StatePending" and "length states = step_count g"
    and "assign g state ids (states, u, v) = (states', [], [])"
  shows "u = [] \<and> v = [] \<and> length states' = step_count g
    \<and> (\<forall>i < step_count g. states' ! i = (if step_name g i \<in> set ids then state else states ! i))"
  using assms
proof (induction ids arbitrary: states u v)
  case Nil
  then show ?case by simp
next
  case (Cons sid ids)
  show ?case
  proof (cases "g_index g sid")
    case None
    with Cons have "u @ [sid] = []" by (auto dest!: Cons.IH [rotated -1])
    then show ?thesis by simp
  next
    case (Some idx)
    then have idx: "idx < step_count g" "step_name g idx = sid" using Cons.prems(1) unfolding graph_ok_def by blast+
    show ?thesis
    proof (cases "states ! idx = StatePending")
      case False
      with Some Cons.prems Cons.IH [of states u "v @ [sid]"] show ?thesis by simp
    next
      case True
      then have "assign g state ids (states[idx := state], u, v) = (states', [], [])" using Some Cons.prems(4) by simp
      note IH = Cons.IH [OF Cons.prems(1,2) _ this]
      have "(step_name g i = sid) = (i = idx)" if "i < step_count g" for i
        using graph_ok_index [OF Cons.prems(1) that] Some idx(2) by (metis option.inject)
      then have "states' ! i = (if step_name g i \<in> set (sid # ids) then state else states ! i)"
        if "i < step_count g" for i
        using IH Cons.prems(3) idx(1) that by (simp add: nth_list_update)
      with IH Cons.prems(3) show ?thesis by simp
    qed
  qed
qed

definition given_state :: "string list \<Rightarrow> string list \<Rightarrow> string list \<Rightarrow> string \<Rightarrow> step_state" where
  "given_state completed skipped failed sid =
     (if sid \<in> set failed then StateFailed else if sid \<in> set skipped then StateSkipped
      else if sid \<in> set completed then StateCompleted else StatePending)"

lemma inputStates_spec:
  assumes "graph_ok g" and "inputStates g completed skipped failed = Inr states"
  shows "length states = step_count g
    \<and> (\<forall>i < step_count g. states ! i = given_state completed skipped failed (step_name g i))"
proof -
  obtain s1 u1 v1 where a1: "assign g StateCompleted completed (replicate (step_count g) StatePending, [], []) = (s1, u1, v1)"
    by (metis prod_cases3)
  obtain s2 u2 v2 where a2: "assign g StateSkipped skipped (s1, u1, v1) = (s2, u2, v2)" by (metis prod_cases3)
  have a3: "assign g StateFailed failed (s2, u2, v2) = (states, [], [])"
    using assms(2) a1 a2 by (auto simp: inputStates_def Let_def split: prod.splits if_splits)
  have l1: "length s1 = step_count g" if "u1 = []" "v1 = []"
    using assign_spec [OF assms(1) _ _ a1 [unfolded that]] by simp
  have len: "length (fst (assign g st ids (ss, u, v))) = length ss" for st ids ss u v
    by (induction ids arbitrary: ss u v) (auto split: option.splits)
  have "length s1 = step_count g" "length s2 = step_count g"
    using len [of StateCompleted completed "replicate (step_count g) StatePending" "[]" "[]"]
      len [of StateSkipped skipped s1 u1 v1] a1 a2 by simp_all
  with assign_spec [OF assms(1) _ _ a3] have 3: "u2 = []" "v2 = []" "length states = step_count g"
    "\<forall>i < step_count g. states ! i = (if step_name g i \<in> set failed then StateFailed else s2 ! i)" by auto
  from assign_spec [OF assms(1) _ _ a2 [unfolded 3(1,2)]] \<open>length s1 = step_count g\<close>
  have 2: "u1 = []" "v1 = []" "\<forall>i < step_count g. s2 ! i = (if step_name g i \<in> set skipped then StateSkipped else s1 ! i)"
    by auto
  from assign_spec [OF assms(1) _ _ a1 [unfolded 2(1,2)]]
  have "\<forall>i < step_count g. s1 ! i = (if step_name g i \<in> set completed then StateCompleted else StatePending)" by auto
  with 2(3) 3(3,4) show ?thesis by (simp add: given_state_def)
qed

section \<open>What ReadySteps returns\<close>

lemma sort_key_map: "sort_key f (map h xs) = map h (sort_key (\<lambda>x. f (h x)) xs)"
proof -
  have ins: "insort_key f (h x) (map h ys) = map h (insort_key (\<lambda>x. f (h x)) x ys)" for x ys
    by (induction ys) auto
  show ?thesis by (induction xs) (simp_all add: ins)
qed

lemma sort_key_cong_id: "\<forall>x \<in> set xs. k x = x \<Longrightarrow> sort_key k xs = sort (xs :: nat list)"
proof (induction xs)
  case (Cons x xs)
  have "insort_key k y ys = insort y ys" if "k y = y" "\<forall>z \<in> set ys. k z = z" for y and ys :: "nat list"
    using that by (induction ys) auto
  with Cons show ?case by simp
qed simp

lemma ReadySteps_spec:
  assumes ok: "graph_ok g" and ready: "ReadySteps g completed skipped failed = Inr (ready, newly)"
  shows "\<exists>states'. length states' = step_count g
    \<and> (\<forall>i < step_count g. skip_closed g
          (map (\<lambda>i. given_state completed skipped failed (step_name g i)) [0..<step_count g]) states' i)
    \<and> ready = map (step_name g) (filter (step_ready g states') [0..<step_count g])
    \<and> newly = map (step_name g) (filter (\<lambda>i. given_state completed skipped failed (step_name g i) = StatePending
          \<and> states' ! i = StateSkipped) [0..<step_count g])
    \<and> acyclic (normal_rel g)"
proof -
  let ?n = "step_count g"
  let ?given = "map (\<lambda>i. given_state completed skipped failed (step_name g i)) [0..<?n]"
  obtain states where "inputStates g completed skipped failed = Inr states"
    using ready by (auto simp: ReadySteps_def andThen_eq_Inr)
  moreover from inputStates_spec [OF ok this] have "states = ?given" by (intro nth_equalityI) auto
  ultimately have inp: "inputStates g completed skipped failed = Inr ?given" by simp
  obtain order b where t: "topoOrder g = (order, b)" by fastforce
  with ready inp have b: "b" by (auto simp: ReadySteps_def split: if_splits)
  note kahn = topoOrder_inv [OF ok t]
  have all: "set order = {..<?n}" using kahn(4) b by simp
  obtain states' nw where pass: "skip_pass g order (?given, []) = (states', nw)" by fastforce
  have len: "length states' = ?n" using skip_pass_length [of g order ?given "[]"] pass by simp
  have preds: "fromIdx g e \<in> set [] \<union> set (take i order)"
    if i: "i < length order" and e: "e \<in> set (g_inNormal g ! (order ! i))" for i e
  proof -
    have "order ! i < ?n" using all nth_mem [OF i] by auto
    moreover have "fromIdx g e \<in> set (in_steps g (order ! i))" using e by (simp add: in_steps_def)
    ultimately have "(fromIdx g e, order ! i) \<in> normal_rel g" using in_steps_set [OF ok] by blast
    with kahn(3) i show ?thesis by (simp add: topo_sorted_def)
  qed
  have "skip_closed g ?given states' i" if "i < ?n" for i
    using skip_pass_closed [of "[]" order ?given g i "[]"] kahn(1) all preds that pass by auto
  moreover have "sort_key (lookup_index g) nw = map (step_name g)
      (filter (\<lambda>i. given_state completed skipped failed (step_name g i) = StatePending \<and> states' ! i = StateSkipped) [0..<?n])"
  proof -
    let ?P = "\<lambda>i. ?given ! i = StatePending \<and> states' ! i = StateSkipped"
    have nw: "nw = map (step_name g) (filter ?P order)"
      using skip_pass_newly [of order ?given g "[]"] kahn(1) all pass by auto
    have look: "lookup_index g (step_name g i) = i" if "i \<in> set (filter ?P order)" for i
      using graph_ok_index [OF ok] all that by (simp add: lookup_index_def)
    have "sort_key (\<lambda>i. lookup_index g (step_name g i)) (filter ?P order) = sort (filter ?P order)"
      by (rule sort_key_cong_id) (use look in blast)
    then have "sort_key (lookup_index g) nw = map (step_name g) (sort (filter ?P order))"
      unfolding nw sort_key_map by (simp only:)
    also have "sort (filter ?P order) = filter ?P [0..<?n]"
      using kahn(1) all by (intro sorted_distinct_set_unique) (auto simp: sorted_wrt_filter)
    also have "\<dots> = filter (\<lambda>i. given_state completed skipped failed (step_name g i) = StatePending
        \<and> states' ! i = StateSkipped) [0..<?n]" by (intro filter_cong) auto
    finally show ?thesis .
  qed
  moreover have "acyclic (normal_rel g)" using topoOrder_ok_iff [OF ok] t b by simp
  ultimately show ?thesis using ready inp t b pass len by (auto simp: ReadySteps_def intro!: exI [of _ states'])
qed

definition propagated :: "graph \<Rightarrow> string list \<Rightarrow> string list \<Rightarrow> string list \<Rightarrow> step_state list \<Rightarrow> bool" where
  "propagated g completed skipped failed states' \<longleftrightarrow> length states' = step_count g
     \<and> (\<forall>i < step_count g. skip_closed g
          (map (\<lambda>i. given_state completed skipped failed (step_name g i)) [0..<step_count g]) states' i)"

text \<open>On an acyclic graph the propagated states are unique.\<close>

lemma propagated_unique:
  assumes ok: "graph_ok g" and acyclic: "acyclic (normal_rel g)"
    and p: "propagated g completed skipped failed st" "propagated g completed skipped failed st'"
  shows "st = st'"
proof (rule nth_equalityI)
  show "length st = length st'" using p by (simp add: propagated_def)
  have wf: "wf (normal_rel g)" by (rule finite_acyclic_wf [OF finite_normal_rel [OF ok] acyclic])
  have "i < step_count g \<Longrightarrow> st ! i = st' ! i" for i
    using wf
  proof (induction i rule: wf_induct_rule)
    case (less i)
    have "st ! fromIdx g e = st' ! fromIdx g e" if "e \<in> set (g_inNormal g ! i)" for e
    proof -
      have "fromIdx g e \<in> set (in_steps g i)" using that by (simp add: in_steps_def)
      then have "(fromIdx g e, i) \<in> normal_rel g" using in_steps_set [OF ok less.prems] by blast
      then show ?thesis using less.IH normal_rel_range [OF ok] by blast
    qed
    then show ?case using p less.prems unfolding propagated_def skip_closed_def by (metis (no_types, lifting))
  qed
  then show "st ! i = st' ! i" if "i < length st" for i using that p by (simp add: propagated_def)
qed

text \<open>The readiness rule, over the states of the steps an in-edge comes from.\<close>

definition may_start :: "graph \<Rightarrow> step_state list \<Rightarrow> nat \<Rightarrow> bool" where
  "may_start g states s \<longleftrightarrow> states ! s = StatePending \<and>
     (let sources = (!) states ` fromIdx g ` set (g_inNormal g ! s)
      in sources = {} \<or> StateCompleted \<in> sources
           \<and> (joinMode (wf_steps (g_def g) ! s) = Some JoinAny \<or> sources \<subseteq> {StateCompleted, StateSkipped}))"

lemma resolve_edge_cases:
  "resolve_edge g states e = EdgeResolutionFired \<longleftrightarrow> states ! fromIdx g e = StateCompleted"
  "resolve_edge g states e \<noteq> EdgeResolutionUnresolved \<longleftrightarrow> states ! fromIdx g e \<in> {StateCompleted, StateSkipped}"
  by (auto simp: resolve_edge_def split: step_state.splits)

lemma step_ready_rule: "step_ready g states s = may_start g states s"
proof -
  let ?sources = "(!) states ` fromIdx g ` set (g_inNormal g ! s)"
  have "list_ex (\<lambda>e. resolve_edge g states e = EdgeResolutionFired) (g_inNormal g ! s) \<longleftrightarrow> StateCompleted \<in> ?sources"
    unfolding list_ex_iff resolve_edge_cases image_image image_iff by metis
  moreover have "list_all (\<lambda>e. resolve_edge g states e \<noteq> EdgeResolutionUnresolved) (g_inNormal g ! s)
      \<longleftrightarrow> ?sources \<subseteq> {StateCompleted, StateSkipped}"
    by (auto simp: list_all_iff resolve_edge_cases)
  ultimately show ?thesis by (auto simp: step_ready_def may_start_def Let_def)
qed

text \<open>
  C5.  \<open>ReadySteps\<close> computes the unique states in which a step without a given state is
  skipped exactly when it has normal in-edges and all their sources are skipped: the single
  pass in topological order reaches the fixpoint.  The newly skipped steps are those that
  had no state and are skipped there, and the ready steps are the pending ones without
  in-edges, or with a completed source and every source completed or skipped, or for an any-join
  with a completed source; both in declaration order.
\<close>

theorem ReadySteps_correct:
  assumes "NewGraph def = Inr g" and "ReadySteps g completed skipped failed = Inr (ready, newly)"
  shows "\<exists>states'. propagated g completed skipped failed states'
    \<and> (\<forall>st. propagated g completed skipped failed st \<longrightarrow> st = states')
    \<and> ready = map (step_name g) (filter (may_start g states') [0..<step_count g])
    \<and> newly = map (step_name g) (filter (\<lambda>i. given_state completed skipped failed (step_name g i) = StatePending
          \<and> states' ! i = StateSkipped) [0..<step_count g])"
proof -
  have ok: "graph_ok g" by (rule NewGraph_ok [OF assms(1)])
  obtain states' where st: "propagated g completed skipped failed states'"
    and lists: "ready = map (step_name g) (filter (step_ready g states') [0..<step_count g])"
      "newly = map (step_name g) (filter (\<lambda>i. given_state completed skipped failed (step_name g i) = StatePending
          \<and> states' ! i = StateSkipped) [0..<step_count g])"
    and ac: "acyclic (normal_rel g)"
    using ReadySteps_spec [OF ok assms(2)] unfolding propagated_def by blast
  have "step_ready g states' = may_start g states'" by (rule ext) (rule step_ready_rule)
  with lists(1) have "ready = map (step_name g) (filter (may_start g states') [0..<step_count g])" by (simp only:)
  with st lists(2) propagated_unique [OF ok ac] show ?thesis by blast
qed

lemma diamond_ready: "ReadySteps (graph_of diamond) [''a''] [''b'', ''c''] [] = Inr ([], [''d''])"
  by code_simp

theorem ReadySteps_correct_witness:
  "\<exists>states'. propagated (graph_of diamond) [''a''] [''b'', ''c''] [] states'
     \<and> filter (may_start (graph_of diamond) states') [0..<4] = []"
proof -
  have n: "step_count (graph_of diamond) = 4" by code_simp
  from ReadySteps_correct [OF diamond_graph diamond_ready] obtain st
    where "propagated (graph_of diamond) [''a''] [''b'', ''c''] [] st"
      and "[] = map (step_name (graph_of diamond)) (filter (may_start (graph_of diamond) st) [0..<4])"
    unfolding n by blast
  then show ?thesis by (metis map_is_Nil_conv)
qed

section \<open>Entry steps\<close>

lemma ReadySteps_entry:
  assumes ok: "graph_ok g" and ready: "ReadySteps g [] [] [] = Inr (ready, newly)"
  shows "newly = []" and "ready = map (step_name g) (filter (\<lambda>i. g_inNormal g ! i = []) [0..<step_count g])"
proof -
  obtain st where st: "propagated g [] [] [] st"
    and lists: "ready = map (step_name g) (filter (step_ready g st) [0..<step_count g])"
      "newly = map (step_name g) (filter (\<lambda>i. given_state [] [] [] (step_name g i) = StatePending
          \<and> st ! i = StateSkipped) [0..<step_count g])"
    and ac: "acyclic (normal_rel g)"
    using ReadySteps_spec [OF ok ready] unfolding propagated_def by blast
  let ?st = "replicate (step_count g) StatePending"
  have "fromIdx g e < step_count g" if "i < step_count g" "e \<in> set (g_inNormal g ! i)" for i e
    using in_range [OF ok] that by (auto simp: in_steps_def)
  then have "propagated g [] [] [] ?st"
    by (fastforce simp: propagated_def skip_closed_def given_state_def neq_Nil_conv)
  with st have st: "st = ?st" by (rule propagated_unique [OF ok ac])
  show "newly = []" using lists(2) st by (simp add: filter_empty_conv)
  have "step_ready g st i \<longleftrightarrow> g_inNormal g ! i = []" if "i < step_count g" for i
    using st that in_range [OF ok] by (auto simp: step_ready_def resolve_edge_def list_ex_iff Let_def in_steps_def)
  then show "ready = map (step_name g) (filter (\<lambda>i. g_inNormal g ! i = []) [0..<step_count g])"
    unfolding lists(1) by (intro arg_cong [where f = "map (step_name g)"] filter_cong) auto
qed

end
