(* ===== verification/Store_Instantiate.thy ===== *)
theory Store_Instantiate
  imports Store_Ops Dag_Ready
begin

text \<open>
  Run instantiation, \<^verbatim>\<open>internal/store/instantiate.go\<close> and \<^verbatim>\<open>materialize.go\<close>: the plan
  computed from a definition and the one transaction that writes a run's first rows.

  The definition passed in has been validated, its agent steps carry the configuration
  merged from their roles, its \<^verbatim>\<open>max_wall_clock\<close> is the parsed duration and its
  \<^verbatim>\<open>budget_usd\<close> the converted number of nano-dollars.  The policies a step row stores
  opaquely (cache, budget, validation, blackboard, context) are columns the model leaves out.
  The test failpoints are not modelled.
\<close>

section \<open>Planning\<close>

datatype create_error = CreateGraph graph_error | CreateSkipped "string list" | CreateStore store_error

record instantiation_plan =
  ip_def :: workflow
  ip_entry :: "string list"
  ip_remaining :: "string \<Rightarrow> int"

fun count_remaining :: "dag_edge list \<Rightarrow> (string \<Rightarrow> int) \<Rightarrow> string \<Rightarrow> int" where
  "count_remaining [] m = m"
| "count_remaining (e # es) m =
     count_remaining es (if IsLoop e then m else m(ed_to e := m (ed_to e) + 1))"

definition lift_graph :: "graph_error + 'a \<Rightarrow> create_error + 'a" where
  "lift_graph r = map_sum CreateGraph id r"

definition planInstantiation :: "workflow \<Rightarrow> create_error + instantiation_plan" where
  "planInstantiation def =
     andThen (lift_graph (NewGraph def)) (\<lambda>g.
     andThen (lift_graph (ReadySteps g [] [] [])) (\<lambda>(entry, newly).
     if newly \<noteq> [] then Inl (CreateSkipped newly)
     else Inr \<lparr>ip_def = def, ip_entry = entry, ip_remaining = count_remaining (wf_edges def) (\<lambda>_. 0)\<rparr>))"

section \<open>Materializing rows\<close>

record step_placement =
  sp_status :: step_status
  sp_remaining_deps :: int
  sp_graph_version :: int
  sp_depth :: int
  sp_origin_step :: "step_id option"
  sp_origin_kind :: "origin_kind option"

definition stepRowParams :: "dag_step \<Rightarrow> step_placement \<Rightarrow> time \<Rightarrow> step_row" where
  "stepRowParams s p now =
     \<lparr>s_step_id = st_id s, s_step_type = st_type s, s_config = st_config s, s_status = sp_status p,
      s_remaining_deps = sp_remaining_deps p, s_fired_deps = 0, s_claim_id = None, s_attempt_count = 0,
      s_output = None, s_error = None, s_graph_version = sp_graph_version p, s_updated_at = now,
      s_started_at = None, s_finished_at = None,
      s_retry_policy = Some (retry_policy_json (ResolveRetryPolicy (st_retry s))),
      s_next_attempt_at = None, s_timeout = nullableText (st_timeout s), s_trace_span = None,
      s_feedback = None, s_depth = sp_depth p, s_origin_step = sp_origin_step p, s_origin_kind = sp_origin_kind p\<rparr>"

definition edgeRowParams :: "dag_edge \<Rightarrow> int \<Rightarrow> int \<Rightarrow> edge_row" where
  "edgeRowParams e ordinal version =
     \<lparr>e_ordinal = ordinal, e_from_step = ed_from e, e_to_step = ed_to e, e_edge_type = ed_type e,
      e_when_expr = nullableText (ed_when e), e_condition = nullableText (ed_condition e),
      e_max_iterations = (if ed_max_iterations e \<noteq> 0 then Some (ed_max_iterations e) else None),
      e_resolution = EdgeResolutionUnresolved, e_graph_version = version, e_decision = ed_decision e\<rparr>"

fun edge_rows_from :: "int \<Rightarrow> int \<Rightarrow> dag_edge list \<Rightarrow> edge_row list" where
  "edge_rows_from v i [] = []"
| "edge_rows_from v i (e # es) = edgeRowParams e i v # edge_rows_from v (i + 1) es"

fun append_events :: "event_payload list \<Rightarrow> rundb \<Rightarrow> rundb result" where
  "append_events [] db = Inr db"
| "append_events (p # ps) db = andThen (appendEvent p db) (append_events ps)"

record create_args =
  cr_params :: raw
  cr_definition_id :: string
  cr_now :: time
  cr_trace :: trace_context

definition new_run_row :: "instantiation_plan \<Rightarrow> create_args \<Rightarrow> run_row" where
  "new_run_row p args =
     \<lparr>r_status = RunStatusRunning, r_params = coalesce (cr_params args) (JObj []), r_graph_version = 1, r_next_seq = 0,
      r_steps_total = int (length (wf_steps (ip_def p))), r_steps_succeeded = 0, r_steps_failed = 0,
      r_steps_skipped = 0, r_steps_cancelled = 0, r_steps_collected = 0,
      r_started_at = Some (cr_now args), r_finished_at = None,
      r_on_failure = (case wf_on_failure (ip_def p) of None \<Rightarrow> FailFast | Some f \<Rightarrow> f),
      r_park_reason = None, r_cancel_reason = None,
      r_deadline_at = map_option (\<lambda>d. cr_now args + d) (wf_deadline (ip_def p)),
      r_trace = cr_trace args, r_spent_nano_usd = 0, r_saved_nano_usd = 0,
      r_budget_nano_usd = wf_budget_nano_usd (ip_def p),
      r_on_budget_exceeded = (case wf_on_budget_exceeded (ip_def p) of None \<Rightarrow> BudgetPark | Some b \<Rightarrow> b)\<rparr>"

definition new_step_rows :: "instantiation_plan \<Rightarrow> create_args \<Rightarrow> step_row list" where
  "new_step_rows p args = map (\<lambda>s. stepRowParams s
     \<lparr>sp_status = (if st_id s \<in> set (ip_entry p) then StepStatusReady else StepStatusPending),
      sp_remaining_deps = ip_remaining p (st_id s), sp_graph_version = 1, sp_depth = 0,
      sp_origin_step = None, sp_origin_kind = None\<rparr> (cr_now args)) (wf_steps (ip_def p))"

text \<open>
  The insert transaction on a run id whose tables are empty.  The step rows are kept in the
  order the list query returns them, by step id.
\<close>

definition insert_run :: "instantiation_plan \<Rightarrow> create_args \<Rightarrow> rundb \<Rightarrow> (run_row \<times> rundb) result" where
  "insert_run p args db =
     (if run db \<noteq> None then Inl (ErrConstraint ''runs_pkey'') else
      let rn = new_run_row p args; rows = new_step_rows p args in
      if \<not> distinct (map s_step_id rows) then Inl (ErrConstraint ''run_steps_pkey'') else
      let db1 = db\<lparr>run := Some rn, steps := sort_key s_step_id rows, edges := edge_rows_from 1 0 (wf_edges (ip_def p))\<rparr> in
      andThen (append_events
        (EvRunCreated (wf_name (ip_def p)) (cr_definition_id args) (int (length (wf_steps (ip_def p))))
         # map EvStepReady (ip_entry p)) db1) (\<lambda>db2.
      Inr (rn, fold (\<lambda>sid. createOutboxTask sid OutboxReasonStepReady (cr_trace args)) (ip_entry p) db2)))"

definition empty_db :: rundb where
  "empty_db = \<lparr>run = None, steps = [], edges = [], attempts = [], events = [], dead_letters = [],
     outbox = [], approvals = [], txbuf = []\<rparr>"

definition CreateRun_tx :: "workflow \<Rightarrow> create_args \<Rightarrow> create_error + run_row \<times> rundb" where
  "CreateRun_tx def args =
     andThen (planInstantiation def) (\<lambda>p. map_sum CreateStore id (insert_run p args empty_db))"

section \<open>What the plan holds\<close>

lemma count_remaining_eq:
  "count_remaining es m sid = m sid + int (length (filter (\<lambda>e. \<not> IsLoop e \<and> ed_to e = sid) es))"
  by (induction es arbitrary: m) auto

lemma lift_graph_eq_Inr [simp]: "lift_graph r = Inr x \<longleftrightarrow> r = Inr x"
  by (cases r) (simp_all add: lift_graph_def)

lemma planInstantiation_spec:
  assumes "planInstantiation def = Inr p"
  shows "\<exists>g. NewGraph def = Inr g \<and> graph_ok g \<and> g_def g = def \<and> acyclic (normal_rel g)
    \<and> p = \<lparr>ip_def = def,
           ip_entry = map (step_name g) (filter (\<lambda>i. g_inNormal g ! i = []) [0..<step_count g]),
           ip_remaining = count_remaining (wf_edges def) (\<lambda>_. 0)\<rparr>"
proof -
  from assms obtain g entry where g: "NewGraph def = Inr g"
    and ready: "ReadySteps g [] [] [] = Inr (entry, [])"
    and p: "p = \<lparr>ip_def = def, ip_entry = entry, ip_remaining = count_remaining (wf_edges def) (\<lambda>_. 0)\<rparr>"
    by (auto simp: planInstantiation_def andThen_eq_Inr split: if_splits)
  note ok = NewGraph_ok [OF g]
  have "acyclic (normal_rel g)" using ReadySteps_spec [OF ok(1) ready] by blast
  with g ok p ReadySteps_entry(2) [OF ok(1) ready] show ?thesis by auto
qed

lemma no_normal_in_edges:
  assumes "graph_ok g" and "i < step_count g"
  shows "g_inNormal g ! i = [] \<longleftrightarrow> filter (\<lambda>e. \<not> IsLoop e \<and> ed_to e = step_name g i) (wf_edges (g_def g)) = []"
proof -
  have ix: "g_index g (ed_to e) = Some i \<longleftrightarrow> ed_to e = step_name g i" for e
    using graph_ok_index [OF assms] assms(1) unfolding graph_ok_def by metis
  have inn: "g_inNormal g ! i =
      filter (\<lambda>k. \<not> IsLoop (nth_edge g k) \<and> g_index g (ed_to (nth_edge g k)) = Some i) [0..<edge_count g]"
    using assms unfolding graph_ok_def by blast
  have "g_inNormal g ! i = [] \<longleftrightarrow>
      (\<forall>k < edge_count g. \<not> (\<not> IsLoop (nth_edge g k) \<and> ed_to (nth_edge g k) = step_name g i))"
    unfolding inn ix filter_empty_conv by auto
  also have "\<dots> \<longleftrightarrow> (\<forall>e \<in> set (wf_edges (g_def g)). \<not> (\<not> IsLoop e \<and> ed_to e = step_name g i))"
    unfolding all_set_conv_all_nth by blast
  finally show ?thesis by (simp add: filter_empty_conv)
qed


section \<open>The insert transaction\<close>

lemma sort_key_map_eq: "map f (sort_key f xs) = sort (map f xs)"
  using sort_key_map [of "\<lambda>x. x" f xs] by simp

lemma appendEvent_total:
  assumes "run db = Some r" and "log_ok r (events db)"
  shows "appendEvent p db = Inr (log_event p db)"
proof -
  have "ev_seq e \<noteq> r_next_seq r + 1" if "e \<in> set (events db)" for e
  proof -
    have "ev_seq e \<in> set (map ev_seq (events db))" using that by simp
    also have "\<dots> = {1..r_next_seq r}" using assms(2) unfolding log_ok_def by simp
    finally show ?thesis by simp
  qed
  then show ?thesis using assms(1) unfolding appendEvent_eq_Inr by blast
qed

lemma log_event_inv:
  assumes "db_inv db"
  shows "db_inv (log_event p db)"
proof -
  from assms obtain r where "run db = Some r" by (auto simp: db_inv_def run_inv_def split: option.splits)
  then show ?thesis by (rule db_inv_side [OF assms side_move_log_event])
qed

lemma appendEvent_inv: "db_inv db \<Longrightarrow> appendEvent p db = Inr (log_event p db)"
  by (auto simp: db_inv_def run_inv_def split: option.splits intro: appendEvent_total)

lemma append_events_inv:
  "db_inv db \<Longrightarrow> append_events ps db = Inr (fold log_event ps db) \<and> db_inv (fold log_event ps db)"
  by (induction ps arbitrary: db) (simp_all add: appendEvent_inv log_event_inv)

lemma fold_log_event_frame [simp]:
  "steps (fold log_event ps db) = steps db" "edges (fold log_event ps db) = edges db"
  "attempts (fold log_event ps db) = attempts db" "outbox (fold log_event ps db) = outbox db"
  "dead_letters (fold log_event ps db) = dead_letters db" "approvals (fold log_event ps db) = approvals db"
  by (induction ps arbitrary: db) simp_all

lemma fold_log_event_events:
  assumes "run db = Some r"
  shows "events (fold log_event ps db) = events db @ numbered (r_next_seq r) ps
       \<and> txbuf (fold log_event ps db) = txbuf db @ numbered (r_next_seq r) ps
       \<and> run (fold log_event ps db) = Some (r\<lparr>r_next_seq := r_next_seq r + int (length ps)\<rparr>)"
  using assms
proof (induction ps arbitrary: db r)
  case Nil
  then show ?case by simp
next
  case (Cons p ps)
  from Cons.IH [of "log_event p db" "r\<lparr>r_next_seq := r_next_seq r + 1\<rparr>"] Cons.prems
  show ?case by (simp add: log_event_def Let_def)
qed

lemma createOutboxTask_inv: "db_inv db \<Longrightarrow> db_inv (createOutboxTask sid why tr db)"
  by (rule db_inv.moves_keep [OF createOutboxTask_refines])

lemma fold_outbox_inv: "db_inv db \<Longrightarrow> db_inv (fold (\<lambda>sid. createOutboxTask sid why tr) sids db)"
  by (induction sids arbitrary: db) (simp_all add: createOutboxTask_inv)

lemma fold_outbox_eq:
  "fold (\<lambda>sid. createOutboxTask sid why tr) sids db =
     db\<lparr>outbox := outbox db @ map (\<lambda>sid. \<lparr>ob_step_id = sid, ob_reason = why, ob_trace = tr\<rparr>) sids\<rparr>"
  by (induction sids arbitrary: db) (simp_all add: createOutboxTask_def)

section \<open>The rows of a new run\<close>

lemma edge_rows_in_edges:
  "in_edges sid EdgeResolutionUnresolved (edge_rows_from v i es) =
     int (length (filter (\<lambda>e. \<not> IsLoop e \<and> ed_to e = sid) es))"
  "in_edges sid EdgeResolutionFired (edge_rows_from v i es) = 0"
proof (induction es arbitrary: i)
  case (Cons e es)
  { case 1 show ?case using Cons.IH(1) [of "i + 1"]
      by (cases "ed_type e") (auto simp: in_edges_def edgeRowParams_def IsLoop_def) }
  { case 2 show ?case using Cons.IH(2) [of "i + 1"] by (auto simp: in_edges_def edgeRowParams_def) }
qed (simp_all add: in_edges_def)

lemma edge_rows_ordinals: "map e_ordinal (edge_rows_from v i es) = map (\<lambda>k. i + int k) [0..<length es]"
proof (induction es arbitrary: i)
  case (Cons e es)
  have upt: "[0..<length (e # es)] = 0 # map Suc [0..<length es]"
    by (simp add: upt_conv_Cons map_Suc_upt del: upt_Suc)
  show ?case unfolding upt by (simp add: edgeRowParams_def o_def Cons add.assoc)
qed simp

lemma edge_rows_set:
  "x \<in> set (edge_rows_from v i es) \<Longrightarrow> \<exists>e \<in> set es. e_from_step x = ed_from e \<and> e_to_step x = ed_to e
     \<and> e_resolution x = EdgeResolutionUnresolved"
  by (induction es arbitrary: i) (auto simp: edgeRowParams_def)

lemma new_step_rows_set:
  assumes "x \<in> set (new_step_rows p args)"
  shows "\<exists>s \<in> set (wf_steps (ip_def p)). s_step_id x = st_id s
     \<and> s_status x = (if st_id s \<in> set (ip_entry p) then StepStatusReady else StepStatusPending)
     \<and> s_remaining_deps x = ip_remaining p (st_id s) \<and> s_fired_deps x = 0 \<and> s_attempt_count x = 0"
  using assms by (auto simp: new_step_rows_def stepRowParams_def)

lemma new_step_rows_ids: "map s_step_id (new_step_rows p args) = map st_id (wf_steps (ip_def p))"
  by (simp add: new_step_rows_def stepRowParams_def o_def)

lemma status_count_zero: "\<forall>s \<in> set ss. s_status s \<noteq> st \<Longrightarrow> status_count st ss = 0"
  by (simp add: status_count_def filter_empty_conv)

text \<open>The tables before the first event.\<close>

definition new_tables :: "instantiation_plan \<Rightarrow> create_args \<Rightarrow> rundb" where
  "new_tables p args = empty_db\<lparr>run := Some (new_run_row p args),
     steps := sort_key s_step_id (new_step_rows p args), edges := edge_rows_from 1 0 (wf_edges (ip_def p))\<rparr>"

lemma new_tables_inv:
  assumes "planInstantiation def = Inr p"
  shows "db_inv (new_tables p args)"
proof -
  obtain g where g: "graph_ok g" "g_def g = def"
    and p: "ip_def p = def" "ip_remaining p = count_remaining (wf_edges def) (\<lambda>_. 0)"
    using planInstantiation_spec [OF assms] by auto
  let ?ss = "sort_key s_step_id (new_step_rows p args)" and ?es = "edge_rows_from 1 0 (wf_edges def)"
  have ids: "distinct (map st_id (wf_steps def))" using graph_ok_ids(1) [OF g(1)] g(2) by simp
  then have "distinct (map s_step_id (new_step_rows p args))" unfolding new_step_rows_ids p(1) .
  then have distinct: "distinct (map s_step_id ?ss)" by (simp add: distinct_map)
  have status: "s_status x = StepStatusReady \<or> s_status x = StepStatusPending" if "x \<in> set ?ss" for x
    using new_step_rows_set [of x p args] that by (auto split: if_splits)
  have rows: "step_row_ok x \<and> deps_ok ?es x \<and> attempts_ok [] x \<and> dead_letters_ok [] x" if x: "x \<in> set ?ss" for x
  proof -
    have "x \<in> set (new_step_rows p args)" using x by simp
    from new_step_rows_set [OF this] obtain s :: dag_step where "s_step_id x = st_id s"
        "s_remaining_deps x = ip_remaining p (st_id s)" "s_fired_deps x = 0" "s_attempt_count x = 0"
      by blast
    with status [OF x] p(2) show ?thesis
      by (auto simp: step_row_ok_def deps_ok_def edge_rows_in_edges count_remaining_eq attempts_ok_def
          attempts_of_def dead_letters_ok_def dead_letters_of_def attempt_open_def)
  qed
  have steps: "steps_inv (new_tables p args)"
    using distinct rows by (simp add: steps_inv_def new_tables_def empty_db_def p(1))
  have "status_count st ?ss = 0" if "st \<noteq> StepStatusReady" "st \<noteq> StepStatusPending" for st
    using status that by (intro status_count_zero) auto
  moreover have "length (new_step_rows p args) = length (wf_steps def)" by (simp add: new_step_rows_def p(1))
  ultimately have "run_inv (new_tables p args)"
    by (simp add: run_inv_def new_tables_def empty_db_def new_run_row_def counters_ok_def log_ok_def
        run_state_ok_def run_succeeded_ok_def run_terminal_def p(1))
  moreover have "edges_ok ?ss ?es"
  proof -
    have "s_step_id ` set ?ss = st_id ` set (wf_steps def)"
      using new_step_rows_ids [of p args] p(1) by (metis list.set_map set_sort)
    moreover have "distinct (map e_ordinal ?es)" by (simp add: edge_rows_ordinals distinct_map inj_on_def)
    ultimately show ?thesis
      unfolding edges_ok_def using edge_rows_set [of _ 1 0 "wf_edges def"] graph_ok_ids(2) [OF g(1)] g(2) by metis
  qed
  ultimately show ?thesis
    using steps by (simp add: db_inv_def new_tables_def empty_db_def approvals_ok_def p(1))
qed

definition first_events :: "instantiation_plan \<Rightarrow> create_args \<Rightarrow> event_payload list" where
  "first_events p args =
     EvRunCreated (wf_name (ip_def p)) (cr_definition_id args) (int (length (wf_steps (ip_def p))))
     # map EvStepReady (ip_entry p)"

lemma insert_run_eq:
  assumes plan: "planInstantiation def = Inr p"
  shows "insert_run p args empty_db = Inr (new_run_row p args,
    fold (\<lambda>sid. createOutboxTask sid OutboxReasonStepReady (cr_trace args)) (ip_entry p)
      (fold log_event (first_events p args) (new_tables p args)))"
proof -
  have inv: "db_inv (new_tables p args)" by (rule new_tables_inv [OF plan])
  then have "distinct (map s_step_id (new_step_rows p args))"
    by (simp add: db_inv_def steps_inv_def new_tables_def distinct_map)
  moreover have "append_events (first_events p args) (new_tables p args) =
      Inr (fold log_event (first_events p args) (new_tables p args))"
    using append_events_inv [OF inv] by blast
  moreover have "run empty_db = None" by (simp add: empty_db_def)
  ultimately show ?thesis
    by (simp add: insert_run_def Let_def flip: first_events_def new_tables_def)
qed

lemma CreateRun_tx_eq_Inr:
  "CreateRun_tx def args = Inr (rn, db) \<longleftrightarrow> (\<exists>p. planInstantiation def = Inr p \<and> rn = new_run_row p args
     \<and> db = fold (\<lambda>sid. createOutboxTask sid OutboxReasonStepReady (cr_trace args)) (ip_entry p)
              (fold log_event (first_events p args) (new_tables p args)))"
  using insert_run_eq [of def _ args] by (auto simp: CreateRun_tx_def andThen_eq_Inr)

lemma CreateRun_tx_inv: "CreateRun_tx def args = Inr (rn, db) \<Longrightarrow> db_inv db"
  unfolding CreateRun_tx_eq_Inr using new_tables_inv append_events_inv fold_outbox_inv by metis

section \<open>Runs from their creation\<close>

text \<open>
  Every history of a run, from the transaction that creates it through any sequence of
  store transitions, stays inside the invariant of its tables.
\<close>

theorem histories_keep_invariant:
  assumes "CreateRun_tx def args = Inr (rn, db)" and "rtranclp store_op db db'"
  shows "db_inv db'"
  using db_inv.moves_keep [OF store_ops_moves [OF assms(2)] CreateRun_tx_inv [OF assms(1)]] .

lemma planInstantiation_total:
  assumes "NewGraph def = Inr g" and "acyclic (normal_rel g)"
  shows "\<exists>p. planInstantiation def = Inr p"
proof -
  have ok: "graph_ok g" by (rule NewGraph_ok [OF assms(1)])
  obtain order where order: "topoOrder g = (order, True)"
    using topoOrder_ok_iff [OF ok] assms(2) by (metis surj_pair snd_conv)
  have "\<exists>ready newly. ReadySteps g [] [] [] = Inr (ready, newly)"
    by (simp add: ReadySteps_def inputStates_def order case_prod_beta)
  then obtain ready newly where ready: "ReadySteps g [] [] [] = Inr (ready, newly)" by blast
  with ReadySteps_entry(1) [OF ok ready] show ?thesis
    by (simp add: planInstantiation_def assms(1) lift_graph_def)
qed

text \<open>The normal edges of a definition that lead to a step.\<close>

abbreviation normal_into :: "workflow \<Rightarrow> string \<Rightarrow> dag_edge list" where
  "normal_into def sid \<equiv> filter (\<lambda>e. \<not> IsLoop e \<and> ed_to e = sid) (wf_edges def)"

lemma plan_entry:
  assumes "planInstantiation def = Inr p"
  shows "ip_entry p = filter (\<lambda>sid. normal_into def sid = []) (map st_id (wf_steps def))"
proof -
  obtain g where g: "graph_ok g" "g_def g = def"
    and entry: "ip_entry p = map (step_name g) (filter (\<lambda>i. g_inNormal g ! i = []) [0..<step_count g])"
    using planInstantiation_spec [OF assms] by auto
  have "map st_id (wf_steps def) = map (step_name g) [0..<step_count g]"
    using g(2) by (metis (no_types, lifting) map_map map_nth comp_def map_eq_conv)
  moreover have "filter (\<lambda>i. g_inNormal g ! i = []) [0..<step_count g]
      = filter (\<lambda>i. normal_into def (step_name g i) = []) [0..<step_count g]"
    using no_normal_in_edges [OF g(1)] g(2) by (intro filter_cong) auto
  ultimately show ?thesis by (simp add: entry filter_map o_def)
qed


definition plain_args :: create_args where
  "plain_args = \<lparr>cr_params = None, cr_definition_id = [], cr_now = 100, cr_trace = no_trace\<rparr>"

lemma diamond_created:
  "CreateRun_tx diamond plain_args \<noteq> Inl e"
  by code_simp


theorem histories_keep_invariant_witness:
  "db_inv (db_after (ClaimStep ''a'' ''w1'' [] 200 7
     (db_after (map_sum (\<lambda>_. ErrZeroNow) id (CreateRun_tx diamond
        plain_args)) empty_db))
     empty_db)"
proof -
  let ?created = "CreateRun_tx diamond plain_args"
  obtain rn db where created: "?created = Inr (rn, db)" using diamond_created by (metis sumE surj_pair)
  have "ClaimStep ''a'' ''w1'' [] 200 7 (db_after (map_sum (\<lambda>_. ErrZeroNow) id ?created) empty_db) \<noteq> Inl e" for e
    by code_simp
  then have "ClaimStep ''a'' ''w1'' [] 200 7 db \<noteq> Inl e" for e by (simp add: created db_after_def)
  then obtain x db' where claim: "ClaimStep ''a'' ''w1'' [] 200 7 db = Inr (x, db')" by (metis sumE surj_pair)
  have "db_inv db'"
    by (rule histories_keep_invariant [OF created]) (rule r_into_rtranclp, rule store_op.ClaimStep [OF claim])
  then show ?thesis by (simp add: created claim db_after_def)
qed

end
