(* ===== verification/Dag_Cycles.thy ===== *)
theory Dag_Cycles
  imports Dag_Ready
begin

text \<open>
  The three-colour depth-first search \<^verbatim>\<open>findCycles\<close> of \<^verbatim>\<open>internal/dag/graph.go\<close>, which
  definition validation, map-body validation and expansion validation share: it ends, every
  finding is a cycle of normal edges closed by the edge it names, and it finds nothing exactly
  on the acyclic graphs.
\<close>

section \<open>The search\<close>

datatype color = White | Gray | Black

record cycle_finding =
  cf_edge :: nat
  cf_path :: "string list"

text \<open>
  A frame is a step with the out-edges it has not followed yet (the tail of \<^verbatim>\<open>outNormal\<close> from
  position \<^verbatim>\<open>next\<close>); the head of the stack is the frame on top.  An index outside the array
  would panic in Go; the search only meets indices of steps.
\<close>

type_synonym frame = "nat \<times> nat list"

definition color_of :: "color list \<Rightarrow> nat \<Rightarrow> color" where
  "color_of color t = (if t < length color then color ! t else Black)"

definition cycle_path :: "graph \<Rightarrow> nat \<Rightarrow> frame list \<Rightarrow> string list" where
  "cycle_path g t stack = map (step_name g) (t # rev (map fst (takeWhile (\<lambda>f. fst f \<noteq> t) stack)) @ [t])"

definition white_count :: "color list \<Rightarrow> nat" where
  "white_count color = length (filter (\<lambda>c. c = White) color)"

lemma white_count_update:
  assumes "t < length color" and "color ! t = White" and "c \<noteq> White"
  shows "white_count (color[t := c]) < white_count color"
proof -
  have split: "color = take t color @ color ! t # drop (Suc t) color" using assms(1) by (rule id_take_nth_drop)
  have "white_count color = Suc (white_count (take t color) + white_count (drop (Suc t) color))"
    by (subst split) (use assms(2) in \<open>simp add: white_count_def\<close>)
  then show ?thesis using assms by (simp add: upd_conv_take_nth_drop white_count_def)
qed

lemma white_count_no_more: "c \<noteq> White \<Longrightarrow> white_count (color[t := c]) \<le> white_count color"
proof (cases "t < length color \<and> color ! t = White")
  case False
  assume "c \<noteq> White"
  then show ?thesis
    using False by (induction color arbitrary: t) (auto simp: white_count_def split: nat.splits)
qed (use white_count_update less_imp_le in blast)

function cycle_dfs :: "graph \<Rightarrow> color list \<Rightarrow> frame list \<Rightarrow> cycle_finding list \<Rightarrow> color list \<times> cycle_finding list" where
  "cycle_dfs g color [] findings = (color, findings)"
| "cycle_dfs g color ((s, []) # stack) findings = cycle_dfs g (color[s := Black]) stack findings"
| "cycle_dfs g color ((s, e # es) # stack) findings =
     (let t = toIdx g e in
      case color_of color t of
        White \<Rightarrow> cycle_dfs g (color[t := Gray]) ((t, g_outNormal g ! t) # (s, es) # stack) findings
      | Gray \<Rightarrow> cycle_dfs g color ((s, es) # stack)
                 (findings @ [\<lparr>cf_edge = e, cf_path = cycle_path g t ((s, es) # stack)\<rparr>])
      | Black \<Rightarrow> cycle_dfs g color ((s, es) # stack) findings)"
  by pat_completeness auto
termination
proof (relation "measures [\<lambda>(g, color, stack, findings). white_count color,
    \<lambda>(g, color, stack, findings). sum_list (map (\<lambda>f. Suc (length (snd f))) stack)]")
  fix g :: graph and color :: "color list" and s :: nat and stack findings
  show "((g, color[s := Black], stack, findings), g, color, (s, []) # stack, findings)
    \<in> measures [\<lambda>(g, color, stack, findings). white_count color,
        \<lambda>(g, color, stack, findings). sum_list (map (\<lambda>f. Suc (length (snd f))) stack)]"
    using white_count_no_more [of Black color s] by (simp add: le_less)
next
  fix g :: graph and color :: "color list" and s e :: nat and es stack findings t
  assume "t = toIdx g e" "color_of color t = White"
  then show "((g, color[t := Gray], (t, g_outNormal g ! t) # (s, es) # stack, findings), g, color, (s, e # es) # stack, findings)
    \<in> measures [\<lambda>(g, color, stack, findings). white_count color,
        \<lambda>(g, color, stack, findings). sum_list (map (\<lambda>f. Suc (length (snd f))) stack)]"
    using white_count_update [of t color Gray] by (simp add: color_of_def split: if_splits)
qed simp_all

fun cycle_roots :: "graph \<Rightarrow> nat list \<Rightarrow> color list \<Rightarrow> cycle_finding list \<Rightarrow> color list \<times> cycle_finding list" where
  "cycle_roots g [] color findings = (color, findings)"
| "cycle_roots g (root # roots) color findings =
     (if color ! root \<noteq> White then cycle_roots g roots color findings
      else let (color', findings') = cycle_dfs g (color[root := Gray]) [(root, g_outNormal g ! root)] findings
           in cycle_roots g roots color' findings')"

definition findCycles :: "graph \<Rightarrow> cycle_finding list" where
  "findCycles g = snd (cycle_roots g [0..<step_count g] (replicate (step_count g) White) [])"

section \<open>Every finding is a cycle\<close>

text \<open>The finding names the steps of a cycle of normal edges, in order, and the edge that closes it.\<close>

definition real_cycle :: "graph \<Rightarrow> cycle_finding \<Rightarrow> bool" where
  "real_cycle g f \<longleftrightarrow> (\<exists>vs. vs \<noteq> [] \<and> distinct vs \<and> successively (\<lambda>u v. (u, v) \<in> normal_rel g) vs
     \<and> cf_path f = map (step_name g) (vs @ [hd vs]) \<and> cf_edge f \<in> set (g_outNormal g ! last vs)
     \<and> toIdx g (cf_edge f) = hd vs \<and> (last vs, hd vs) \<in> normal_rel g)"

definition stack_ok :: "graph \<Rightarrow> color list \<Rightarrow> frame list \<Rightarrow> bool" where
  "stack_ok g color stack \<longleftrightarrow> length color = step_count g \<and> distinct (map fst stack)
     \<and> (\<forall>v < step_count g. color ! v = Gray \<longleftrightarrow> v \<in> fst ` set stack)
     \<and> (\<forall>f \<in> set stack. fst f < step_count g \<and> set (snd f) \<subseteq> set (g_outNormal g ! fst f))
     \<and> successively (\<lambda>t s. (s, t) \<in> normal_rel g) (map fst stack)"

lemma out_edge:
  assumes "graph_ok g" and "s < step_count g" and "e \<in> set (g_outNormal g ! s)"
  shows "(s, toIdx g e) \<in> normal_rel g" and "toIdx g e < step_count g"
proof -
  have "toIdx g e \<in> set (out_steps g s)" using assms(3) by (simp add: out_steps_def)
  then show "(s, toIdx g e) \<in> normal_rel g" using out_steps_set [OF assms(1,2)] by simp
  then show "toIdx g e < step_count g" using normal_rel_range [OF assms(1)] by blast
qed

lemma stack_ok_pop:
  assumes "stack_ok g color ((s, []) # stack)"
  shows "stack_ok g (color[s := Black]) stack"
  using assms by (auto simp: stack_ok_def nth_list_update successively_Cons)

lemma stack_ok_next:
  assumes "stack_ok g color ((s, e # es) # stack)"
  shows "stack_ok g color ((s, es) # stack)"
  using assms by (auto simp: stack_ok_def successively_Cons)

lemma stack_ok_push:
  assumes "graph_ok g" and "stack_ok g color ((s, e # es) # stack)" and "color_of color (toIdx g e) = White"
  shows "stack_ok g (color[toIdx g e := Gray]) ((toIdx g e, g_outNormal g ! toIdx g e) # (s, es) # stack)"
proof -
  have s: "s < step_count g" "e \<in> set (g_outNormal g ! s)" and len: "length color = step_count g"
    using assms(2) by (auto simp: stack_ok_def)
  note t = out_edge [OF assms(1) s]
  have "color ! toIdx g e = White" using assms(3) t(2) by (simp add: color_of_def len)
  then have "toIdx g e \<notin> fst ` set ((s, e # es) # stack)" using assms(2) t(2) by (auto simp: stack_ok_def)
  then show ?thesis using assms(2) t by (auto simp: stack_ok_def nth_list_update successively_Cons)
qed

lemma back_edge_cycle:
  assumes "graph_ok g" and "stack_ok g color ((s, e # es) # stack)" and "color_of color (toIdx g e) = Gray"
  shows "real_cycle g \<lparr>cf_edge = e, cf_path = cycle_path g (toIdx g e) ((s, es) # stack)\<rparr>"
proof -
  let ?t = "toIdx g e" and ?nodes = "s # map fst stack"
  have s: "s < step_count g" "e \<in> set (g_outNormal g ! s)" and len: "length color = step_count g"
    and dist: "distinct ?nodes" and succ: "successively (\<lambda>t s. (s, t) \<in> normal_rel g) ?nodes"
    using assms(2) by (auto simp: stack_ok_def)
  note t = out_edge [OF assms(1) s]
  have on: "?t \<in> set ?nodes" using assms(2,3) t(2) by (auto simp: stack_ok_def color_of_def len)
  define above where "above = takeWhile (\<lambda>v. v \<noteq> ?t) ?nodes"
  have split: "?nodes = above @ ?t # tl (dropWhile (\<lambda>v. v \<noteq> ?t) ?nodes)"
    using on unfolding above_def by (metis (mono_tags, lifting) dropWhile_eq_Nil_conv hd_dropWhile list.collapse takeWhile_dropWhile_id)
  define vs where "vs = ?t # rev above"
  have "distinct (above @ [?t])" using dist by (subst (asm) split) simp
  then have "distinct vs" by (simp add: vs_def)
  moreover have "successively (\<lambda>t s. (s, t) \<in> normal_rel g) (above @ [?t])"
    using succ by (subst (asm) split) (auto simp: successively_append_iff)
  then have "successively (\<lambda>u v. (u, v) \<in> normal_rel g) (rev (above @ [?t]))"
    by (simp only: successively_rev)
  then have "successively (\<lambda>u v. (u, v) \<in> normal_rel g) vs" by (simp add: vs_def)
  moreover have last: "last vs = s"
    by (cases "?t = s") (simp_all add: vs_def above_def last_rev)
  moreover have "map fst (takeWhile (\<lambda>f. fst f \<noteq> ?t) ((s, es) # stack)) = above"
    using takeWhile_map [of "\<lambda>v. v \<noteq> ?t" fst "(s, es) # stack"] by (simp add: above_def o_def)
  then have "cycle_path g ?t ((s, es) # stack) = map (step_name g) (vs @ [hd vs])"
    by (simp only: cycle_path_def vs_def) simp
  moreover have "vs \<noteq> []" "hd vs = ?t" by (simp_all add: vs_def)
  ultimately show ?thesis unfolding real_cycle_def using s(2) t(1) by (intro exI [of _ vs]) simp
qed

lemma real_cycle_cyclic:
  assumes "real_cycle g f"
  shows "\<not> acyclic (normal_rel g)"
proof -
  from assms obtain vs where vs: "vs \<noteq> []" "successively (\<lambda>u v. (u, v) \<in> normal_rel g) vs"
    "(last vs, hd vs) \<in> normal_rel g" by (auto simp: real_cycle_def)
  from vs(1,2) have "(hd vs, last vs) \<in> (normal_rel g)\<^sup>*"
  proof (induction vs)
    case (Cons u vs)
    then show ?case by (cases vs) (auto simp: successively_Cons intro: converse_rtrancl_into_rtrancl)
  qed simp
  with vs(3) have "(last vs, last vs) \<in> (normal_rel g)\<^sup>+" by (rule rtrancl_into_trancl2)
  then show ?thesis by (auto simp: acyclic_def)
qed

section \<open>No finding means no cycle\<close>

text \<open>The edges a frame has followed lead to finished steps, the last one perhaps to the frame above.\<close>

fun frames_done :: "graph \<Rightarrow> color list \<Rightarrow> nat option \<Rightarrow> frame list \<Rightarrow> bool" where
  "frames_done g color up [] \<longleftrightarrow> True"
| "frames_done g color up ((s, es) # stack) \<longleftrightarrow>
     (\<forall>e \<in> set (g_outNormal g ! s) - set es. color ! toIdx g e = Black \<or> Some (toIdx g e) = up)
   \<and> frames_done g color (Some s) stack"

definition black_rel :: "graph \<Rightarrow> color list \<Rightarrow> (nat \<times> nat) set" where
  "black_rel g color = {(u, v) \<in> normal_rel g. color ! u = Black}"

definition explored :: "graph \<Rightarrow> color list \<Rightarrow> frame list \<Rightarrow> bool" where
  "explored g color stack \<longleftrightarrow> (\<forall>(u, v) \<in> black_rel g color. color ! v = Black) \<and> acyclic (black_rel g color)
     \<and> frames_done g color None stack"

lemma frames_done_mono:
  assumes "frames_done g color up stack" and "\<And>v. color ! v = Black \<Longrightarrow> color' ! v = Black"
  shows "frames_done g color' up stack"
  using assms(1)
proof (induction stack arbitrary: up)
  case (Cons f stack)
  then show ?case using assms(2) by (cases f) (metis frames_done.simps(2))
qed simp

lemma frames_done_finish:
  assumes "frames_done g color (Some s) stack" and "s < length color"
  shows "frames_done g (color[s := Black]) None stack"
proof (cases stack)
  case (Cons f rest)
  then show ?thesis
    using assms frames_done_mono [of g color _ rest "color[s := Black]"]
    by (cases f) (auto simp: nth_list_update)
qed simp

text \<open>A finished step only leads to finished ones, so adding a step whose successors are all finished closes no cycle.\<close>

lemma acyclic_add_source:
  assumes closed: "\<And>u v. (u, v) \<in> r \<Longrightarrow> u \<in> B \<and> v \<in> B" and acyc: "acyclic r" and "s \<notin> B"
    and new: "\<And>u v. (u, v) \<in> r' \<Longrightarrow> (u, v) \<in> r \<or> u = s \<and> v \<in> B"
  shows "acyclic r'"
proof (rule acyclicI, intro allI notI)
  have stay: "v \<in> B \<and> (u, v) \<in> r\<^sup>+" if "(u, v) \<in> r'\<^sup>+" "u \<in> B" for u v
    using that
  proof (induction rule: trancl_induct)
    case (base v)
    with new [of u v] closed \<open>s \<notin> B\<close> show ?case by auto
  next
    case (step v w)
    then have "v \<in> B" "(u, v) \<in> r\<^sup>+" by auto
    moreover have "(v, w) \<in> r" using new [OF step.hyps(2)] \<open>v \<in> B\<close> \<open>s \<notin> B\<close> by auto
    ultimately show ?case using closed by (auto intro: trancl_into_trancl)
  qed
  fix x assume cycle: "(x, x) \<in> r'\<^sup>+"
  then obtain y where "(x, y) \<in> r'" "(y, x) \<in> r'\<^sup>*" by (meson tranclD)
  then show False
  proof (cases "x \<in> B")
    case True
    with stay [OF cycle] acyc show ?thesis by (auto simp: acyclic_def)
  next
    case False
    with new [OF \<open>(x, y) \<in> r'\<close>] closed have "y \<in> B" by blast
    with \<open>(y, x) \<in> r'\<^sup>*\<close> False stay show ?thesis by (auto simp: rtrancl_eq_or_trancl)
  qed
qed

lemma explored_pop:
  assumes g: "graph_ok g" and stack: "stack_ok g color ((s, []) # stack)" and ex: "explored g color ((s, []) # stack)"
  shows "explored g (color[s := Black]) stack"
proof -
  have s: "s < step_count g" "length color = step_count g" "color ! s = Gray"
    using stack by (auto simp: stack_ok_def)
  have succ: "color ! v = Black" if "(s, v) \<in> normal_rel g" for v
  proof -
    have "v \<in> set (out_steps g s)" using that out_steps_set [OF g s(1)] by simp
    then show ?thesis using ex by (auto simp: explored_def out_steps_def)
  qed
  have rel: "(u, v) \<in> black_rel g (color[s := Black]) \<longleftrightarrow> (u, v) \<in> black_rel g color \<or> u = s \<and> (s, v) \<in> normal_rel g" for u v
    using s normal_rel_range [OF g] by (auto simp: black_rel_def nth_list_update)
  have closed: "color ! u = Black \<and> color ! v = Black" if "(u, v) \<in> black_rel g color" for u v
    using ex that by (auto simp: explored_def black_rel_def)
  have "acyclic (black_rel g (color[s := Black]))"
    by (rule acyclic_add_source [of "black_rel g color" "{v. color ! v = Black}" s])
       (use closed ex s(3) rel succ in \<open>auto simp: explored_def\<close>)
  moreover have "color[s := Black] ! v = Black" if "(u, v) \<in> black_rel g (color[s := Black])" for u v
    using that closed succ s unfolding rel by (cases "v = s") auto
  moreover have "frames_done g (color[s := Black]) None stack"
    using ex s by (intro frames_done_finish) (simp_all add: explored_def)
  ultimately show ?thesis by (auto simp: explored_def)
qed

lemma explored_black:
  assumes "explored g color ((s, e # es) # stack)" and "color ! toIdx g e = Black"
  shows "explored g color ((s, es) # stack)"
  using assms by (auto simp: explored_def)

lemma explored_push:
  assumes "graph_ok g" and "stack_ok g color ((s, e # es) # stack)" and "explored g color ((s, e # es) # stack)"
    and "color_of color (toIdx g e) = White"
  shows "explored g (color[toIdx g e := Gray]) ((toIdx g e, g_outNormal g ! toIdx g e) # (s, es) # stack)"
proof -
  let ?t = "toIdx g e" and ?color = "color[toIdx g e := Gray]"
  have s: "s < step_count g" "e \<in> set (g_outNormal g ! s)" and len: "length color = step_count g"
    using assms(2) by (auto simp: stack_ok_def)
  have t: "?t < length color" "color ! ?t = White"
    using out_edge(2) [OF assms(1) s] assms(4) by (simp_all add: len color_of_def)
  then have black: "?color ! v = Black \<longleftrightarrow> color ! v = Black" for v by (cases "v = ?t") auto
  have old: "frames_done g color (Some s) stack"
    "\<And>x. x \<in> set (g_outNormal g ! s) \<Longrightarrow> x \<notin> set (e # es) \<Longrightarrow> color ! toIdx g x = Black"
    using assms(3) by (simp_all add: explored_def)
  have "frames_done g ?color (Some s) stack" using frames_done_mono [OF old(1), of ?color] black by blast
  moreover have "?color ! toIdx g x = Black \<or> toIdx g x = ?t" if "x \<in> set (g_outNormal g ! s)" "x \<notin> set es" for x
    using old(2) [OF that(1)] that(2) black by (cases "x = e") simp_all
  ultimately have "frames_done g ?color None ((?t, g_outNormal g ! ?t) # (s, es) # stack)" by simp
  moreover have "black_rel g ?color = black_rel g color" by (simp only: black_rel_def black)
  ultimately show ?thesis using assms(3) black by (simp only: explored_def) blast
qed

definition dfs_inv :: "graph \<Rightarrow> color list \<Rightarrow> frame list \<Rightarrow> cycle_finding list \<Rightarrow> bool" where
  "dfs_inv g color stack findings \<longleftrightarrow> stack_ok g color stack \<and> (findings = [] \<longrightarrow> explored g color stack)
     \<and> (\<forall>f \<in> set findings. real_cycle g f)"

lemma recolor: "c \<noteq> White \<Longrightarrow> color ! v \<noteq> White \<Longrightarrow> color[s := c] ! v \<noteq> White"
  by (cases "v = s"; cases "s < length color") (simp_all add: list_update_beyond)

lemma cycle_dfs_inv:
  assumes "graph_ok g" and "dfs_inv g color stack findings" and "cycle_dfs g color stack findings = (color', findings')"
  shows "dfs_inv g color' [] findings' \<and> (\<forall>v. color ! v \<noteq> White \<longrightarrow> color' ! v \<noteq> White)"
  using assms
proof (induction g color stack findings rule: cycle_dfs.induct)
  case (2 g color s stack findings)
  have "dfs_inv g (color[s := Black]) stack findings"
    using 2(3) stack_ok_pop explored_pop [OF 2(2)] by (auto simp: dfs_inv_def)
  then show ?case using 2 recolor [of Black color] by simp
next
  case (3 g color s e es stack findings)
  let ?t = "toIdx g e"
  have s: "stack_ok g color ((s, e # es) # stack)" using 3(5) by (simp add: dfs_inv_def)
  show ?case
  proof (cases "color_of color ?t")
    case White
    then have inv: "dfs_inv g (color[?t := Gray]) ((?t, g_outNormal g ! ?t) # (s, es) # stack) findings"
      using 3(5) stack_ok_push [OF 3(4) s] explored_push [OF 3(4) s] by (auto simp: dfs_inv_def)
    then show ?thesis using 3(1) [OF refl White 3(4) inv] 3(6) White recolor [of Gray color] by (simp add: Let_def)
  next
    case Gray
    then have "dfs_inv g color ((s, es) # stack) (findings @ [\<lparr>cf_edge = e, cf_path = cycle_path g ?t ((s, es) # stack)\<rparr>])"
      using 3(5) stack_ok_next [OF s] back_edge_cycle [OF 3(4) s] by (auto simp: dfs_inv_def)
    then show ?thesis using 3(2) [OF refl Gray 3(4)] 3(6) Gray by (simp add: Let_def)
  next
    case Black
    have "?t < step_count g" "length color = step_count g"
      using out_edge(2) [OF 3(4)] s by (auto simp: stack_ok_def)
    with Black have "color ! ?t = Black" by (simp add: color_of_def)
    then have "dfs_inv g color ((s, es) # stack) findings"
      using 3(5) stack_ok_next [OF s] explored_black by (auto simp: dfs_inv_def)
    then show ?thesis using 3(3) [OF refl Black 3(4)] 3(6) Black by (simp add: Let_def)
  qed
qed simp

lemma cycle_roots_inv:
  assumes "graph_ok g" and "dfs_inv g color [] findings" and "set roots \<subseteq> {..<step_count g}"
    and "cycle_roots g roots color findings = (color', findings')"
  shows "dfs_inv g color' [] findings' \<and> (\<forall>v. color ! v \<noteq> White \<longrightarrow> color' ! v \<noteq> White) \<and> (\<forall>v \<in> set roots. color' ! v \<noteq> White)"
  using assms(2-)
proof (induction roots arbitrary: color findings)
  case (Cons root roots)
  have len: "length color = step_count g" and root: "root < step_count g"
    using Cons.prems by (auto simp: dfs_inv_def stack_ok_def)
  show ?case
  proof (cases "color ! root = White")
    case False
    with Cons.prems Cons.IH [of color findings] show ?thesis by auto
  next
    case True
    obtain color1 findings1 where dfs: "cycle_dfs g (color[root := Gray]) [(root, g_outNormal g ! root)] findings = (color1, findings1)"
      by fastforce
    have black: "color[root := Gray] ! v = Black \<longleftrightarrow> color ! v = Black" for v
      using True root by (cases "v = root") (auto simp: len)
    have rel: "black_rel g (color[root := Gray]) = black_rel g color" by (simp only: black_rel_def black)
    have "dfs_inv g (color[root := Gray]) [(root, g_outNormal g ! root)] findings"
      using Cons.prems(1) root len black by (auto simp: dfs_inv_def stack_ok_def nth_list_update explored_def rel)
    from cycle_dfs_inv [OF assms(1) this dfs] have step: "dfs_inv g color1 [] findings1"
      "\<And>v. color ! v \<noteq> White \<Longrightarrow> color1 ! v \<noteq> White" "color1 ! root \<noteq> White"
      using recolor [of Gray color] root len by auto
    have "cycle_roots g roots color1 findings1 = (color', findings')" using Cons.prems(3) True dfs by simp
    from Cons.IH [OF step(1) _ this] Cons.prems(2) step(2,3) show ?thesis by auto
  qed
qed simp

lemma findCycles_spec:
  assumes "graph_ok g"
  shows "(findCycles g = [] \<longleftrightarrow> acyclic (normal_rel g)) \<and> (\<forall>f \<in> set (findCycles g). real_cycle g f)"
proof -
  let ?n = "step_count g"
  obtain color findings where run: "cycle_roots g [0..<?n] (replicate ?n White) [] = (color, findings)" by fastforce
  have "dfs_inv g (replicate ?n White) [] []"
    by (auto simp: dfs_inv_def stack_ok_def explored_def black_rel_def acyclic_def
        dest!: tranclD normal_rel_range [OF assms])
  moreover have "set [0..<?n] \<subseteq> {..<?n}" by auto
  ultimately have inv: "dfs_inv g color [] findings" "\<And>v. v < ?n \<Longrightarrow> color ! v \<noteq> White"
    using cycle_roots_inv [OF assms _ _ run] by auto
  have "color ! v = Black" if "v < ?n" for v
    using inv(1) inv(2) [OF that] that by (cases "color ! v") (auto simp: dfs_inv_def stack_ok_def)
  then have "black_rel g color = normal_rel g" by (auto simp: black_rel_def dest: normal_rel_range [OF assms])
  then have "acyclic (normal_rel g)" if "findings = []" using inv(1) that by (simp add: dfs_inv_def explored_def)
  moreover have real: "\<forall>f \<in> set findings. real_cycle g f" using inv(1) by (simp add: dfs_inv_def)
  then have "\<not> acyclic (normal_rel g)" if "findings \<noteq> []"
    using that real_cycle_cyclic by (cases findings) auto
  ultimately show ?thesis using real by (auto simp: findCycles_def run)
qed

text \<open>
  C16.  The cycle search.  On every graph \<open>NewGraph\<close> accepts it ends; it reports nothing
  exactly when the normal edges are acyclic, and each finding is a cycle of normal edges
  through distinct steps, listed in order and closed by the edge it names.
\<close>

theorem findCycles_correct:
  assumes "NewGraph def = Inr g"
  shows "(findCycles g = [] \<longleftrightarrow> acyclic (normal_rel g)) \<and> (\<forall>f \<in> set (findCycles g). real_cycle g f)"
  using findCycles_spec NewGraph_ok [OF assms] by blast

text \<open>Two steps that wait for each other.\<close>

definition deadlock :: workflow where
  "deadlock = diamond\<lparr>wf_steps := map plain_step [''a'', ''b''],
     wf_edges := [plain_edge ''a'' ''b'' EdgeTypeNormal, plain_edge ''b'' ''a'' EdgeTypeNormal]\<rparr>"

theorem findCycles_correct_witness:
  "\<not> acyclic (normal_rel (graph_of deadlock)) \<and> acyclic (normal_rel (graph_of diamond))
   \<and> findCycles (graph_of deadlock) = [\<lparr>cf_edge = 1, cf_path = [''a'', ''b'', ''a'']\<rparr>]"
proof -
  have "case NewGraph deadlock of Inl _ \<Rightarrow> False | Inr _ \<Rightarrow> True" by code_simp
  then have g: "NewGraph deadlock = Inr (graph_of deadlock)" by (simp add: graph_of_def split: sum.splits)
  have found: "findCycles (graph_of deadlock) = [\<lparr>cf_edge = 1, cf_path = [''a'', ''b'', ''a'']\<rparr>]"
    "findCycles (graph_of diamond) = []" by code_simp+
  from findCycles_correct [OF g] findCycles_correct [OF diamond_graph] found show ?thesis by simp
qed

end
