(* ===== verification/Dag_Expansion.thy ===== *)
theory Dag_Expansion
  imports Dag_Cycles
begin

text \<open>
  Dynamic graph expansion, \<^verbatim>\<open>internal/dag/expansion.go\<close>: the caps, the plan a planner, map or
  loop step adds to a running graph, and \<^verbatim>\<open>ValidateExpansion\<close>, the check the store runs under
  the run lock before it splices the plan in.  An issue is its code and JSON path; all issues
  of this check are errors.

  Two groups of checks are arguments: \<open>stepIssues\<close>, the per-step configuration checks shared
  with definition validation, and \<open>refIssues\<close>, the template reference lint on the merged graph.
  \<open>compile\<close> is the CEL compiler, \<^verbatim>\<open>cel-go\<close>, behind \<^verbatim>\<open>CompileExpr\<close>.
\<close>

section \<open>Caps\<close>

record expansion_policy =
  xp_max_added_steps :: "int option"
  xp_max_total_steps :: "int option"
  xp_max_expansions :: "int option"
  xp_max_depth :: "int option"

record expansion_caps =
  xc_max_added_steps :: int
  xc_max_total_steps :: int
  xc_max_expansions :: int
  xc_max_depth :: int

definition MaxSteps :: int where "MaxSteps = 10000"
definition MaxExprLen :: nat where "MaxExprLen = 1024"
definition MaxLoopIterations :: int where "MaxLoopIterations = 100"
definition PlanSchemaVersion :: int where "PlanSchemaVersion = 1"

definition default_expansion_caps :: expansion_caps where
  "default_expansion_caps = \<lparr>xc_max_added_steps = 32, xc_max_total_steps = MaxSteps,
     xc_max_expansions = 100, xc_max_depth = 4\<rparr>"

definition ResolveExpansion :: "expansion_policy option \<Rightarrow> expansion_caps" where
  "ResolveExpansion p = (case p of None \<Rightarrow> default_expansion_caps | Some p \<Rightarrow>
     let or_default = (\<lambda>v d. case v of None \<Rightarrow> d | Some x \<Rightarrow> x); caps = default_expansion_caps
     in \<lparr>xc_max_added_steps = or_default (xp_max_added_steps p) (xc_max_added_steps caps),
         xc_max_total_steps = or_default (xp_max_total_steps p) (xc_max_total_steps caps),
         xc_max_expansions = or_default (xp_max_expansions p) (xc_max_expansions caps),
         xc_max_depth = or_default (xp_max_depth p) (xc_max_depth caps)\<rparr>)"

section \<open>Plans and anchors\<close>

record plan_output =
  pl_schema_version :: int
  pl_steps :: "dag_step list"
  pl_edges :: "dag_edge list"

record expansion_origin =
  xo_kind :: origin_kind
  xo_step_id :: string
  xo_depth :: int

datatype anchor_status = AnchorPending | AnchorActive | AnchorTerminal

record expansion_anchor =
  an_type :: step_type
  an_status :: anchor_status
  an_succeeded :: bool

text \<open>\<open>xi_existing\<close> lists the entries of the Go map, each key once.\<close>

record expansion_input =
  xi_plan :: plan_output
  xi_origin :: expansion_origin
  xi_existing :: "(string \<times> expansion_anchor) list"
  xi_existing_edges :: "dag_edge list"
  xi_per_expansion_cap :: int
  xi_caps :: expansion_caps
  xi_current_step_count :: int
  xi_expansions_so_far :: int

datatype validation_code =
  CodeExpansionFieldInvalid | CodeExpansionAnchorInvalid | CodeExpansionCapExceeded
| CodeInvalidStepID | CodeDuplicateStepID | CodeUnknownEdgeEndpoint
| CodeLoopFieldForbidden | CodeLoopFieldRequired | CodeLimitExceeded | CodeConfigFieldInvalid
| CodeApprovalEdgeInvalid | CodeExprInvalid | CodeExprNotBool | CodeCycle | CodeLoopEdgeNotAncestor
| CodeOther string

datatype issue_path =
  PlanField string | PlanStep nat string | PlanEdge nat string

type_synonym issue = "validation_code \<times> issue_path"

record cap_breach =
  cb_limit :: string
  cb_current :: int
  cb_cap :: int

record expansion_verdict =
  xv_issues :: "issue list"
  xv_breaches :: "cap_breach list"

definition OK :: "expansion_verdict \<Rightarrow> bool" where
  "OK v \<longleftrightarrow> xv_issues v = []"

definition CapExceeded :: "expansion_verdict \<Rightarrow> bool" where
  "CapExceeded v \<longleftrightarrow> list_ex (\<lambda>i. fst i = CodeExpansionCapExceeded) (xv_issues v)"

section \<open>Step ids\<close>

definition lower :: "char \<Rightarrow> bool" where
  "lower c \<longleftrightarrow> CHR ''a'' \<le> c \<and> c \<le> CHR ''z''"

definition digit :: "char \<Rightarrow> bool" where
  "digit c \<longleftrightarrow> CHR ''0'' \<le> c \<and> c \<le> CHR ''9''"

text \<open>\<^verbatim>\<open>^[a-z][a-z0-9_-]{0,63}$\<close>\<close>

definition stepIDRe :: "string \<Rightarrow> bool" where
  "stepIDRe s = (case s of [] \<Rightarrow> False | c # cs \<Rightarrow> lower c \<and> length cs \<le> 63
     \<and> list_all (\<lambda>d. lower d \<or> digit d \<or> d = CHR ''_'' \<or> d = CHR ''-'') cs)"

text \<open>\<^verbatim>\<open>(#[a-z0-9_]+)+\<close>; the characters of a segment contain no \<^verbatim>\<open>#\<close>, so each one starts a segment.\<close>

function id_segments :: "string \<Rightarrow> bool" where
  "id_segments s = (case s of [] \<Rightarrow> False | c # cs \<Rightarrow>
     let seg = takeWhile (\<lambda>d. d \<noteq> CHR ''#'') cs; rest = dropWhile (\<lambda>d. d \<noteq> CHR ''#'') cs
     in c = CHR ''#'' \<and> seg \<noteq> [] \<and> list_all (\<lambda>d. lower d \<or> digit d \<or> d = CHR ''_'') seg
      \<and> (rest = [] \<or> id_segments rest))"
  by pat_completeness auto
termination
  by (relation "measure length") (auto simp: le_imp_less_Suc length_dropWhile_le)

definition instanceStepIDRe :: "string \<Rightarrow> bool" where
  "instanceStepIDRe s \<longleftrightarrow> stepIDRe (takeWhile (\<lambda>d. d \<noteq> CHR ''#'') s) \<and> id_segments (dropWhile (\<lambda>d. d \<noteq> CHR ''#'') s)"

section \<open>The checks\<close>

definition add_if :: "bool \<Rightarrow> validation_code \<Rightarrow> issue_path \<Rightarrow> issue list" where
  "add_if b code path = (if b then [(code, path)] else [])"

definition cap_checks :: "expansion_input \<Rightarrow> (issue_path \<times> cap_breach) list" where
  "cap_checks inp =
     (let n = int (length (pl_steps (xi_plan inp))); total = xi_current_step_count inp + n;
          count = xi_expansions_so_far inp + 1; depth = xo_depth (xi_origin inp) + 1; caps = xi_caps inp
      in (if xi_per_expansion_cap inp > 0 \<and> n > xi_per_expansion_cap inp
          then [(PlanField ''steps'', \<lparr>cb_limit = ''max_added_steps'', cb_current = n, cb_cap = xi_per_expansion_cap inp\<rparr>)] else [])
       @ (if total > xc_max_total_steps caps
          then [(PlanField ''steps'', \<lparr>cb_limit = ''max_total_steps'', cb_current = total, cb_cap = xc_max_total_steps caps\<rparr>)] else [])
       @ (if count > xc_max_expansions caps
          then [(PlanField [], \<lparr>cb_limit = ''max_expansions'', cb_current = count, cb_cap = xc_max_expansions caps\<rparr>)] else [])
       @ (if depth > xc_max_depth caps
          then [(PlanField [], \<lparr>cb_limit = ''max_depth'', cb_current = depth, cb_cap = xc_max_depth caps\<rparr>)] else []))"

definition allow_instance_ids :: "expansion_input \<Rightarrow> bool" where
  "allow_instance_ids inp \<longleftrightarrow> pl_schema_version (xi_plan inp) = PlanSchemaVersion
     \<and> (xo_kind (xi_origin inp) = OriginMap \<or> xo_kind (xi_origin inp) = OriginLoop)"

definition existing :: "expansion_input \<Rightarrow> string \<Rightarrow> expansion_anchor option" where
  "existing inp sid = map_of (xi_existing inp) sid"

fun step_checks :: "(nat \<Rightarrow> dag_step \<Rightarrow> issue list) \<Rightarrow> expansion_input \<Rightarrow> nat \<Rightarrow> string list \<Rightarrow> dag_step list \<Rightarrow> issue list" where
  "step_checks stepIssues inp i seen [] = []"
| "step_checks stepIssues inp i seen (s # ss) =
     add_if (\<not> stepIDRe (st_id s) \<and> (\<not> allow_instance_ids inp \<or> \<not> instanceStepIDRe (st_id s)))
       CodeInvalidStepID (PlanStep i ''id'')
   @ add_if (existing inp (st_id s) \<noteq> None) CodeExpansionAnchorInvalid (PlanStep i ''id'')
   @ add_if (st_id s \<in> set seen) CodeDuplicateStepID (PlanStep i ''id'')
   @ stepIssues i s
   @ step_checks stepIssues inp (i + 1) (st_id s # seen) ss"

datatype expr_status = ExprOk | ExprNotBool | ExprErrors nat

definition checkExpr :: "(string \<Rightarrow> expr_status) \<Rightarrow> issue_path \<Rightarrow> string \<Rightarrow> issue list" where
  "checkExpr compile path src = (case compile src of
     ExprOk \<Rightarrow> [] | ExprNotBool \<Rightarrow> [(CodeExprNotBool, path)] | ExprErrors n \<Rightarrow> replicate n (CodeExprInvalid, path))"

text \<open>RFC 6901 syntax.\<close>

fun pointer_escapes :: "string \<Rightarrow> bool" where
  "pointer_escapes [] = True"
| "pointer_escapes (c # cs) =
     (if c \<noteq> CHR ''~'' then pointer_escapes cs
      else case cs of [] \<Rightarrow> False | d # ds \<Rightarrow> (d = CHR ''0'' \<or> d = CHR ''1'') \<and> pointer_escapes ds)"

definition checkJSONPointer :: "string \<Rightarrow> bool" where
  "checkJSONPointer s = (case s of [] \<Rightarrow> True | c # cs \<Rightarrow> c = CHR ''/'' \<and> pointer_escapes s)"

definition exhaust_ok :: "string \<Rightarrow> bool" where
  "exhaust_ok p \<longleftrightarrow> p = [] \<or> p = ''proceed'' \<or> p = ''fail''"

definition checkExpansionEdgeFields :: "(string \<Rightarrow> expr_status) \<Rightarrow> nat \<Rightarrow> dag_edge \<Rightarrow> issue list" where
  "checkExpansionEdgeFields compile i e =
     (if IsLoop e
      then add_if (ed_when e \<noteq> []) CodeLoopFieldForbidden (PlanEdge i ''when'')
         @ (if ed_condition e = [] then [(CodeLoopFieldRequired, PlanEdge i ''condition'')]
            else if length (ed_condition e) > MaxExprLen then [(CodeLimitExceeded, PlanEdge i ''condition'')]
            else checkExpr compile (PlanEdge i ''condition'') (ed_condition e))
         @ (if ed_max_iterations e = 0 then [(CodeLoopFieldRequired, PlanEdge i ''max_iterations'')]
            else add_if (ed_max_iterations e < 1 \<or> ed_max_iterations e > MaxLoopIterations)
                   CodeLimitExceeded (PlanEdge i ''max_iterations''))
         @ add_if (\<not> exhaust_ok (ed_on_exhausted e)) CodeConfigFieldInvalid (PlanEdge i ''on_exhausted'')
         @ (case ed_no_progress e of None \<Rightarrow> [] | Some np \<Rightarrow>
              add_if (\<not> exhaust_ok (np_policy np)) CodeConfigFieldInvalid (PlanEdge i ''no_progress.policy'')
            @ add_if (np_path np \<noteq> [] \<and> \<not> checkJSONPointer (np_path np)) CodeConfigFieldInvalid (PlanEdge i ''no_progress.path''))
         @ add_if (ed_decision e \<noteq> None) CodeApprovalEdgeInvalid (PlanEdge i ''decision'')
      else add_if (ed_condition e \<noteq> []) CodeLoopFieldForbidden (PlanEdge i ''condition'')
         @ add_if (ed_max_iterations e \<noteq> 0) CodeLoopFieldForbidden (PlanEdge i ''max_iterations'')
         @ add_if (ed_on_exhausted e \<noteq> []) CodeLoopFieldForbidden (PlanEdge i ''on_exhausted'')
         @ add_if (ed_no_progress e \<noteq> None) CodeLoopFieldForbidden (PlanEdge i ''no_progress'')
         @ (if length (ed_when e) > MaxExprLen then [(CodeLimitExceeded, PlanEdge i ''when'')]
            else if ed_when e \<noteq> [] then checkExpr compile (PlanEdge i ''when'') (ed_when e) else []))"

definition delta_ids :: "expansion_input \<Rightarrow> string list" where
  "delta_ids inp = map st_id (pl_steps (xi_plan inp))"

definition edge_checks :: "(string \<Rightarrow> expr_status) \<Rightarrow> expansion_input \<Rightarrow> nat \<Rightarrow> dag_edge \<Rightarrow> issue list" where
  "edge_checks compile inp i e =
     (let fromDelta = ed_from e \<in> set (delta_ids inp); fromExisting = existing inp (ed_from e) \<noteq> None;
          toDelta = ed_to e \<in> set (delta_ids inp); toExisting = existing inp (ed_to e) \<noteq> None
      in add_if (\<not> fromDelta \<and> \<not> fromExisting) CodeUnknownEdgeEndpoint (PlanEdge i ''from'')
       @ add_if (\<not> toDelta \<and> \<not> toExisting) CodeUnknownEdgeEndpoint (PlanEdge i ''to'')
       @ add_if (fromExisting \<and> \<not> fromDelta \<and> toExisting \<and> \<not> toDelta) CodeExpansionAnchorInvalid (PlanEdge i [])
       @ add_if (\<not> fromDelta \<and> (case existing inp (ed_from e) of None \<Rightarrow> False | Some a \<Rightarrow> an_status a = AnchorTerminal))
           CodeExpansionAnchorInvalid (PlanEdge i ''from'')
       @ add_if (\<not> toDelta \<and> (case existing inp (ed_to e) of None \<Rightarrow> False | Some a \<Rightarrow> an_status a \<noteq> AnchorPending))
           CodeExpansionAnchorInvalid (PlanEdge i ''to'')
       @ checkExpansionEdgeFields compile i e)"

fun plan_edge_checks :: "(string \<Rightarrow> expr_status) \<Rightarrow> expansion_input \<Rightarrow> nat \<Rightarrow> dag_edge list \<Rightarrow> issue list" where
  "plan_edge_checks compile inp i [] = []"
| "plan_edge_checks compile inp i (e # es) = edge_checks compile inp i e @ plan_edge_checks compile inp (i + 1) es"

section \<open>The merged graph\<close>

definition anchor_step :: "string \<times> expansion_anchor \<Rightarrow> dag_step" where
  "anchor_step ia = \<lparr>st_id = fst ia, st_type = an_type (snd ia), st_config = NoConfig, st_retry = None, st_timeout = []\<rparr>"

definition merged_definition :: "expansion_input \<Rightarrow> workflow" where
  "merged_definition inp =
     \<lparr>wf_name = [], wf_steps = map anchor_step (sort_key fst (xi_existing inp)) @ pl_steps (xi_plan inp),
      wf_edges = xi_existing_edges inp @ pl_edges (xi_plan inp),
      wf_on_failure = None, wf_deadline = None, wf_budget_nano_usd = None, wf_on_budget_exceeded = None\<rparr>"

definition buildMergedGraph :: "expansion_input \<Rightarrow> (workflow \<times> graph) option" where
  "buildMergedGraph inp = (case NewGraph (merged_definition inp) of
     Inl _ \<Rightarrow> None | Inr g \<Rightarrow> Some (merged_definition inp, g))"

definition touches_delta :: "expansion_input \<Rightarrow> dag_edge \<Rightarrow> bool" where
  "touches_delta inp e \<longleftrightarrow> ed_from e \<in> set (delta_ids inp) \<or> ed_to e \<in> set (delta_ids inp)"

fun loop_checks :: "graph \<Rightarrow> nat \<Rightarrow> dag_edge list \<Rightarrow> issue list" where
  "loop_checks g i [] = []"
| "loop_checks g i (e # es) =
     (if \<not> IsLoop e then []
      else case (g_index g (ed_from e), g_index g (ed_to e)) of
             (Some f, Some t) \<Rightarrow> add_if (\<not> reaches g t f) CodeLoopEdgeNotAncestor (PlanEdge i [])
           | _ \<Rightarrow> [])
   @ loop_checks g (i + 1) es"

definition checkMergedGraph :: "expansion_input \<Rightarrow> workflow \<Rightarrow> graph \<Rightarrow> issue list" where
  "checkMergedGraph inp merged g =
     map (\<lambda>c. (CodeCycle, PlanField ''edges''))
       (filter (\<lambda>c. touches_delta inp (wf_edges merged ! cf_edge c)) (findCycles g))
   @ loop_checks g 0 (pl_edges (xi_plan inp))"

definition has_code :: "validation_code list \<Rightarrow> issue list \<Rightarrow> bool" where
  "has_code codes issues \<longleftrightarrow> list_ex (\<lambda>i. fst i \<in> set codes) issues"

definition plan_issues :: "(nat \<Rightarrow> dag_step \<Rightarrow> issue list) \<Rightarrow> (string \<Rightarrow> expr_status) \<Rightarrow> expansion_input \<Rightarrow> issue list" where
  "plan_issues stepIssues compile inp =
     (let plan = xi_plan inp
      in add_if (pl_schema_version plan \<noteq> PlanSchemaVersion) CodeExpansionFieldInvalid (PlanField ''schema_version'')
       @ add_if (pl_steps plan = []) CodeExpansionFieldInvalid (PlanField ''steps'')
       @ map (\<lambda>c. (CodeExpansionCapExceeded, fst c)) (cap_checks inp)
       @ step_checks stepIssues inp 0 [] (pl_steps plan)
       @ plan_edge_checks compile inp 0 (pl_edges plan))"

definition ValidateExpansion :: "(nat \<Rightarrow> dag_step \<Rightarrow> issue list) \<Rightarrow> (expansion_input \<Rightarrow> graph \<Rightarrow> issue list)
    \<Rightarrow> (string \<Rightarrow> expr_status) \<Rightarrow> expansion_input \<Rightarrow> expansion_verdict" where
  "ValidateExpansion stepIssues refIssues compile inp =
     (let issues = plan_issues stepIssues compile inp;
          graph_issues =
            (if has_code [CodeDuplicateStepID, CodeUnknownEdgeEndpoint, CodeExpansionAnchorInvalid, CodeInvalidStepID] issues
             then []
             else case buildMergedGraph inp of None \<Rightarrow> []
                  | Some (merged, g) \<Rightarrow> checkMergedGraph inp merged g @ refIssues inp g)
      in \<lparr>xv_issues = issues @ graph_issues, xv_breaches = map snd (cap_checks inp)\<rparr>)"

section \<open>What a plan must satisfy\<close>

definition within_caps :: "expansion_input \<Rightarrow> bool" where
  "within_caps inp \<longleftrightarrow>
     (let n = int (length (pl_steps (xi_plan inp))); caps = xi_caps inp
      in (xi_per_expansion_cap inp \<le> 0 \<or> n \<le> xi_per_expansion_cap inp)
       \<and> xi_current_step_count inp + n \<le> xc_max_total_steps caps
       \<and> xi_expansions_so_far inp < xc_max_expansions caps
       \<and> xo_depth (xi_origin inp) < xc_max_depth caps)"

definition id_allowed :: "expansion_input \<Rightarrow> string \<Rightarrow> bool" where
  "id_allowed inp sid \<longleftrightarrow> stepIDRe sid \<or> allow_instance_ids inp \<and> instanceStepIDRe sid"

definition new_ids :: "expansion_input \<Rightarrow> bool" where
  "new_ids inp \<longleftrightarrow> distinct (delta_ids inp)
     \<and> (\<forall>sid \<in> set (delta_ids inp). existing inp sid = None \<and> id_allowed inp sid)"

definition splice_ok :: "expansion_input \<Rightarrow> dag_edge \<Rightarrow> bool" where
  "splice_ok inp e \<longleftrightarrow> touches_delta inp e
     \<and> (ed_from e \<in> set (delta_ids inp) \<or> (\<exists>a. existing inp (ed_from e) = Some a \<and> an_status a \<noteq> AnchorTerminal))
     \<and> (ed_to e \<in> set (delta_ids inp) \<or> (\<exists>a. existing inp (ed_to e) = Some a \<and> an_status a = AnchorPending))"

definition admissible :: "(nat \<Rightarrow> dag_step \<Rightarrow> issue list) \<Rightarrow> (string \<Rightarrow> expr_status) \<Rightarrow> expansion_input \<Rightarrow> bool" where
  "admissible stepIssues compile inp \<longleftrightarrow>
     (let steps = pl_steps (xi_plan inp); edges = pl_edges (xi_plan inp)
      in pl_schema_version (xi_plan inp) = PlanSchemaVersion \<and> steps \<noteq> [] \<and> within_caps inp \<and> new_ids inp
       \<and> (\<forall>k < length steps. stepIssues k (steps ! k) = [])
       \<and> (\<forall>k < length edges. splice_ok inp (edges ! k) \<and> checkExpansionEdgeFields compile k (edges ! k) = []))"

text \<open>The normal edges as a relation on step ids.\<close>

definition edge_rel :: "dag_edge list \<Rightarrow> (string \<times> string) set" where
  "edge_rel es = {(ed_from e, ed_to e) | e. e \<in> set es \<and> \<not> IsLoop e}"

definition merged_rel :: "expansion_input \<Rightarrow> (string \<times> string) set" where
  "merged_rel inp = edge_rel (xi_existing_edges inp @ pl_edges (xi_plan inp))"

definition run_graph_known :: "expansion_input \<Rightarrow> bool" where
  "run_graph_known inp \<longleftrightarrow> distinct (map fst (xi_existing inp))
     \<and> (\<forall>e \<in> set (xi_existing_edges inp). existing inp (ed_from e) \<noteq> None \<and> existing inp (ed_to e) \<noteq> None)"

text \<open>
  A detour: existing edges lead from a step the plan splices into back to a step the plan
  splices out of.
\<close>

definition detour :: "expansion_input \<Rightarrow> string \<Rightarrow> string \<Rightarrow> bool" where
  "detour inp v u \<longleftrightarrow> existing inp v \<noteq> None \<and> existing inp u \<noteq> None
     \<and> v \<in> Range (edge_rel (pl_edges (xi_plan inp))) \<and> u \<in> Domain (edge_rel (pl_edges (xi_plan inp)))
     \<and> (v, u) \<in> (edge_rel (xi_existing_edges inp))\<^sup>*"

lemma add_if_Nil [simp]: "add_if b code path = [] \<longleftrightarrow> \<not> b"
  by (simp add: add_if_def)

lemma edge_rel_simps [simp]:
  "edge_rel [] = {}"
  "edge_rel (e # es) = (if IsLoop e then edge_rel es else insert (ed_from e, ed_to e) (edge_rel es))"
  by (auto simp: edge_rel_def)

lemma edge_rel_append: "edge_rel (xs @ ys) = edge_rel xs \<union> edge_rel ys"
  by (auto simp: edge_rel_def)

lemma cap_checks_Nil: "cap_checks inp = [] \<longleftrightarrow> within_caps inp"
  by (auto simp: cap_checks_def within_caps_def Let_def)

lemma step_checks_Nil:
  "step_checks stepIssues inp i seen ss = [] \<longleftrightarrow>
     distinct (map st_id ss) \<and> set (map st_id ss) \<inter> set seen = {}
   \<and> (\<forall>s \<in> set ss. existing inp (st_id s) = None \<and> id_allowed inp (st_id s))
   \<and> (\<forall>k < length ss. stepIssues (i + k) (ss ! k) = [])"
proof (induction ss arbitrary: i seen)
  case Nil
  then show ?case by simp
next
  case (Cons s ss)
  show ?case unfolding step_checks.simps append_is_Nil_conv Cons.IH add_if_Nil
    by (auto simp: All_less_Suc2 id_allowed_def)
qed

lemma edge_checks_Nil:
  "edge_checks compile inp i e = [] \<longleftrightarrow> splice_ok inp e \<and> checkExpansionEdgeFields compile i e = []"
  if "new_ids inp" for inp
  using that unfolding edge_checks_def Let_def append_is_Nil_conv add_if_Nil
  by (auto simp: splice_ok_def touches_delta_def new_ids_def split: option.splits)

lemma plan_edge_checks_Nil:
  assumes "new_ids inp"
  shows "plan_edge_checks compile inp i es = [] \<longleftrightarrow>
     (\<forall>k < length es. splice_ok inp (es ! k) \<and> checkExpansionEdgeFields compile (i + k) (es ! k) = [])"
proof (induction es arbitrary: i)
  case Nil
  then show ?case by simp
next
  case (Cons e es)
  then show ?case by (auto simp: edge_checks_Nil [OF assms] All_less_Suc2)
qed

lemma new_ids_iff:
  "new_ids inp \<longleftrightarrow> distinct (map st_id (pl_steps (xi_plan inp)))
     \<and> (\<forall>s \<in> set (pl_steps (xi_plan inp)). existing inp (st_id s) = None \<and> id_allowed inp (st_id s))"
  by (auto simp: new_ids_def delta_ids_def)

lemma plan_issues_Nil: "plan_issues stepIssues compile inp = [] \<longleftrightarrow> admissible stepIssues compile inp"
proof -
  let ?steps = "pl_steps (xi_plan inp)" and ?edges = "pl_edges (xi_plan inp)"
  have "step_checks stepIssues inp 0 [] ?steps = [] \<longleftrightarrow> new_ids inp \<and> (\<forall>k < length ?steps. stepIssues k (?steps ! k) = [])"
    by (simp add: step_checks_Nil new_ids_iff conj_ac)
  with plan_edge_checks_Nil [of inp compile 0 ?edges] show ?thesis
    unfolding plan_issues_def admissible_def Let_def append_is_Nil_conv add_if_Nil
    by (auto simp: cap_checks_Nil)
qed

section \<open>The merged graph and its relation on ids\<close>

lemma graph_index_iff:
  assumes "graph_ok g"
  shows "g_index g sid = Some i \<longleftrightarrow> i < step_count g \<and> step_name g i = sid"
  using assms by (auto simp: graph_ok_def)

lemma normal_rel_edge_rel:
  assumes "graph_ok g"
  shows "(u, v) \<in> normal_rel g \<longleftrightarrow>
    u < step_count g \<and> v < step_count g \<and> (step_name g u, step_name g v) \<in> edge_rel (wf_edges (g_def g))"
  unfolding normal_rel_def edge_rel_def graph_index_iff [OF assms] by (fastforce simp: in_set_conv_nth)

lemma edge_rel_named:
  assumes "graph_ok g" and "(a, b) \<in> edge_rel (wf_edges (g_def g))"
  obtains u v where "u < step_count g" "step_name g u = a" "v < step_count g" "step_name g v = b"
proof -
  from assms(2) obtain k where k: "k < edge_count g" "a = ed_from (nth_edge g k)" "b = ed_to (nth_edge g k)"
    by (auto simp: edge_rel_def in_set_conv_nth)
  with assms(1) have "g_index g a \<noteq> None" "g_index g b \<noteq> None" unfolding graph_ok_def by blast+
  then obtain u v where "g_index g a = Some u" "g_index g b = Some v" by auto
  then show thesis using that [of u v] by (simp add: graph_index_iff [OF assms(1)])
qed

lemma normal_rel_trancl:
  assumes "graph_ok g"
  shows "(u, v) \<in> (normal_rel g)\<^sup>+ \<longleftrightarrow>
    u < step_count g \<and> v < step_count g \<and> (step_name g u, step_name g v) \<in> (edge_rel (wf_edges (g_def g)))\<^sup>+"
    (is "?L \<longleftrightarrow> ?R")
proof
  assume ?L
  then show ?R
    by (induction rule: trancl_induct)
      (auto simp: normal_rel_edge_rel [OF assms] intro: trancl_into_trancl)
next
  have inj: "i = j" if "i < step_count g" "j < step_count g" "step_name g i = step_name g j" for i j
    using graph_ok_index [OF assms] that by (metis option.inject)
  have "(u, v) \<in> (normal_rel g)\<^sup>+" if "(a, b) \<in> (edge_rel (wf_edges (g_def g)))\<^sup>+"
    "u < step_count g" "v < step_count g" "step_name g u = a" "step_name g v = b" for a b u v
    using that
  proof (induction arbitrary: v rule: trancl_induct)
    case (base b)
    then show ?case by (auto simp: normal_rel_edge_rel [OF assms])
  next
    case (step b c)
    obtain w w' where w: "w < step_count g" "step_name g w = b" "w' < step_count g" "step_name g w' = c"
      using edge_rel_named [OF assms step.hyps(2)] by blast
    then have "w' = v" using inj step.prems by simp
    with step w have "(u, w) \<in> (normal_rel g)\<^sup>+" "(w, v) \<in> normal_rel g"
      by (auto simp: normal_rel_edge_rel [OF assms])
    then show ?case by (rule trancl_into_trancl)
  qed
  moreover assume ?R
  ultimately show ?L by blast
qed

lemma acyclic_normal_rel:
  assumes "graph_ok g"
  shows "acyclic (normal_rel g) \<longleftrightarrow> acyclic (edge_rel (wf_edges (g_def g)))"
proof -
  have "\<exists>u < step_count g. step_name g u = a" if "(a, a) \<in> (edge_rel (wf_edges (g_def g)))\<^sup>+" for a
    using edge_rel_named [OF assms] tranclD [OF that] by metis
  then show ?thesis by (auto simp: acyclic_def normal_rel_trancl [OF assms])
qed

lemma reaches_iff:
  "graph_ok g \<Longrightarrow> i < step_count g \<Longrightarrow> reaches g i j \<longleftrightarrow> (i, j) \<in> (normal_rel g)\<^sup>+"
  using reach_loop_iff [OF search_inv_init [OF _ out_range]] out_rel by (simp add: reaches_def)

lemma loop_checks_Nil:
  assumes "graph_ok g" and "\<And>e. e \<in> set es \<Longrightarrow> e \<in> set (wf_edges (g_def g))"
  shows "loop_checks g i es = [] \<longleftrightarrow>
    (\<forall>e \<in> set es. IsLoop e \<longrightarrow> (ed_to e, ed_from e) \<in> (edge_rel (wf_edges (g_def g)))\<^sup>+)"
  using assms(2)
proof (induction es arbitrary: i)
  case Nil
  then show ?case by simp
next
  case (Cons e es)
  obtain k where "k < edge_count g" "e = nth_edge g k" using Cons.prems [of e] by (auto simp: in_set_conv_nth)
  with assms(1) have "g_index g (ed_from e) \<noteq> None" "g_index g (ed_to e) \<noteq> None" unfolding graph_ok_def by blast+
  then obtain f t where ft: "g_index g (ed_from e) = Some f" "g_index g (ed_to e) = Some t" by auto
  then have "f < step_count g" "step_name g f = ed_from e" "t < step_count g" "step_name g t = ed_to e"
    by (simp_all add: graph_index_iff [OF assms(1)])
  with assms(1) have "reaches g t f \<longleftrightarrow> (ed_to e, ed_from e) \<in> (edge_rel (wf_edges (g_def g)))\<^sup>+"
    by (simp add: reaches_iff normal_rel_trancl)
  with ft Cons show ?case by auto
qed

lemma admissible_splices:
  "admissible stepIssues compile inp \<Longrightarrow> e \<in> set (pl_edges (xi_plan inp)) \<Longrightarrow> splice_ok inp e"
  by (auto simp: admissible_def Let_def in_set_conv_nth)

lemma buildMergedGraph_total:
  assumes "run_graph_known inp" and "admissible stepIssues compile inp"
  obtains g where "buildMergedGraph inp = Some (merged_definition inp, g)" "NewGraph (merged_definition inp) = Inr g"
proof -
  let ?d = "merged_definition inp"
  have ids: "map st_id (wf_steps ?d) = map fst (sort_key fst (xi_existing inp)) @ delta_ids inp"
    by (simp add: merged_definition_def anchor_step_def delta_ids_def)
  have ex: "existing inp sid \<noteq> None \<longleftrightarrow> sid \<in> fst ` set (xi_existing inp)" for sid
    by (simp add: existing_def map_of_eq_None_iff)
  have named: "sid \<in> st_id ` set (wf_steps ?d) \<longleftrightarrow> existing inp sid \<noteq> None \<or> sid \<in> set (delta_ids inp)" for sid
    unfolding ex by (auto simp: merged_definition_def anchor_step_def delta_ids_def image_Un image_image)
  have "new_ids inp" using assms(2) by (simp add: admissible_def Let_def)
  moreover have "distinct (map fst (sort_key fst (xi_existing inp)))"
    using assms(1) by (simp add: run_graph_known_def distinct_map)
  ultimately have "distinct (map st_id (wf_steps ?d))"
    unfolding ids distinct_append using ex by (metis disjoint_iff list.set_map new_ids_def set_sort)
  moreover have "ed_from e \<in> st_id ` set (wf_steps ?d) \<and> ed_to e \<in> st_id ` set (wf_steps ?d)"
    if "e \<in> set (wf_edges ?d)" for e
    using that assms unfolding named
    by (auto simp: merged_definition_def run_graph_known_def splice_ok_def dest!: admissible_splices)
  ultimately obtain g where "NewGraph ?d = Inr g" using NewGraph_total by blast
  then show thesis using that by (simp add: buildMergedGraph_def)
qed

lemma OK_iff:
  assumes "run_graph_known inp"
  shows "OK (ValidateExpansion stepIssues refIssues compile inp) \<longleftrightarrow>
    admissible stepIssues compile inp
    \<and> (\<forall>g. NewGraph (merged_definition inp) = Inr g \<longrightarrow> refIssues inp g = []
         \<and> (\<forall>c \<in> set (findCycles g). \<not> touches_delta inp (wf_edges (merged_definition inp) ! cf_edge c)))
    \<and> (\<forall>e \<in> set (pl_edges (xi_plan inp)). IsLoop e \<longrightarrow> (ed_to e, ed_from e) \<in> (merged_rel inp)\<^sup>+)"
proof (cases "admissible stepIssues compile inp")
  case True
  obtain g where g: "buildMergedGraph inp = Some (merged_definition inp, g)" "NewGraph (merged_definition inp) = Inr g"
    by (rule buildMergedGraph_total [OF assms True])
  have ok: "graph_ok g" "g_def g = merged_definition inp" using NewGraph_ok [OF g(2)] by blast+
  have "loop_checks g 0 (pl_edges (xi_plan inp)) = [] \<longleftrightarrow>
    (\<forall>e \<in> set (pl_edges (xi_plan inp)). IsLoop e \<longrightarrow> (ed_to e, ed_from e) \<in> (merged_rel inp)\<^sup>+)"
    using loop_checks_Nil [OF ok(1), of "pl_edges (xi_plan inp)" 0] ok(2)
    by (simp add: merged_definition_def merged_rel_def)
  moreover have "plan_issues stepIssues compile inp = []" using True by (simp add: plan_issues_Nil)
  ultimately show ?thesis using True g
    by (auto simp: OK_def ValidateExpansion_def Let_def has_code_def checkMergedGraph_def filter_empty_conv)
next
  case False
  then show ?thesis by (simp add: OK_def ValidateExpansion_def Let_def flip: plan_issues_Nil)
qed

lemma OK_admissible: "OK (ValidateExpansion stepIssues refIssues compile inp) \<Longrightarrow> admissible stepIssues compile inp"
  by (simp add: OK_def ValidateExpansion_def Let_def plan_issues_Nil)

lemma OK_fresh:
  "OK (ValidateExpansion stepIssues refIssues compile inp) \<Longrightarrow> sid \<in> set (delta_ids inp) \<Longrightarrow> existing inp sid = None"
  using OK_admissible by (auto simp: admissible_def Let_def new_ids_def)

lemma successively_rtrancl:
  "vs \<noteq> [] \<Longrightarrow> successively (\<lambda>u v. (u, v) \<in> R) vs \<Longrightarrow> (hd vs, last vs) \<in> R\<^sup>*"
  by (induction vs rule: induct_list012) (auto intro: converse_rtrancl_into_rtrancl)

lemma finding_closes:
  assumes "graph_ok g" and "c \<in> set (findCycles g)"
  obtains e where "e = wf_edges (g_def g) ! cf_edge c" "e \<in> set (wf_edges (g_def g))" "\<not> IsLoop e"
    "(ed_to e, ed_from e) \<in> (edge_rel (wf_edges (g_def g)))\<^sup>*"
proof -
  from findCycles_spec [OF assms(1)] assms(2) obtain vs where vs: "vs \<noteq> []"
    "successively (\<lambda>u v. (u, v) \<in> normal_rel g) vs" "cf_edge c \<in> set (g_outNormal g ! last vs)"
    "(last vs, hd vs) \<in> normal_rel g" "toIdx g (cf_edge c) = hd vs"
    unfolding real_cycle_def by blast
  have n: "last vs < step_count g" "hd vs < step_count g" using normal_rel_range [OF assms(1) vs(4)] by blast+
  with assms(1) have "g_outNormal g ! last vs =
      filter (\<lambda>k. \<not> IsLoop (nth_edge g k) \<and> g_index g (ed_from (nth_edge g k)) = Some (last vs)) [0..<edge_count g]"
    unfolding graph_ok_def by blast
  with vs(3) have e: "cf_edge c < edge_count g" "\<not> IsLoop (nth_edge g (cf_edge c))"
    "g_index g (ed_from (nth_edge g (cf_edge c))) = Some (last vs)" by auto
  obtain w where "g_index g (ed_to (nth_edge g (cf_edge c))) = Some w" using e(1) assms(1) unfolding graph_ok_def by blast
  with vs(5) have to: "g_index g (ed_to (nth_edge g (cf_edge c))) = Some (hd vs)" by (simp add: toIdx_def lookup_index_def)
  have "(hd vs, last vs) \<in> (normal_rel g)\<^sup>*" using successively_rtrancl [OF vs(1,2)] .
  then have "(ed_to (nth_edge g (cf_edge c)), ed_from (nth_edge g (cf_edge c))) \<in> (edge_rel (wf_edges (g_def g)))\<^sup>*"
    using e(3) to by (auto simp: graph_index_iff [OF assms(1)] normal_rel_trancl [OF assms(1)] dest!: rtranclD)
  with that e show thesis by simp
qed

lemma rtrancl_Un_split:
  assumes "(y, x) \<in> (E \<union> P)\<^sup>*"
  shows "(y, x) \<in> E\<^sup>* \<or> (\<exists>u v. (y, u) \<in> E\<^sup>* \<and> u \<in> Domain P \<and> v \<in> Range P \<and> (v, x) \<in> E\<^sup>*)"
  using assms by (induction rule: rtrancl_induct) (auto intro: rtrancl_into_rtrancl)

lemma existing_closed:
  assumes "run_graph_known inp" and "(v, u) \<in> (edge_rel (xi_existing_edges inp))\<^sup>*"
  shows "existing inp v \<noteq> None \<longleftrightarrow> existing inp u \<noteq> None"
  using assms(2) by (induction rule: rtrancl_induct) (use assms(1) in \<open>auto simp: run_graph_known_def edge_rel_def\<close>)

lemma closing_edge_detour:
  assumes "run_graph_known inp" and "acyclic (edge_rel (xi_existing_edges inp))"
    and "(x, y) \<in> edge_rel (xi_existing_edges inp)" and "(y, x) \<in> (merged_rel inp)\<^sup>*"
  shows "\<exists>v u. detour inp v u"
proof -
  let ?E = "edge_rel (xi_existing_edges inp)" and ?P = "edge_rel (pl_edges (xi_plan inp))"
  have "(y, x) \<notin> ?E\<^sup>*" using assms(2,3) by (meson acyclic_def rtrancl_into_trancl2)
  then obtain u v where uv: "(y, u) \<in> ?E\<^sup>*" "u \<in> Domain ?P" "v \<in> Range ?P" "(v, x) \<in> ?E\<^sup>*"
    using rtrancl_Un_split [of y x ?E ?P] assms(4) by (auto simp: merged_rel_def edge_rel_append)
  have "existing inp x \<noteq> None" "existing inp y \<noteq> None"
    using assms(1,3) by (auto simp: run_graph_known_def edge_rel_def)
  then have "existing inp v \<noteq> None" "existing inp u \<noteq> None"
    using existing_closed [OF assms(1)] uv by blast+
  moreover have "(v, u) \<in> ?E\<^sup>*" using uv(1,4) assms(3) by (meson rtrancl_trans r_into_rtrancl)
  ultimately show ?thesis using uv by (auto simp: detour_def)
qed

lemma OK_acyclic_iff:
  assumes "run_graph_known inp" and "acyclic (merged_rel inp)"
  shows "OK (ValidateExpansion stepIssues refIssues compile inp) \<longleftrightarrow>
    admissible stepIssues compile inp
    \<and> (\<forall>g. NewGraph (merged_definition inp) = Inr g \<longrightarrow> refIssues inp g = [])
    \<and> (\<forall>e \<in> set (pl_edges (xi_plan inp)). IsLoop e \<longrightarrow> (ed_to e, ed_from e) \<in> (merged_rel inp)\<^sup>+)"
proof -
  have "findCycles g = []" if "NewGraph (merged_definition inp) = Inr g" for g
    using NewGraph_ok [OF that] assms(2)
    by (simp add: findCycles_spec acyclic_normal_rel) (simp add: merged_rel_def merged_definition_def)
  then show ?thesis unfolding OK_iff [OF assms(1)] by auto
qed

text \<open>
  C22.  For a plan whose merged graph stays acyclic, \<open>ValidateExpansion\<close> accepts exactly the
  admissible plans: the caps hold, the injected ids are well-formed, distinct and new to the
  run, every edge touches an injected step, leaves no terminal step and enters no step past
  pending, the fields of every step and edge pass their checks, every loop edge returns to an
  ancestor of its source and every reference resolves.
\<close>

theorem ValidateExpansion_accepts_iff:
  assumes "run_graph_known inp" and "acyclic (merged_rel inp)"
  shows "OK (ValidateExpansion stepIssues refIssues compile inp) \<longleftrightarrow>
    admissible stepIssues compile inp
    \<and> (\<forall>g. NewGraph (merged_definition inp) = Inr g \<longrightarrow> refIssues inp g = [])
    \<and> (\<forall>e \<in> set (pl_edges (xi_plan inp)). IsLoop e \<longrightarrow> (ed_to e, ed_from e) \<in> (merged_rel inp)\<^sup>+)"
  using OK_acyclic_iff [OF assms] .

text \<open>
  C23.  An accepted plan keeps the normal edges of an acyclic run graph acyclic, provided no
  path of existing edges leads from a step the plan splices into back to one it splices out of.
\<close>

theorem ValidateExpansion_acyclic:
  assumes "run_graph_known inp" and "acyclic (edge_rel (xi_existing_edges inp))"
    and "OK (ValidateExpansion stepIssues refIssues compile inp)"
    and "\<And>v u. \<not> detour inp v u"
  shows "acyclic (merged_rel inp)"
proof -
  note ok = assms(3) [unfolded OK_iff [OF assms(1)]]
  from ok have adm: "admissible stepIssues compile inp" by blast
  obtain g where g: "NewGraph (merged_definition inp) = Inr g"
    by (rule buildMergedGraph_total [OF assms(1) adm])
  have gok: "graph_ok g" "g_def g = merged_definition inp" using NewGraph_ok [OF g] by blast+
  have rel: "edge_rel (wf_edges (g_def g)) = merged_rel inp" by (simp add: gok merged_rel_def merged_definition_def)
  have "False" if c: "c \<in> set (findCycles g)" for c
  proof -
    obtain e where e: "e = wf_edges (g_def g) ! cf_edge c" "e \<in> set (wf_edges (g_def g))" "\<not> IsLoop e"
      "(ed_to e, ed_from e) \<in> (merged_rel inp)\<^sup>*"
      by (rule finding_closes [OF gok(1) c, unfolded rel])
    have "\<not> touches_delta inp e" using ok g c e(1) gok(2) by simp
    then have "e \<in> set (xi_existing_edges inp)"
      using e(2) gok(2) admissible_splices [OF adm] by (auto simp: merged_definition_def splice_ok_def)
    with e(3) have "(ed_from e, ed_to e) \<in> edge_rel (xi_existing_edges inp)" by (auto simp: edge_rel_def)
    with closing_edge_detour [OF assms(1,2) _ e(4)] assms(4) show False by blast
  qed
  then have "findCycles g = []" by (cases "findCycles g") auto
  then show ?thesis using findCycles_spec [OF gok(1)] acyclic_normal_rel [OF gok(1)] rel by simp
qed

section \<open>Sample runs\<close>

text \<open>
  A run with the pending steps \<open>z\<close> and \<open>a\<close>, \<open>a\<close> depending on \<open>z\<close>, and an active planner \<open>p\<close>.
  \<open>forward\<close> hangs a new step below the planner, in front of \<open>z\<close>; \<open>backward\<close> puts it below
  \<open>a\<close> instead.
\<close>

definition anchor :: "step_type \<Rightarrow> anchor_status \<Rightarrow> expansion_anchor" where
  "anchor ty st = \<lparr>an_type = ty, an_status = st, an_succeeded = False\<rparr>"

definition sample_expansion :: "dag_edge list \<Rightarrow> expansion_input" where
  "sample_expansion es =
     \<lparr>xi_plan = \<lparr>pl_schema_version = 1, pl_steps = [plain_step ''d''], pl_edges = es\<rparr>,
      xi_origin = \<lparr>xo_kind = OriginPlanner, xo_step_id = ''p'', xo_depth = 0\<rparr>,
      xi_existing = [(''z'', anchor StepNoop AnchorPending), (''a'', anchor StepNoop AnchorPending),
        (''p'', anchor StepPlanner AnchorActive)],
      xi_existing_edges = [plain_edge ''z'' ''a'' EdgeTypeNormal],
      xi_per_expansion_cap = 32, xi_caps = default_expansion_caps, xi_current_step_count = 3, xi_expansions_so_far = 0\<rparr>"

definition forward :: expansion_input where
  "forward = sample_expansion [plain_edge ''p'' ''d'' EdgeTypeNormal, plain_edge ''d'' ''z'' EdgeTypeNormal]"

definition backward :: expansion_input where
  "backward = sample_expansion [plain_edge ''a'' ''d'' EdgeTypeNormal, plain_edge ''d'' ''z'' EdgeTypeNormal]"

abbreviation no_step_issues :: "nat \<Rightarrow> dag_step \<Rightarrow> issue list" where "no_step_issues \<equiv> \<lambda>_ _. []"
abbreviation no_ref_issues :: "expansion_input \<Rightarrow> graph \<Rightarrow> issue list" where "no_ref_issues \<equiv> \<lambda>_ _. []"
abbreviation all_compile :: "string \<Rightarrow> expr_status" where "all_compile \<equiv> \<lambda>_. ExprOk"

lemma sample_known: "run_graph_known (sample_expansion es)"
  by (simp add: run_graph_known_def sample_expansion_def existing_def plain_edge_def)

lemma sample_rel: "edge_rel (xi_existing_edges (sample_expansion es)) = {(''z'', ''a'')}"
  by (simp add: sample_expansion_def plain_edge_def IsLoop_def)

lemma sample_acyclic: "acyclic {(''z'', ''a'')}"
proof (rule acyclic_subset [OF wf_acyclic [OF wf_measure]])
  show "{(''z'', ''a'')} \<subseteq> measure (\<lambda>s. if s = ''z'' then 0 else 1)" by simp
qed

lemma forward_OK: "OK (ValidateExpansion no_step_issues no_ref_issues all_compile forward)"
  by code_simp

lemma forward_no_detour: "\<not> detour forward v u"
proof
  assume d: "detour forward v u"
  have plan: "edge_rel (pl_edges (xi_plan forward)) = {(''p'', ''d''), (''d'', ''z'')}"
    by (simp add: forward_def sample_expansion_def plain_edge_def IsLoop_def)
  have new: "existing forward ''d'' = None" by (simp add: forward_def sample_expansion_def existing_def)
  have "v \<in> {''d'', ''z''}" "u \<in> {''p'', ''d''}" "v \<noteq> ''d''" "u \<noteq> ''d''"
    using d new unfolding detour_def plan by blast+
  then have "v = ''z''" "u = ''p''" by blast+
  with d have "(''z'', ''p'') \<in> {(''z'', ''a'')}\<^sup>*" by (simp add: detour_def forward_def sample_rel)
  then have "''p'' = ''z'' \<or> ''p'' = ''a''" by (rule rtranclE) auto
  then show False by simp
qed

theorem ValidateExpansion_acyclic_witness: "acyclic (merged_rel forward)"
proof (rule ValidateExpansion_acyclic [OF _ _ forward_OK forward_no_detour])
  show "run_graph_known forward" by (simp add: forward_def sample_known)
  show "acyclic (edge_rel (xi_existing_edges forward))"
    unfolding forward_def sample_rel by (rule sample_acyclic)
qed

lemma forward_rel: "merged_rel forward = {(''z'', ''a''), (''p'', ''d''), (''d'', ''z'')}"
  by (simp add: merged_rel_def forward_def sample_expansion_def plain_edge_def IsLoop_def)

lemma forward_acyclic: "acyclic (merged_rel forward)"
proof (rule acyclic_subset [OF wf_acyclic [OF wf_measure]])
  show "merged_rel forward \<subseteq> measure (\<lambda>s. if s = ''p'' then 0 else if s = ''d'' then 1 else if s = ''z'' then 2 else 3)"
    by (simp add: forward_rel)
qed

theorem ValidateExpansion_accepts_iff_witness: "admissible no_step_issues all_compile forward"
  using ValidateExpansion_accepts_iff [OF _ forward_acyclic, of no_step_issues no_ref_issues all_compile]
    forward_OK sample_known by (simp add: forward_def)

text \<open>
  C24.  The check for cycles looks only at the edge that closes the cycle.  In \<open>backward\<close> the
  depth-first search starts at \<open>a\<close>, walks the two new edges and closes the cycle with the existing
  edge from \<open>z\<close> to \<open>a\<close>, so \<open>checkMergedGraph\<close> takes it for a cycle the run already had and
  accepts a plan that makes an acyclic run graph cyclic.
\<close>

theorem ValidateExpansion_admits_cycle:
  "OK (ValidateExpansion no_step_issues no_ref_issues all_compile backward)
   \<and> acyclic (edge_rel (xi_existing_edges backward)) \<and> \<not> acyclic (merged_rel backward)"
proof (intro conjI)
  show "OK (ValidateExpansion no_step_issues no_ref_issues all_compile backward)" by code_simp
  show "acyclic (edge_rel (xi_existing_edges backward))" unfolding backward_def sample_rel by (rule sample_acyclic)
  have "(''a'', ''d'') \<in> merged_rel backward" "(''d'', ''z'') \<in> merged_rel backward" "(''z'', ''a'') \<in> merged_rel backward"
    by (simp_all add: merged_rel_def backward_def sample_expansion_def plain_edge_def IsLoop_def)
  then show "\<not> acyclic (merged_rel backward)" unfolding acyclic_def by (meson trancl.intros)
qed

end
