(* ===== verification/Store_Expand.thy ===== *)
theory Store_Expand
  imports Store_Instantiate Dag_Expansion "HOL-Library.Multiset"
begin

text \<open>
  Applying an expansion plan to a running graph, \<^verbatim>\<open>internal/store/expand.go\<close> and its queries: the
  snapshot the plan is validated against, the inserted rows, the widened anchors, the run's new
  graph version, the events and the outbox tasks, all in the origin step's completion transaction.

  The decoded \<^verbatim>\<open>expansion_caps\<close> column of the run is an argument, as are the arguments of \<open>ValidateExpansion\<close>.
\<close>

section \<open>The snapshot\<close>

record expand_args =
  ex_origin_kind :: origin_kind
  ex_origin_step :: step_id
  ex_plan :: plan_output
  ex_max_added_steps :: int
  ex_trace :: trace_context
  ex_depth_override :: "int option"
  ex_run_caps :: "expansion_caps option"
  ex_now :: time

datatype expand_error = ExpandStore store_error | ExpandRejected expansion_verdict

record expand_result =
  er_graph_version :: int
  er_readied :: "step_id list"
  er_widened :: "step_id list"

definition resolveExpansionCaps :: "expansion_caps option \<Rightarrow> expansion_caps" where
  "resolveExpansionCaps c = (case c of None \<Rightarrow> ResolveExpansion None | Some caps \<Rightarrow> caps)"

definition anchorStatus :: "step_status \<Rightarrow> anchor_status" where
  "anchorStatus s = (case s of
     StepStatusPending \<Rightarrow> AnchorPending
   | StepStatusReady \<Rightarrow> AnchorActive | StepStatusRunning \<Rightarrow> AnchorActive | StepStatusRetrying \<Rightarrow> AnchorActive
   | _ \<Rightarrow> AnchorTerminal)"

definition step_anchor :: "step_id \<Rightarrow> step_row \<Rightarrow> expansion_anchor" where
  "step_anchor origin s = \<lparr>an_type = s_step_type s,
     an_status = (if s_step_id s = origin then AnchorActive else anchorStatus (s_status s)),
     an_succeeded = (s_status s = StepStatusSucceeded)\<rparr>"

definition buildAnchors :: "step_row list \<Rightarrow> step_id \<Rightarrow> (string \<times> expansion_anchor) list" where
  "buildAnchors ss origin = map (\<lambda>s. (s_step_id s, step_anchor origin s)) ss"

definition toDagEdge :: "edge_row \<Rightarrow> dag_edge" where
  "toDagEdge e = \<lparr>ed_from = e_from_step e, ed_to = e_to_step e, ed_type = e_edge_type e,
     ed_when = (case e_when_expr e of None \<Rightarrow> [] | Some w \<Rightarrow> w),
     ed_condition = (case e_condition e of None \<Rightarrow> [] | Some c \<Rightarrow> c),
     ed_max_iterations = (case e_max_iterations e of None \<Rightarrow> 0 | Some n \<Rightarrow> n),
     ed_decision = None, ed_on_exhausted = [], ed_no_progress = None\<rparr>"

definition toDagEdges :: "edge_row list \<Rightarrow> dag_edge list" where
  "toDagEdges es = map toDagEdge es"

definition base_depth :: "expand_args \<Rightarrow> step_row \<Rightarrow> int" where
  "base_depth args origin = (case ex_depth_override args of None \<Rightarrow> s_depth origin | Some d \<Rightarrow> d)"

definition expand_input :: "expand_args \<Rightarrow> run_row \<Rightarrow> step_row \<Rightarrow> rundb \<Rightarrow> expansion_input" where
  "expand_input args r origin db =
     (let caps = resolveExpansionCaps (ex_run_caps args);
          cap = (if ex_max_added_steps args > 0 \<and> ex_max_added_steps args < xc_max_added_steps caps
                 then ex_max_added_steps args else xc_max_added_steps caps)
      in \<lparr>xi_plan = ex_plan args,
          xi_origin = \<lparr>xo_kind = ex_origin_kind args, xo_step_id = ex_origin_step args, xo_depth = base_depth args origin\<rparr>,
          xi_existing = buildAnchors (listRunSteps db) (ex_origin_step args),
          xi_existing_edges = toDagEdges (listRunEdges db),
          xi_per_expansion_cap = cap, xi_caps = caps, xi_current_step_count = int (length (listRunSteps db)),
          xi_expansions_so_far = r_graph_version r - 1\<rparr>)"

section \<open>The writes\<close>

definition plan_ids :: "plan_output \<Rightarrow> string list" where
  "plan_ids plan = map st_id (pl_steps plan)"

text \<open>The normal edges of a plan that lead to a step: an injected step's dependencies, an anchor's new ones.\<close>

definition plan_indegree :: "plan_output \<Rightarrow> string \<Rightarrow> int" where
  "plan_indegree plan sid = int (length (filter (\<lambda>e. \<not> IsLoop e \<and> ed_to e = sid) (pl_edges plan)))"

definition widened_ids :: "plan_output \<Rightarrow> string list" where
  "widened_ids plan = sort (remdups (map ed_to (filter (\<lambda>e. \<not> IsLoop e \<and> ed_to e \<notin> set (plan_ids plan)) (pl_edges plan))))"

definition readied_ids :: "plan_output \<Rightarrow> string list" where
  "readied_ids plan = filter (\<lambda>sid. plan_indegree plan sid = 0) (plan_ids plan)"

definition injected_rows :: "expand_args \<Rightarrow> step_row \<Rightarrow> int \<Rightarrow> step_row list" where
  "injected_rows args origin version = map (\<lambda>s. stepRowParams s
     \<lparr>sp_status = (if plan_indegree (ex_plan args) (st_id s) = 0 then StepStatusReady else StepStatusPending),
      sp_remaining_deps = plan_indegree (ex_plan args) (st_id s), sp_graph_version = version,
      sp_depth = base_depth args origin + 1, sp_origin_step = Some (ex_origin_step args),
      sp_origin_kind = Some (ex_origin_kind args)\<rparr> (ex_now args)) (pl_steps (ex_plan args))"

definition createRunSteps :: "step_row list \<Rightarrow> rundb \<Rightarrow> rundb result" where
  "createRunSteps rows db =
     (if \<not> distinct (map s_step_id rows) \<or> list_ex (\<lambda>s. s_step_id s \<in> set (map s_step_id (steps db))) rows
      then Inl (ErrConstraint ''run_steps_pkey'') else Inr (db\<lparr>steps := sort_key s_step_id (steps db @ rows)\<rparr>))"

definition maxRunEdgeOrdinal :: "rundb \<Rightarrow> int" where
  "maxRunEdgeOrdinal db = (case map e_ordinal (edges db) of [] \<Rightarrow> -1 | x # xs \<Rightarrow> fold max xs x)"

definition createRunEdges :: "edge_row list \<Rightarrow> rundb \<Rightarrow> rundb result" where
  "createRunEdges rows db =
     (if \<not> distinct (map e_ordinal rows) \<or> list_ex (\<lambda>e. e_ordinal e \<in> set (map e_ordinal (edges db))) rows
      then Inl (ErrConstraint ''run_edges_pkey'') else Inr (db\<lparr>edges := edges db @ rows\<rparr>))"

definition addRunStepRemainingDeps :: "step_id \<Rightarrow> int \<Rightarrow> time \<Rightarrow> rundb \<Rightarrow> (step_row \<times> rundb) option" where
  "addRunStepRemainingDeps sid delta now db =
     cas_step sid (\<lambda>s. s_status s = StepStatusPending)
       (\<lambda>s. s\<lparr>s_remaining_deps := s_remaining_deps s + delta, s_updated_at := now\<rparr>) db"

fun widen_anchors :: "(step_id \<Rightarrow> int) \<Rightarrow> time \<Rightarrow> step_id list \<Rightarrow> rundb \<Rightarrow> rundb result" where
  "widen_anchors delta now [] db = Inr db"
| "widen_anchors delta now (sid # sids) db =
     (case addRunStepRemainingDeps sid (delta sid) now db of
        None \<Rightarrow> Inl (ErrGraphIntegrity sid) | Some (_, db1) \<Rightarrow> widen_anchors delta now sids db1)"

definition expandRunGraph :: "int \<Rightarrow> int \<Rightarrow> rundb \<Rightarrow> (run_row \<times> rundb) option" where
  "expandRunGraph added expected db =
     cas_run (\<lambda>r. r_graph_version r = expected)
       (\<lambda>r. r\<lparr>r_graph_version := r_graph_version r + 1, r_steps_total := r_steps_total r + added\<rparr>) db"

definition write_expansion :: "expand_args \<Rightarrow> run_row \<Rightarrow> step_row \<Rightarrow> rundb \<Rightarrow> (expand_result \<times> rundb) result" where
  "write_expansion args r origin db =
     (let plan = ex_plan args; version = r_graph_version r + 1 in
      andThen (createRunSteps (injected_rows args origin version) db) (\<lambda>db1.
      andThen (createRunEdges (edge_rows_from version (maxRunEdgeOrdinal db1 + 1) (pl_edges plan)) db1) (\<lambda>db2.
      andThen (widen_anchors (plan_indegree plan) (ex_now args) (widened_ids plan) db2) (\<lambda>db3.
      case expandRunGraph (int (length (pl_steps plan))) (r_graph_version r) db3 of
        None \<Rightarrow> Inl (ErrGraphIntegrity ''graph_version'')
      | Some (bumped, db4) \<Rightarrow>
          andThen (append_events (EvGraphExpanded (ex_origin_step args) (ex_origin_kind args) (r_graph_version r)
              (r_graph_version bumped) (base_depth args origin + 1) (plan_ids plan) (readied_ids plan) (widened_ids plan)
            # map EvStepReady (readied_ids plan)) db4) (\<lambda>db5.
          Inr (\<lparr>er_graph_version = r_graph_version bumped, er_readied = readied_ids plan, er_widened = widened_ids plan\<rparr>,
               fold (\<lambda>sid. createOutboxTask sid OutboxReasonStepReady (ex_trace args)) (readied_ids plan) db5))))))"

definition ExpandRun :: "(nat \<Rightarrow> dag_step \<Rightarrow> issue list) \<Rightarrow> (expansion_input \<Rightarrow> graph \<Rightarrow> issue list)
    \<Rightarrow> (string \<Rightarrow> expr_status) \<Rightarrow> expand_args \<Rightarrow> rundb \<Rightarrow> expand_error + expand_result \<times> rundb" where
  "ExpandRun stepIssues refIssues compile args db =
     andThen (map_sum ExpandStore id (transitionQueries (ex_now args))) (\<lambda>_.
     if ex_origin_step args = [] then Inl (ExpandStore (ErrBadArgument ''empty origin step id'')) else
     andThen (map_sum ExpandStore id (lockRun db)) (\<lambda>r.
     if r_status r \<noteq> RunStatusRunning \<and> r_status r \<noteq> RunStatusParked
     then Inl (ExpandStore (ErrTransition \<lparr>te_step = None, te_from = RunSt (r_status r), te_to = RunSt (r_status r),
       te_reason = ConflictRunNotRunning, te_caller_claim = None, te_current_claim = None\<rparr>)) else
     case getRunStep (ex_origin_step args) db of None \<Rightarrow> Inl (ExpandStore (ErrNotFound ''step'')) | Some origin \<Rightarrow>
     let verdict = ValidateExpansion stepIssues refIssues compile (expand_input args r origin db) in
     if \<not> OK verdict then Inl (ExpandRejected verdict)
     else map_sum ExpandStore id (write_expansion args r origin db)))"

section \<open>Rows refer to steps\<close>

text \<open>The foreign keys of the attempt and dead-letter tables.\<close>

definition refs_ok :: "rundb \<Rightarrow> bool" where
  "refs_ok db \<longleftrightarrow> (\<forall>a \<in> set (attempts db). at_step_id a \<in> s_step_id ` set (steps db))
     \<and> (\<forall>d \<in> set (dead_letters db). dl_step_id d \<in> s_step_id ` set (steps db))"

lemma replaced_ids: "s_step_id new = sid \<Longrightarrow> s_step_id ` set (replace_row s_step_id sid new ss) = s_step_id ` set ss"
  by (metis step_rows.replace_row_keys list.set_map)

lemma refs_ok_step:
  assumes "refs_ok db" and "step_move old new db db'"
  shows "refs_ok db'"
proof -
  have id: "s_step_id new = s_step_id old" using assms(2) by (simp add: step_move_def row_move_def same_step_identity_def)
  have ids: "s_step_id ` set (steps db') = s_step_id ` set (steps db)"
    using assms(2) replaced_ids [OF id] by (simp add: step_move_def)
  have old: "s_step_id old \<in> s_step_id ` set (steps db)"
    using assms(2) getRunStep_in_steps by (auto simp: step_move_def)
  have "attempts_move old new (attempts db) (attempts db')" "dead_letters_move new db db'"
    using assms(2) by (auto simp: step_move_def)
  then show ?thesis using assms(1) old unfolding refs_ok_def ids
    by (auto simp: id attempts_move_def opens_attempt_def closes_attempt_def close_attempt_def dead_letters_move_def split: if_splits)
qed

lemma refs_ok_edge: "refs_ok db \<Longrightarrow> edge_move e res db db' \<Longrightarrow> refs_ok db'"
  using getRunStep_id by (auto simp: refs_ok_def edge_move_def replaced_ids)

interpretation refs_ok: store_invariant refs_ok
proof unfold_locales
  show "refs_ok db' " if "refs_ok db" "run_move db db'" for db db' using that by (simp add: refs_ok_def run_move_def)
  show "refs_ok db'" if "refs_ok db" "side_move db db'" for db db' using that by (simp add: refs_ok_def side_move_def)
qed (fact refs_ok_step refs_ok_edge)+

section \<open>Widening\<close>

definition widen :: "(step_id \<Rightarrow> int) \<Rightarrow> time \<Rightarrow> step_id list \<Rightarrow> step_row \<Rightarrow> step_row" where
  "widen delta now sids s =
     (if s_step_id s \<in> set sids then s\<lparr>s_remaining_deps := s_remaining_deps s + delta (s_step_id s), s_updated_at := now\<rparr> else s)"

lemma widen_simps [simp]:
  "s_step_id (widen d now sids s) = s_step_id s" "s_status (widen d now sids s) = s_status s"
  "s_fired_deps (widen d now sids s) = s_fired_deps s" "s_attempt_count (widen d now sids s) = s_attempt_count s"
  "s_claim_id (widen d now sids s) = s_claim_id s" "s_next_attempt_at (widen d now sids s) = s_next_attempt_at s"
  by (simp_all add: widen_def)

lemma replace_row_upd:
  assumes "distinct (map key rows)" and "r \<in> set rows"
  shows "replace_row key (key r) (f r) rows = map (\<lambda>x. if key x = key r then f x else x) rows"
  using assms by (auto simp: replace_row_def distinct_map inj_on_def)

lemma widen_anchors_eq:
  assumes "distinct (map s_step_id (steps db))" and "distinct sids"
    and "\<And>sid. sid \<in> set sids \<Longrightarrow> \<exists>s \<in> set (steps db). s_step_id s = sid \<and> s_status s = StepStatusPending"
  shows "widen_anchors d now sids db = Inr (db\<lparr>steps := map (widen d now sids) (steps db)\<rparr>)"
  using assms
proof (induction sids arbitrary: db)
  case Nil
  then show ?case by (simp add: widen_def)
next
  case (Cons sid sids)
  from Cons.prems(3) [of sid] obtain s where s: "s \<in> set (steps db)" "s_step_id s = sid" "s_status s = StepStatusPending" by auto
  let ?db = "db\<lparr>steps := map (widen d now [sid]) (steps db)\<rparr>"
  have "getRunStep sid db = Some s" using step_rows.row_at_unique [OF Cons.prems(1) s(1)] s(2) by (simp add: getRunStep_def)
  moreover have "replace_row s_step_id sid (widen d now [sid] s) (steps db) = map (widen d now [sid]) (steps db)"
    using replace_row_upd [OF Cons.prems(1) s(1), of "widen d now [sid]"] s(2) by (auto simp: widen_def)
  ultimately have "addRunStepRemainingDeps sid (d sid) now db = Some (widen d now [sid] s, ?db)"
    using s by (simp add: addRunStepRemainingDeps_def cas_step_def widen_def)
  then have "widen_anchors d now (sid # sids) db = widen_anchors d now sids ?db" by simp
  also have "\<dots> = Inr (?db\<lparr>steps := map (widen d now sids) (steps ?db)\<rparr>)"
    by (rule Cons.IH) (use Cons.prems in \<open>auto simp: o_def\<close>)
  also have "map (widen d now sids) (steps ?db) = map (widen d now (sid # sids)) (steps db)"
    using Cons.prems(2) by (auto simp: widen_def)
  finally show ?case by simp
qed

section \<open>The tables after an expansion\<close>

definition expanded_steps :: "expand_args \<Rightarrow> run_row \<Rightarrow> step_row \<Rightarrow> rundb \<Rightarrow> step_row list" where
  "expanded_steps args r origin db = map (widen (plan_indegree (ex_plan args)) (ex_now args) (widened_ids (ex_plan args)))
     (sort_key s_step_id (steps db @ injected_rows args origin (r_graph_version r + 1)))"

definition expanded_edges :: "expand_args \<Rightarrow> run_row \<Rightarrow> rundb \<Rightarrow> edge_row list" where
  "expanded_edges args r db =
     edges db @ edge_rows_from (r_graph_version r + 1) (maxRunEdgeOrdinal db + 1) (pl_edges (ex_plan args))"

definition expanded_run :: "expand_args \<Rightarrow> run_row \<Rightarrow> run_row" where
  "expanded_run args r = r\<lparr>r_graph_version := r_graph_version r + 1, r_steps_total := r_steps_total r + int (length (pl_steps (ex_plan args)))\<rparr>"

definition expanded :: "expand_args \<Rightarrow> run_row \<Rightarrow> step_row \<Rightarrow> rundb \<Rightarrow> rundb" where
  "expanded args r origin db = db\<lparr>run := Some (expanded_run args r),
     steps := expanded_steps args r origin db, edges := expanded_edges args r db\<rparr>"

definition expansion_events :: "expand_args \<Rightarrow> run_row \<Rightarrow> step_row \<Rightarrow> event_payload list" where
  "expansion_events args r origin =
     EvGraphExpanded (ex_origin_step args) (ex_origin_kind args) (r_graph_version r) (r_graph_version r + 1)
       (base_depth args origin + 1) (plan_ids (ex_plan args)) (readied_ids (ex_plan args)) (widened_ids (ex_plan args))
     # map EvStepReady (readied_ids (ex_plan args))"

lemma injected_ids: "map s_step_id (injected_rows args origin v) = plan_ids (ex_plan args)"
  by (simp add: injected_rows_def stepRowParams_def plan_ids_def o_def)

lemma injected_rowsD:
  assumes "x \<in> set (injected_rows args origin v)"
  shows "s_step_id x \<in> set (plan_ids (ex_plan args)) \<and> s_remaining_deps x = plan_indegree (ex_plan args) (s_step_id x)
    \<and> s_fired_deps x = 0 \<and> s_attempt_count x = 0
    \<and> s_status x = (if plan_indegree (ex_plan args) (s_step_id x) = 0 then StepStatusReady else StepStatusPending)"
  using assms by (auto simp: injected_rows_def stepRowParams_def plan_ids_def)

lemma expand_existing:
  assumes "distinct (map s_step_id (steps db))"
  shows "existing (expand_input args r origin db) sid = Some a \<longleftrightarrow>
    (\<exists>s \<in> set (steps db). s_step_id s = sid \<and> a = step_anchor (ex_origin_step args) s)"
proof -
  have "distinct (map fst (buildAnchors (steps db) (ex_origin_step args)))" using assms by (simp add: buildAnchors_def o_def)
  then show ?thesis
    by (auto simp: existing_def expand_input_def Let_def listRunSteps_def buildAnchors_def)
qed

lemma expand_known_ids:
  assumes "distinct (map s_step_id (steps db))"
  shows "existing (expand_input args r origin db) sid \<noteq> None \<longleftrightarrow> sid \<in> s_step_id ` set (steps db)"
  using expand_existing [OF assms] by (auto simp: not_None_eq) 

lemma expand_graph_known:
  assumes "db_inv db"
  shows "run_graph_known (expand_input args r origin db)"
proof -
  have d: "distinct (map s_step_id (steps db))" and e: "edges_ok (steps db) (edges db)"
    using assms by (simp_all add: db_inv_def steps_inv_def)
  have "existing (expand_input args r origin db) (ed_from x) \<noteq> None \<and> existing (expand_input args r origin db) (ed_to x) \<noteq> None"
    if "x \<in> set (xi_existing_edges (expand_input args r origin db))" for x
    using that e unfolding expand_known_ids [OF d]
    by (auto simp: expand_input_def Let_def toDagEdges_def toDagEdge_def listRunEdges_def edges_ok_def)
  moreover have "distinct (map fst (xi_existing (expand_input args r origin db)))"
    using d by (simp add: expand_input_def Let_def buildAnchors_def listRunSteps_def o_def)
  ultimately show ?thesis by (simp add: run_graph_known_def)
qed

lemma plan_fresh:
  assumes "db_inv db" and "admissible stepIssues compile (expand_input args r origin db)"
  shows "distinct (plan_ids (ex_plan args))" and "sid \<in> set (plan_ids (ex_plan args)) \<Longrightarrow> sid \<notin> s_step_id ` set (steps db)"
proof -
  have d: "distinct (map s_step_id (steps db))" using assms(1) by (simp add: db_inv_def steps_inv_def)
  have ids: "delta_ids (expand_input args r origin db) = plan_ids (ex_plan args)"
    by (simp add: delta_ids_def plan_ids_def expand_input_def Let_def)
  have "new_ids (expand_input args r origin db)" using assms(2) by (simp add: admissible_def Let_def)
  then show "distinct (plan_ids (ex_plan args))"
    and "sid \<in> set (plan_ids (ex_plan args)) \<Longrightarrow> sid \<notin> s_step_id ` set (steps db)"
    using expand_known_ids [OF d] unfolding new_ids_def ids by blast+
qed

lemma plan_edge_ends:
  assumes "db_inv db" and "admissible stepIssues compile (expand_input args r origin db)" and "e \<in> set (pl_edges (ex_plan args))"
  shows "ed_from e \<in> set (plan_ids (ex_plan args)) \<or> ed_from e \<in> s_step_id ` set (steps db)"
    and "ed_to e \<in> set (plan_ids (ex_plan args)) \<or> (\<exists>s \<in> set (steps db). s_step_id s = ed_to e \<and> s_status s = StepStatusPending)"
proof -
  have d: "distinct (map s_step_id (steps db))" using assms(1) by (simp add: db_inv_def steps_inv_def)
  let ?inp = "expand_input args r origin db"
  have ids: "delta_ids ?inp = plan_ids (ex_plan args)" by (simp add: delta_ids_def plan_ids_def expand_input_def Let_def)
  have "e \<in> set (pl_edges (xi_plan ?inp))" using assms(3) by (simp add: expand_input_def Let_def)
  then have sp: "splice_ok ?inp e" by (rule admissible_splices [OF assms(2)])
  then show "ed_from e \<in> set (plan_ids (ex_plan args)) \<or> ed_from e \<in> s_step_id ` set (steps db)"
    using expand_known_ids [OF d] unfolding splice_ok_def ids by blast
  have "s_status s = StepStatusPending" if "an_status (step_anchor (ex_origin_step args) s) = AnchorPending" for s
    using that by (auto simp: step_anchor_def anchorStatus_def split: if_splits step_status.splits)
  then show "ed_to e \<in> set (plan_ids (ex_plan args)) \<or> (\<exists>s \<in> set (steps db). s_step_id s = ed_to e \<and> s_status s = StepStatusPending)"
    using sp unfolding splice_ok_def ids expand_existing [OF d] by blast
qed

lemma widened_pending:
  assumes "db_inv db" and "admissible stepIssues compile (expand_input args r origin db)" and "sid \<in> set (widened_ids (ex_plan args))"
  shows "\<exists>s \<in> set (steps db). s_step_id s = sid \<and> s_status s = StepStatusPending"
  using plan_edge_ends(2) [OF assms(1,2)] assms(3) by (auto simp: widened_ids_def)

lemma ordinals_below: "e \<in> set (edges db) \<Longrightarrow> e_ordinal e \<le> maxRunEdgeOrdinal db"
proof -
  have "y \<le> fold max xs x" if "y \<in> set (x # xs)" for x y :: int and xs
    using that by (simp add: Max_ge flip: Max.set_eq_fold)
  moreover assume "e \<in> set (edges db)"
  ultimately show ?thesis
    by (cases "edges db") (auto simp: maxRunEdgeOrdinal_def)
qed

lemma in_edges_append: "in_edges sid res (es @ es') = in_edges sid res es + in_edges sid res es'"
  by (simp add: in_edges_def)

lemma expanded_in_edges:
  "in_edges sid EdgeResolutionUnresolved (expanded_edges args r db) = in_edges sid EdgeResolutionUnresolved (edges db) + plan_indegree (ex_plan args) sid"
  "in_edges sid EdgeResolutionFired (expanded_edges args r db) = in_edges sid EdgeResolutionFired (edges db)"
  by (simp_all add: expanded_edges_def in_edges_append edge_rows_in_edges plan_indegree_def)

lemma not_widened: "sid \<notin> set (plan_ids plan) \<Longrightarrow> sid \<notin> set (widened_ids plan) \<Longrightarrow> plan_indegree plan sid = 0"
  by (auto simp: widened_ids_def plan_indegree_def filter_empty_conv)

lemma widened_disjoint: "sid \<in> set (widened_ids plan) \<Longrightarrow> sid \<notin> set (plan_ids plan)"
  by (auto simp: widened_ids_def)

lemma no_in_edges:
  assumes "edges_ok ss es" and "sid \<notin> s_step_id ` set ss"
  shows "in_edges sid res es = 0"
  using assms by (auto simp: in_edges_def edges_ok_def filter_empty_conv)

lemma expanded_stepsD:
  assumes "x \<in> set (expanded_steps args r origin db)"
  shows "(\<exists>s \<in> set (steps db). x = widen (plan_indegree (ex_plan args)) (ex_now args) (widened_ids (ex_plan args)) s)
    \<or> (\<exists>s \<in> set (injected_rows args origin (r_graph_version r + 1)). x = s)"
  using assms widened_disjoint injected_rowsD by (fastforce simp: expanded_steps_def widen_def)

lemma expanded_ids_set: "s_step_id ` set (expanded_steps args r origin db) = s_step_id ` set (steps db) \<union> set (plan_ids (ex_plan args))"
proof -
  have "s_step_id ` set (injected_rows args origin v) = set (plan_ids (ex_plan args))" for v
    by (metis injected_ids list.set_map)
  then show ?thesis by (auto simp: expanded_steps_def image_image image_Un)
qed

lemma expanded_rows_ok:
  assumes inv: "db_inv db" "refs_ok db" and adm: "admissible stepIssues compile (expand_input args r origin db)"
    and x: "x \<in> set (expanded_steps args r origin db)"
  shows "step_row_ok x \<and> deps_ok (expanded_edges args r db) x \<and> attempts_ok (attempts db) x \<and> dead_letters_ok (dead_letters db) x"
proof -
  have rows: "step_row_ok s \<and> deps_ok (edges db) s \<and> attempts_ok (attempts db) s \<and> dead_letters_ok (dead_letters db) s"
    if "s \<in> set (steps db)" for s using inv(1) that by (auto simp: db_inv_def steps_inv_def)
  note fresh = plan_fresh(2) [OF inv(1) adm]
  from expanded_stepsD [OF x] show ?thesis
  proof
    assume "\<exists>s \<in> set (steps db). x = widen (plan_indegree (ex_plan args)) (ex_now args) (widened_ids (ex_plan args)) s"
    then obtain s where s: "s \<in> set (steps db)" and x: "x = widen (plan_indegree (ex_plan args)) (ex_now args) (widened_ids (ex_plan args)) s"
      by blast
    have "s_step_id s \<notin> set (plan_ids (ex_plan args))" using fresh s by blast
    then have "s_remaining_deps x = s_remaining_deps s + plan_indegree (ex_plan args) (s_step_id s)"
      using not_widened unfolding x by (auto simp: widen_def)
    then show ?thesis using rows [OF s] unfolding x
      by (auto simp: step_row_ok_def deps_ok_def expanded_in_edges attempts_ok_def dead_letters_ok_def)
  next
    assume "\<exists>s \<in> set (injected_rows args origin (r_graph_version r + 1)). x = s"
    then have x: "s_step_id x \<in> set (plan_ids (ex_plan args))" "s_remaining_deps x = plan_indegree (ex_plan args) (s_step_id x)"
      "s_fired_deps x = 0" "s_attempt_count x = 0" "s_status x = StepStatusReady \<or> s_status x = StepStatusPending"
      using injected_rowsD by auto
    have new: "s_step_id x \<notin> s_step_id ` set (steps db)" by (rule fresh [OF x(1)])
    then have "attempts_of (s_step_id x) (attempts db) = []" "dead_letters_of (s_step_id x) (dead_letters db) = []"
      using inv(2) unfolding refs_ok_def attempts_of_def dead_letters_of_def filter_empty_conv by metis+
    moreover have "in_edges (s_step_id x) res (edges db) = 0" for res
      using no_in_edges [OF _ new] inv(1) by (simp add: db_inv_def)
    ultimately show ?thesis using x(2-5)
      by (auto simp: step_row_ok_def deps_ok_def expanded_in_edges attempts_ok_def dead_letters_ok_def attempt_open_def)
  qed
qed

lemma expanded_status_count:
  assumes "st \<noteq> StepStatusReady" and "st \<noteq> StepStatusPending"
  shows "status_count st (expanded_steps args r origin db) = status_count st (steps db)"
proof -
  have "filter (\<lambda>s. s_status s = st) (injected_rows args origin v) = []" for v
    using assms by (auto simp: filter_empty_conv dest!: injected_rowsD split: if_splits)
  moreover have "mset (map s_status (expanded_steps args r origin db))
      = mset (map s_status (steps db @ injected_rows args origin (r_graph_version r + 1)))"
    by (simp add: expanded_steps_def o_def)
  then have "length (filter (\<lambda>x. x = st) (map s_status (expanded_steps args r origin db)))
      = length (filter (\<lambda>x. x = st) (map s_status (steps db @ injected_rows args origin (r_graph_version r + 1))))"
    by (metis mset_filter size_mset)
  ultimately show ?thesis by (simp add: status_count_def filter_map o_def)
qed

lemma expanded_edges_ok:
  assumes inv: "db_inv db" and adm: "admissible stepIssues compile (expand_input args r origin db)"
  shows "edges_ok (expanded_steps args r origin db) (expanded_edges args r db)"
proof -
  let ?new = "edge_rows_from (r_graph_version r + 1) (maxRunEdgeOrdinal db + 1) (pl_edges (ex_plan args))"
  have old: "edges_ok (steps db) (edges db)" using inv by (simp add: db_inv_def)
  have ords: "map e_ordinal ?new = map (\<lambda>k. maxRunEdgeOrdinal db + 1 + int k) [0..<length (pl_edges (ex_plan args))]"
    by (rule edge_rows_ordinals)
  then have "distinct (map e_ordinal ?new)" by (simp add: distinct_map inj_on_def)
  moreover have "set (map e_ordinal (edges db)) \<inter> set (map e_ordinal ?new) = {}"
    unfolding ords using ordinals_below by fastforce
  ultimately have "distinct (map e_ordinal (expanded_edges args r db))" using old by (simp add: expanded_edges_def edges_ok_def)
  moreover have "e_from_step e \<in> s_step_id ` set (expanded_steps args r origin db) \<and> e_to_step e \<in> s_step_id ` set (expanded_steps args r origin db)
      \<and> (e_edge_type e = EdgeTypeLoop \<longrightarrow> e_resolution e = EdgeResolutionUnresolved)" if "e \<in> set (expanded_edges args r db)" for e
  proof (cases "e \<in> set (edges db)")
    case True
    then show ?thesis using old unfolding expanded_ids_set by (auto simp: edges_ok_def)
  next
    case False
    with that obtain x where x: "x \<in> set (pl_edges (ex_plan args))" "e_from_step e = ed_from x" "e_to_step e = ed_to x"
      "e_resolution e = EdgeResolutionUnresolved" using edge_rows_set by (auto simp: expanded_edges_def) blast
    then show ?thesis unfolding expanded_ids_set using plan_edge_ends [OF inv adm x(1)] by (metis UnI1 UnI2 imageI)
  qed
  ultimately show ?thesis by (simp add: edges_ok_def)
qed

lemma expanded_step_ids: "map s_step_id (expanded_steps args r origin db) = sort (map s_step_id (steps db) @ plan_ids (ex_plan args))"
  by (simp add: expanded_steps_def o_def sort_key_map_eq injected_ids)

lemma expanded_inv:
  assumes inv: "db_inv db" "refs_ok db" and adm: "admissible stepIssues compile (expand_input args r origin db)"
    and r: "run db = Some r" "r_status r = RunStatusRunning \<or> r_status r = RunStatusParked"
  shows "db_inv (expanded args r origin db)" and "refs_ok (expanded args r origin db)"
proof -
  have "distinct (map s_step_id (expanded_steps args r origin db))"
  proof -
    have "distinct (map s_step_id (steps db) @ plan_ids (ex_plan args))"
      using plan_fresh [OF inv(1) adm] inv(1) by (auto simp: db_inv_def steps_inv_def)
    then show ?thesis by (simp add: expanded_step_ids)
  qed
  moreover have "length (expanded_steps args r origin db) = length (steps db) + length (pl_steps (ex_plan args))"
    by (simp add: expanded_steps_def injected_rows_def)
  moreover have "run_inv db" using inv(1) by (simp add: db_inv_def)
  ultimately show "db_inv (expanded args r origin db)"
    using expanded_rows_ok [OF inv adm] expanded_edges_ok [OF inv(1) adm] inv(1) r
    by (auto simp: db_inv_def steps_inv_def run_inv_def expanded_def expanded_run_def counters_ok_def expanded_status_count
        log_ok_def run_state_ok_def run_succeeded_ok_def)
  show "refs_ok (expanded args r origin db)" using inv(2) by (auto simp: refs_ok_def expanded_def expanded_ids_set)
qed

section \<open>Expansion as one transaction\<close>

lemma write_expansion_eq:
  assumes inv: "db_inv db" "refs_ok db" and adm: "admissible stepIssues compile (expand_input args r origin db)"
    and r: "run db = Some r" "r_status r = RunStatusRunning \<or> r_status r = RunStatusParked"
  shows "write_expansion args r origin db = Inr
    (\<lparr>er_graph_version = r_graph_version r + 1, er_readied = readied_ids (ex_plan args), er_widened = widened_ids (ex_plan args)\<rparr>,
     fold (\<lambda>sid. createOutboxTask sid OutboxReasonStepReady (ex_trace args)) (readied_ids (ex_plan args))
       (fold log_event (expansion_events args r origin) (expanded args r origin db)))"
proof -
  let ?v = "r_graph_version r + 1" and ?plan = "ex_plan args"
  let ?rows = "injected_rows args origin ?v"
  let ?db1 = "db\<lparr>steps := sort_key s_step_id (steps db @ ?rows)\<rparr>"
  let ?db2 = "?db1\<lparr>edges := expanded_edges args r db\<rparr>"
  let ?db3 = "?db2\<lparr>steps := expanded_steps args r origin db\<rparr>"
  have new: "distinct (map s_step_id ?rows)" "\<not> list_ex (\<lambda>s. s_step_id s \<in> set (map s_step_id (steps db))) ?rows"
    using plan_fresh [OF inv(1) adm] injected_rowsD by (fastforce simp: injected_ids list_ex_iff)+
  then have c1: "createRunSteps ?rows db = Inr ?db1" by (simp add: createRunSteps_def)
  have ok: "edges_ok (expanded_steps args r origin db) (expanded_edges args r db)" by (rule expanded_edges_ok [OF inv(1) adm])
  have "maxRunEdgeOrdinal ?db1 = maxRunEdgeOrdinal db" by (simp add: maxRunEdgeOrdinal_def)
  then have c2: "createRunEdges (edge_rows_from ?v (maxRunEdgeOrdinal ?db1 + 1) (pl_edges ?plan)) ?db1 = Inr ?db2"
    using ok by (auto simp: createRunEdges_def edges_ok_def expanded_edges_def list_ex_iff)
  have "distinct (map s_step_id (expanded_steps args r origin db))"
    using expanded_inv(1) [OF inv adm r] by (simp add: db_inv_def steps_inv_def expanded_def)
  then have "distinct (map s_step_id (steps ?db2))" by (simp add: expanded_steps_def o_def)
  then have c3: "widen_anchors (plan_indegree ?plan) (ex_now args) (widened_ids ?plan) ?db2 = Inr ?db3"
    using widen_anchors_eq [of ?db2 "widened_ids ?plan" "plan_indegree ?plan" "ex_now args"] widened_pending [OF inv(1) adm]
    by (auto simp: expanded_steps_def widened_ids_def)
  have c4: "expandRunGraph (int (length (pl_steps ?plan))) (r_graph_version r) ?db3 = Some (expanded_run args r, expanded args r origin db)"
    using r(1) by (simp add: expandRunGraph_def cas_run_def expanded_run_def expanded_def)
  show ?thesis
    unfolding write_expansion_def Let_def c1 andThen_simps c2 c3 c4 option.case prod.case
    using append_events_inv [OF expanded_inv(1) [OF inv adm r]]
    by (simp add: expanded_run_def expansion_events_def)
qed

lemma spliced_edge_rel: "edge_rel (toDagEdges (edge_rows_from v i es)) = edge_rel es"
  by (induction es arbitrary: i) (auto simp: toDagEdges_def toDagEdge_def edgeRowParams_def IsLoop_def)

lemma expanded_rel:
  "edge_rel (toDagEdges (expanded_edges args r db)) = merged_rel (expand_input args r origin db)"
  by (simp add: expanded_edges_def merged_rel_def expand_input_def Let_def listRunEdges_def edge_rel_append
      spliced_edge_rel toDagEdges_def [of "_ @ _"] flip: toDagEdges_def)

lemma unwidened_kept:
  assumes "db_inv db" and "admissible stepIssues compile (expand_input args r origin db)"
    and "s \<in> set (steps db)" and "s_status s \<noteq> StepStatusPending"
  shows "s \<in> set (expanded_steps args r origin db)"
proof -
  have "distinct (map s_step_id (steps db))" using assms(1) by (simp add: db_inv_def steps_inv_def)
  then have "s_step_id s \<notin> set (widened_ids (ex_plan args))"
    using widened_pending [OF assms(1,2)] assms(3,4) by (metis inj_on_def distinct_map)
  then show ?thesis using assms(3) by (auto simp: expanded_steps_def widen_def image_iff intro!: bexI [of _ s])
qed

lemma ExpandRun_eq:
  assumes "db_inv db" and "refs_ok db"
  shows "ExpandRun stepIssues refIssues compile args db = Inr (res, db') \<longleftrightarrow>
    (\<exists>r origin. run db = Some r \<and> (r_status r = RunStatusRunning \<or> r_status r = RunStatusParked)
      \<and> getRunStep (ex_origin_step args) db = Some origin \<and> ex_now args \<noteq> 0 \<and> ex_origin_step args \<noteq> []
      \<and> OK (ValidateExpansion stepIssues refIssues compile (expand_input args r origin db))
      \<and> res = \<lparr>er_graph_version = r_graph_version r + 1, er_readied = readied_ids (ex_plan args), er_widened = widened_ids (ex_plan args)\<rparr>
      \<and> db' = fold (\<lambda>sid. createOutboxTask sid OutboxReasonStepReady (ex_trace args)) (readied_ids (ex_plan args))
          (fold log_event (expansion_events args r origin) (expanded args r origin db)))"
proof (cases "run db")
  case None
  then show ?thesis by (auto simp: ExpandRun_def lockRun_def lockRun_q_def andThen_eq_Inr)
next
  case (Some r)
  show ?thesis
  proof (cases "getRunStep (ex_origin_step args) db")
    case None
    then show ?thesis using Some by (auto simp: ExpandRun_def lockRun_def lockRun_q_def andThen_eq_Inr split: if_splits)
  next
    case (Some origin)
    show ?thesis
    proof (cases "OK (ValidateExpansion stepIssues refIssues compile (expand_input args r origin db)) \<and>
        (r_status r = RunStatusRunning \<or> r_status r = RunStatusParked) \<and> ex_now args \<noteq> 0 \<and> ex_origin_step args \<noteq> []")
      case True
      then have "write_expansion args r origin db = Inr
        (\<lparr>er_graph_version = r_graph_version r + 1, er_readied = readied_ids (ex_plan args), er_widened = widened_ids (ex_plan args)\<rparr>,
         fold (\<lambda>sid. createOutboxTask sid OutboxReasonStepReady (ex_trace args)) (readied_ids (ex_plan args))
           (fold log_event (expansion_events args r origin) (expanded args r origin db)))"
        using write_expansion_eq [OF assms OK_admissible \<open>run db = Some r\<close>] by blast
      with True Some \<open>run db = Some r\<close> show ?thesis
        by (auto simp: ExpandRun_def transitionQueries_def lockRun_def lockRun_q_def Let_def)
    next
      case False
      with Some \<open>run db = Some r\<close> show ?thesis
        by (auto simp: ExpandRun_def transitionQueries_def lockRun_def lockRun_q_def Let_def andThen_eq_Inr split: if_splits)
    qed
  qed
qed

lemma refs_ok_cong: "steps db' = steps db \<Longrightarrow> attempts db' = attempts db \<Longrightarrow> dead_letters db' = dead_letters db \<Longrightarrow> refs_ok db' = refs_ok db"
  by (simp add: refs_ok_def)

lemma ExpandRun_inv:
  assumes "db_inv db" and "refs_ok db" and "ExpandRun stepIssues refIssues compile args db = Inr (res, db')"
  shows "db_inv db' \<and> refs_ok db'"
proof -
  obtain r origin where r: "run db = Some r" "r_status r = RunStatusRunning \<or> r_status r = RunStatusParked"
    and ok: "OK (ValidateExpansion stepIssues refIssues compile (expand_input args r origin db))"
    and db': "db' = fold (\<lambda>sid. createOutboxTask sid OutboxReasonStepReady (ex_trace args)) (readied_ids (ex_plan args))
          (fold log_event (expansion_events args r origin) (expanded args r origin db))"
    using assms(3) unfolding ExpandRun_eq [OF assms(1,2)] by blast
  note inv = expanded_inv [OF assms(1,2) OK_admissible [OF ok] r]
  have "db_inv db'" unfolding db' by (rule fold_outbox_inv) (use append_events_inv [OF inv(1)] in blast)
  moreover have "refs_ok db'" unfolding db' fold_outbox_eq using inv(2) by (simp add: refs_ok_def)
  ultimately show ?thesis by blast
qed

text \<open>
  C6.  An accepted plan is applied completely.  On tables within the invariant, in a running or
  parked run, \<open>ExpandRun\<close> cannot fail once the plan passes the check: none of its integrity
  errors can occur.  It adds exactly the plan's steps and edges, so that the run's graph becomes
  the merged graph the check looked at; it changes no step past pending; it raises the graph
  version by one, records the expansion followed by one ready event per readied step, numbered
  after the run's last event, and leaves every injected ready step with its outbox task.  The
  invariant of the tables and their references are kept.
\<close>

theorem ExpandRun_applies:
  assumes "db_inv db" and "refs_ok db" and "run db = Some r"
    and "r_status r = RunStatusRunning \<or> r_status r = RunStatusParked"
    and "getRunStep (ex_origin_step args) db = Some origin" and "ex_now args \<noteq> 0" and "ex_origin_step args \<noteq> []"
    and "OK (ValidateExpansion stepIssues refIssues compile (expand_input args r origin db))"
  shows "\<exists>res db'. ExpandRun stepIssues refIssues compile args db = Inr (res, db') \<and> db_inv db' \<and> refs_ok db'
    \<and> map s_step_id (steps db') = sort (map s_step_id (steps db) @ plan_ids (ex_plan args))
    \<and> (\<forall>s \<in> set (steps db). s_status s \<noteq> StepStatusPending \<longrightarrow> s \<in> set (steps db'))
    \<and> edge_rel (toDagEdges (edges db')) = merged_rel (expand_input args r origin db)
    \<and> events db' = events db @ numbered (r_next_seq r) (expansion_events args r origin)
    \<and> map_option r_graph_version (run db') = Some (r_graph_version r + 1)
    \<and> (\<forall>s \<in> set (steps db'). s_step_id s \<in> set (plan_ids (ex_plan args)) \<longrightarrow> s_status s = StepStatusReady \<longrightarrow>
         s_step_id s \<in> ob_step_id ` set (outbox db'))"
proof -
  have adm: "admissible stepIssues compile (expand_input args r origin db)" by (rule OK_admissible [OF assms(8)])
  let ?log = "fold log_event (expansion_events args r origin) (expanded args r origin db)"
  let ?db = "fold (\<lambda>sid. createOutboxTask sid OutboxReasonStepReady (ex_trace args)) (readied_ids (ex_plan args)) ?log"
  obtain res where ex: "ExpandRun stepIssues refIssues compile args db = Inr (res, ?db)"
    unfolding ExpandRun_eq [OF assms(1,2)] using assms(3-8) by blast
  have run: "run (expanded args r origin db) = Some (expanded_run args r)" by (simp add: expanded_def)
  note log = fold_log_event_events [OF run, of "expansion_events args r origin"]
  have steps: "steps ?db = expanded_steps args r origin db" by (simp add: fold_outbox_eq expanded_def)
  have edges: "edges ?db = expanded_edges args r db" by (simp add: fold_outbox_eq expanded_def)
  have "s_step_id s \<in> ob_step_id ` set (outbox ?db)"
    if "s \<in> set (steps ?db)" "s_step_id s \<in> set (plan_ids (ex_plan args))" "s_status s = StepStatusReady" for s
  proof -
    have "s_step_id s \<notin> s_step_id ` set (steps db)" by (rule plan_fresh(2) [OF assms(1) adm that(2)])
    then have "s \<in> set (injected_rows args origin (r_graph_version r + 1))"
      using expanded_stepsD [OF that(1) [unfolded steps]] by auto
    from injected_rowsD [OF this] that have "s_step_id s \<in> set (readied_ids (ex_plan args))"
      by (auto simp: readied_ids_def split: if_splits)
    then show ?thesis by (simp add: fold_outbox_eq image_Un image_image)
  qed
  moreover have "events ?db = events db @ numbered (r_next_seq r) (expansion_events args r origin)"
    "map_option r_graph_version (run ?db) = Some (r_graph_version r + 1)"
    using log by (simp_all add: fold_outbox_eq expanded_def expanded_run_def)
  ultimately show ?thesis
    using ex ExpandRun_inv [OF assms(1,2) ex] steps edges expanded_step_ids unwidened_kept [OF assms(1) adm] expanded_rel by metis
qed

section \<open>Histories with expansions\<close>

inductive run_step :: "rundb \<Rightarrow> rundb \<Rightarrow> bool" where
  op: "store_op db db' \<Longrightarrow> run_step db db'"
| expand: "ExpandRun stepIssues refIssues compile args db = Inr (res, db') \<Longrightarrow> run_step db db'"

lemma run_step_inv: "run_step db db' \<Longrightarrow> db_inv db \<and> refs_ok db \<Longrightarrow> db_inv db' \<and> refs_ok db'"
proof (induction rule: run_step.induct)
  case (op db db')
  then show ?case using store_ops_moves [OF r_into_rtranclp] db_inv.moves_keep refs_ok.moves_keep by blast
next
  case (expand stepIssues refIssues compile args db res db')
  then show ?case using ExpandRun_inv by blast
qed

lemma created_inv:
  assumes "CreateRun_tx def args = Inr (rn, db)"
  shows "db_inv db \<and> refs_ok db"
proof -
  have "db_inv db" by (rule CreateRun_tx_inv [OF assms])
  moreover have "refs_ok db" using assms by (auto simp: CreateRun_tx_eq_Inr refs_ok_def fold_outbox_eq new_tables_def empty_db_def)
  ultimately show ?thesis by blast
qed

text \<open>
  Every history of a run, from the transaction that creates it through any interleaving of
  store transitions and graph expansions, keeps the invariant of its tables and their references.
\<close>

theorem growing_histories_keep_invariant:
  assumes "CreateRun_tx def args = Inr (rn, db)" and "run_step\<^sup>*\<^sup>* db db'"
  shows "db_inv db' \<and> refs_ok db'"
  using assms(2) created_inv [OF assms(1)] by (induction rule: rtranclp_induct) (blast dest: run_step_inv)+

section \<open>Sample expansions\<close>

text \<open>A new step \<open>x\<close> between the sample run's \<open>a\<close> and \<open>b\<close>, injected by \<open>a\<close>.\<close>

definition sample_args :: expand_args where
  "sample_args = \<lparr>ex_origin_kind = OriginPlanner, ex_origin_step = ''a'',
     ex_plan = \<lparr>pl_schema_version = 1, pl_steps = [plain_step ''x''],
       pl_edges = [plain_edge ''a'' ''x'' EdgeTypeNormal, plain_edge ''x'' ''b'' EdgeTypeNormal]\<rparr>,
     ex_max_added_steps = 0, ex_trace = no_trace, ex_depth_override = None, ex_run_caps = None, ex_now = 200\<rparr>"

theorem ExpandRun_applies_witness:
  "\<exists>res db'. ExpandRun no_step_issues no_ref_issues all_compile sample_args sample_db = Inr (res, db')
     \<and> db_inv db' \<and> map s_step_id (steps db') = [''a'', ''b'', ''x'']"
proof -
  have ids: "sort (map s_step_id (steps sample_db) @ plan_ids (ex_plan sample_args)) = [''a'', ''b'', ''x'']" by code_simp
  have h: "refs_ok sample_db" "run sample_db = Some sample_run"
    "r_status sample_run = RunStatusRunning \<or> r_status sample_run = RunStatusParked"
    "ex_now sample_args \<noteq> 0" "ex_origin_step sample_args \<noteq> []"
    by (simp_all add: refs_ok_def sample_db_def sample_run_def sample_args_def)
  have origin: "getRunStep (ex_origin_step sample_args) sample_db = Some (sample_step ''a'' StepStatusReady 0)" by code_simp
  have ok: "OK (ValidateExpansion no_step_issues no_ref_issues all_compile
      (expand_input sample_args sample_run (sample_step ''a'' StepStatusReady 0) sample_db))" by code_simp
  show ?thesis using ExpandRun_applies [OF sample_db_inv h(1,2,3) origin h(4,5) ok] unfolding ids
    by (elim exE conjE) (intro exI conjI)
qed

definition after_expansion :: "expand_error + expand_result \<times> rundb \<Rightarrow> rundb \<Rightarrow> rundb" where
  "after_expansion res db = (case res of Inl _ \<Rightarrow> db | Inr (_, db') \<Rightarrow> db')"

theorem growing_histories_keep_invariant_witness:
  "\<exists>rn db. CreateRun_tx diamond plain_args = Inr (rn, db)
     \<and> db_inv (after_expansion (ExpandRun no_step_issues no_ref_issues all_compile sample_args db) db)"
proof -
  let ?created = "CreateRun_tx diamond plain_args"
  obtain rn db where created: "?created = Inr (rn, db)" using diamond_created by (metis sumE surj_pair)
  have "ExpandRun no_step_issues no_ref_issues all_compile sample_args
      (db_after (map_sum (\<lambda>_. ErrZeroNow) id ?created) empty_db) \<noteq> Inl e" for e by code_simp
  then have "ExpandRun no_step_issues no_ref_issues all_compile sample_args db \<noteq> Inl e" for e
    by (simp add: created db_after_def)
  then obtain res db' where ex: "ExpandRun no_step_issues no_ref_issues all_compile sample_args db = Inr (res, db')"
    by (metis sumE surj_pair)
  have "db_inv db' \<and> refs_ok db'"
    by (rule growing_histories_keep_invariant [OF created]) (rule r_into_rtranclp, rule run_step.expand [OF ex])
  then show ?thesis using created ex by (auto simp: after_expansion_def)
qed

end
