(* ===== verification/Dag_Generate.thy ===== *)
theory Dag_Generate
  imports Dag_Expansion
begin

text \<open>
  Instance ids, how the engine reads them back (\<^verbatim>\<open>internal/engine/loop.go\<close>,
  \<^verbatim>\<open>internal/engine/blackboard.go\<close>), and the map fan-out generator, \<^verbatim>\<open>internal/dag/mapexpand.go\<close>.

  The rewriting of one step's configuration for an instance (\<open>rewrite\<close>) and the decoding of the
  gather step's configuration (\<open>gatherConfig\<close>) are arguments; the results hold for all of them.
\<close>

section \<open>Instance ids\<close>

definition digit_char :: "nat \<Rightarrow> char" where
  "digit_char d = char_of (48 + d)"

fun itoa :: "nat \<Rightarrow> string" where
  "itoa n = (if n < 10 then [digit_char n] else itoa (n div 10) @ [digit_char (n mod 10)])"

declare itoa.simps [simp del]

definition instanceID :: "string \<Rightarrow> nat \<Rightarrow> string" where
  "instanceID base k = base @ ''#'' @ itoa k"

definition MapGatherID :: "string \<Rightarrow> string" where
  "MapGatherID mapStepID = mapStepID @ ''#gather''"

definition authoredStepID :: "string \<Rightarrow> string" where
  "authoredStepID sid = takeWhile (\<lambda>c. c \<noteq> CHR ''#'') sid"

text \<open>\<^verbatim>\<open>strconv.Atoi\<close>: an optional sign and decimal digits, within 64 bits.\<close>

definition digit_value :: "char \<Rightarrow> nat" where
  "digit_value c = of_char c - 48"

definition digits_value :: "string \<Rightarrow> nat" where
  "digits_value s = foldl (\<lambda>n c. 10 * n + digit_value c) 0 s"

definition atoi :: "string \<Rightarrow> int option" where
  "atoi s =
     (let (neg, ds) = (case s of c # cs \<Rightarrow> if c = CHR ''-'' then (True, cs) else if c = CHR ''+'' then (False, cs) else (False, s)
                                | [] \<Rightarrow> (False, []));
          v = (if neg then - int (digits_value ds) else int (digits_value ds))
      in if ds = [] \<or> \<not> list_all digit ds \<or> v < - (2 ^ 63) \<or> v \<ge> 2 ^ 63 then None else Some v)"

definition threadIteration :: "string \<Rightarrow> int" where
  "threadIteration sid =
     (if CHR ''#'' \<notin> set sid then 0
      else case atoi (rev (takeWhile (\<lambda>c. c \<noteq> CHR ''#'') (rev sid))) of
             None \<Rightarrow> 0 | Some n \<Rightarrow> if n < 0 then 0 else n)"

section \<open>Map fan-out\<close>

record template =
  tp_steps :: "dag_step list"
  tp_edges :: "dag_edge list"

datatype generate_error =
  MapBodyEmpty | SinkCount nat | RewriteError string string | GraphError graph_error
| AgentError string string | LeavesBody string string

definition indeg :: "template \<Rightarrow> string \<Rightarrow> nat" where
  "indeg t sid = length (filter (\<lambda>e. \<not> IsLoop e \<and> ed_to e = sid) (tp_edges t))"

definition outdeg :: "template \<Rightarrow> string \<Rightarrow> nat" where
  "outdeg t sid = length (filter (\<lambda>e. \<not> IsLoop e \<and> ed_from e = sid) (tp_edges t))"

definition entry_ids :: "template \<Rightarrow> string list" where
  "entry_ids t = filter (\<lambda>sid. indeg t sid = 0) (map st_id (tp_steps t))"

definition sink_ids :: "template \<Rightarrow> string list" where
  "sink_ids t = filter (\<lambda>sid. outdeg t sid = 0) (map st_id (tp_steps t))"

definition templateFrontier :: "template \<Rightarrow> generate_error + string list \<times> string" where
  "templateFrontier t = (case sink_ids t of [sink] \<Rightarrow> Inr (entry_ids t, sink) | sinks \<Rightarrow> Inl (SinkCount (length sinks)))"

definition rewriteInstanceStep :: "(nat \<Rightarrow> dag_step \<Rightarrow> string + step_config) \<Rightarrow> dag_step \<Rightarrow> nat \<Rightarrow> generate_error + dag_step" where
  "rewriteInstanceStep rewrite s k = (case rewrite k s of
     Inl e \<Rightarrow> Inl (RewriteError (st_id s) e)
   | Inr c \<Rightarrow> Inr (s\<lparr>st_id := instanceID (st_id s) k, st_config := c\<rparr>))"

fun try_map :: "('a \<Rightarrow> 'e + 'b) \<Rightarrow> 'a list \<Rightarrow> 'e + 'b list" where
  "try_map f [] = Inr []"
| "try_map f (x # xs) = andThen (f x) (\<lambda>y. andThen (try_map f xs) (\<lambda>ys. Inr (y # ys)))"

text \<open>An edge literal leaves the fields it does not name empty; an empty type is a normal edge.\<close>

definition bare_edge :: "string \<Rightarrow> string \<Rightarrow> dag_edge" where
  "bare_edge u v = plain_edge u v EdgeTypeNormal"

definition instance_edge :: "nat \<Rightarrow> dag_edge \<Rightarrow> dag_edge" where
  "instance_edge k e = (bare_edge (instanceID (ed_from e) k) (instanceID (ed_to e) k))
     \<lparr>ed_when := ed_when e, ed_type := ed_type e, ed_condition := ed_condition e,
      ed_max_iterations := ed_max_iterations e, ed_decision := ed_decision e\<rparr>"

definition instance_edges :: "template \<Rightarrow> string list \<Rightarrow> string \<Rightarrow> string \<Rightarrow> nat \<Rightarrow> dag_edge list" where
  "instance_edges t entries sink m k =
     map (instance_edge k) (tp_edges t) @ map (\<lambda>en. bare_edge m (instanceID en k)) entries
   @ [bare_edge (instanceID sink k) (MapGatherID m)]"

definition sink_ref :: "string \<Rightarrow> nat \<Rightarrow> string" where
  "sink_ref sink k = ''${{ steps.'' @ instanceID sink k @ ''.output }}''"

definition GenerateMapExpansion :: "(nat \<Rightarrow> dag_step \<Rightarrow> string + step_config) \<Rightarrow> (string list \<Rightarrow> string + step_config)
    \<Rightarrow> template \<Rightarrow> 'item list \<Rightarrow> string \<Rightarrow> generate_error + plan_output" where
  "GenerateMapExpansion rewrite gatherConfig t items m =
     (if tp_steps t = [] then Inl MapBodyEmpty
      else andThen (templateFrontier t) (\<lambda>(entries, sink).
        let ks = [0..<length items] in
        andThen (try_map (\<lambda>k. try_map (\<lambda>s. rewriteInstanceStep rewrite s k) (tp_steps t)) ks) (\<lambda>insts.
        case gatherConfig (map (sink_ref sink) ks) of
          Inl e \<Rightarrow> Inl (RewriteError (MapGatherID m) e)
        | Inr gc \<Rightarrow>
            Inr \<lparr>pl_schema_version = PlanSchemaVersion,
                 pl_steps = concat insts @ [\<lparr>st_id = MapGatherID m, st_type = StepGather, st_config = gc, st_retry = None, st_timeout = []\<rparr>],
                 pl_edges = concat (map (instance_edges t entries sink m) ks)\<rparr>)))"

section \<open>Instance ids decode\<close>

lemma of_char_digit_char: "d < 10 \<Longrightarrow> (of_char (digit_char d) :: nat) = 48 + d"
  by (simp add: digit_char_def)

lemma digit_iff: "digit c \<longleftrightarrow> 48 \<le> (of_char c :: nat) \<and> (of_char c :: nat) \<le> 57"
  by (simp add: digit_def less_eq_char_def)

lemma lower_iff: "lower c \<longleftrightarrow> 97 \<le> (of_char c :: nat) \<and> (of_char c :: nat) \<le> 122"
  by (simp add: lower_def less_eq_char_def)

lemma digit_char_digit [simp]: "d < 10 \<Longrightarrow> digit (digit_char d)"
  by (simp add: digit_iff of_char_digit_char)

lemma digit_value_char [simp]: "d < 10 \<Longrightarrow> digit_value (digit_char d) = d"
  by (simp add: digit_value_def of_char_digit_char)

lemma no_sep_digit: "\<not> digit CHR ''#''" "\<not> digit CHR ''-''" "\<not> digit CHR ''+''" "\<not> digit CHR ''g''" "\<not> lower CHR ''#''"
  by (simp_all add: digit_iff lower_iff)

lemma itoa_digits [simp]: "list_all digit (itoa n)"
  by (induction n rule: itoa.induct) (subst itoa.simps, simp)

lemma itoa_nonempty [simp]: "itoa n \<noteq> []"
  by (subst itoa.simps) simp

lemma itoa_set: "c \<in> set (itoa n) \<Longrightarrow> digit c"
  using itoa_digits [of n] by (simp add: list_all_iff)

lemma digits_value_snoc: "digits_value (s @ [c]) = 10 * digits_value s + digit_value c"
  by (simp add: digits_value_def)

lemma digits_value_itoa [simp]: "digits_value (itoa n) = n"
proof (induction n rule: itoa.induct)
  case (1 n)
  then show ?case
    by (subst itoa.simps) (auto simp: digits_value_snoc, simp add: digits_value_def)
qed

lemma itoa_inject [simp]: "itoa m = itoa n \<longleftrightarrow> m = n"
  by (metis digits_value_itoa)

lemma atoi_itoa: "int n < 2 ^ 63 \<Longrightarrow> atoi (itoa n) = Some (int n)"
proof -
  obtain c cs where c: "itoa n = c # cs" by (cases "itoa n") simp_all
  then have "c \<noteq> CHR ''-''" "c \<noteq> CHR ''+''" using itoa_set [of c n] no_sep_digit by auto
  moreover assume "int n < 2 ^ 63"
  ultimately show ?thesis using itoa_digits [of n] digits_value_itoa [of n] by (simp add: atoi_def c)
qed

lemma stepIDRe_no_sep: "stepIDRe s \<Longrightarrow> CHR ''#'' \<notin> set s"
  by (cases s) (auto simp: stepIDRe_def list_all_iff no_sep_digit)

lemma takeWhile_sep: "CHR ''#'' \<notin> set b \<Longrightarrow> takeWhile (\<lambda>c. c \<noteq> CHR ''#'') (b @ CHR ''#'' # r) = b"
  by (induction b) auto

lemma dropWhile_sep: "CHR ''#'' \<notin> set b \<Longrightarrow> dropWhile (\<lambda>c. c \<noteq> CHR ''#'') (b @ CHR ''#'' # r) = CHR ''#'' # r"
  by (induction b) auto

lemma authoredStepID_plain: "CHR ''#'' \<notin> set b \<Longrightarrow> authoredStepID b = b"
  by (auto simp: authoredStepID_def takeWhile_eq_all_conv)

lemma authoredStepID_instance [simp]: "authoredStepID (instanceID b k) = authoredStepID b"
proof (cases "CHR ''#'' \<in> set b")
  case True
  then obtain u v where "b = u @ CHR ''#'' # v" "CHR ''#'' \<notin> set u" by (meson split_list_first)
  then show ?thesis by (simp add: authoredStepID_def instanceID_def takeWhile_sep)
next
  case False
  then show ?thesis by (simp add: authoredStepID_plain) (simp add: authoredStepID_def instanceID_def takeWhile_sep)
qed

lemma threadIteration_instance:
  assumes "int k < 2 ^ 63"
  shows "threadIteration (instanceID b k) = int k"
proof -
  have "CHR ''#'' \<notin> set (rev (itoa k))" using itoa_set no_sep_digit by auto
  then have "takeWhile (\<lambda>c. c \<noteq> CHR ''#'') (rev (instanceID b k)) = rev (itoa k)"
    by (simp add: instanceID_def takeWhile_sep)
  moreover have "CHR ''#'' \<in> set (instanceID b k)" by (simp add: instanceID_def)
  ultimately show ?thesis using assms by (simp add: threadIteration_def atoi_itoa)
qed

lemma instanceID_inject:
  assumes "CHR ''#'' \<notin> set a" and "CHR ''#'' \<notin> set b"
  shows "instanceID a j = instanceID b k \<longleftrightarrow> a = b \<and> j = k"
proof
  assume eq: "instanceID a j = instanceID b k"
  then have "authoredStepID (instanceID a j) = authoredStepID (instanceID b k)" by simp
  with assms have "a = b" by (simp add: authoredStepID_plain)
  with eq show "a = b \<and> j = k" by (simp add: instanceID_def)
qed simp

lemma gather_not_instance:
  assumes "CHR ''#'' \<notin> set b"
  shows "MapGatherID m \<noteq> instanceID b k"
proof
  assume "MapGatherID m = instanceID b k"
  moreover have "\<exists>r. dropWhile (\<lambda>c. c \<noteq> CHR ''#'') (MapGatherID m) = CHR ''#'' # r \<and> CHR ''g'' \<in> set r"
  proof (cases "CHR ''#'' \<in> set m")
    case True
    then obtain u v where "m = u @ CHR ''#'' # v" "CHR ''#'' \<notin> set u" by (meson split_list_first)
    then show ?thesis by (simp add: MapGatherID_def dropWhile_sep)
  qed (simp add: MapGatherID_def dropWhile_sep)
  ultimately have "CHR ''g'' \<in> set (itoa k)" using assms by (simp add: instanceID_def dropWhile_sep)
  then show False using itoa_set no_sep_digit by blast
qed

lemma id_segments_single: "seg \<noteq> [] \<Longrightarrow> list_all (\<lambda>d. lower d \<or> digit d \<or> d = CHR ''_'') seg \<Longrightarrow> id_segments (CHR ''#'' # seg)"
proof -
  assume s: "seg \<noteq> []" "list_all (\<lambda>d. lower d \<or> digit d \<or> d = CHR ''_'') seg"
  then have sep: "\<forall>d \<in> set seg. d \<noteq> CHR ''#''" using no_sep_digit by (auto simp: list_all_iff)
  then have tw: "takeWhile (\<lambda>d. d \<noteq> CHR ''#'') seg = seg" "dropWhile (\<lambda>d. d \<noteq> CHR ''#'') seg = []"
    by (auto simp: takeWhile_eq_all_conv dropWhile_eq_Nil_conv)
  show ?thesis by (subst id_segments.simps) (simp add: s sep tw Let_def)
qed

declare id_segments.simps [simp del]

lemma id_segments_extend:
  assumes "seg \<noteq> []" and "list_all (\<lambda>d. lower d \<or> digit d \<or> d = CHR ''_'') seg"
  shows "id_segments r \<Longrightarrow> id_segments (r @ CHR ''#'' # seg)"
proof (induction r rule: id_segments.induct)
  case (1 s)
  from 1(2) obtain cs where s: "s = CHR ''#'' # cs"
    by (subst (asm) id_segments.simps) (auto simp: Let_def split: list.splits)
  let ?P = "\<lambda>d. d \<noteq> CHR ''#''"
  from 1(2) s have hd: "takeWhile ?P cs \<noteq> []" "list_all (\<lambda>d. lower d \<or> digit d \<or> d = CHR ''_'') (takeWhile ?P cs)"
    and rest: "dropWhile ?P cs = [] \<or> id_segments (dropWhile ?P cs)"
    by (subst (asm) id_segments.simps, simp add: Let_def)+
  show ?case
  proof (cases "CHR ''#'' \<in> set cs")
    case True
    then have "id_segments (dropWhile ?P cs)" using rest by (auto simp: dropWhile_eq_Nil_conv)
    then have "id_segments (dropWhile ?P cs @ CHR ''#'' # seg)" using 1(1) s hd by simp
    moreover have "takeWhile ?P (cs @ CHR ''#'' # seg) = takeWhile ?P cs"
      "dropWhile ?P (cs @ CHR ''#'' # seg) = dropWhile ?P cs @ CHR ''#'' # seg"
      using True by (simp_all add: takeWhile_append1 dropWhile_append1)
    ultimately show ?thesis unfolding s by (subst id_segments.simps) (simp add: hd Let_def)
  next
    case False
    then have "takeWhile ?P cs = cs" by (auto simp: takeWhile_eq_all_conv)
    with False show ?thesis unfolding s using hd id_segments_single [OF assms]
      by (subst id_segments.simps) (auto simp: takeWhile_sep dropWhile_sep Let_def takeWhile_eq_all_conv [THEN iffD2])
  qed
qed

lemma instance_id_ok:
  assumes "stepIDRe b \<or> instanceStepIDRe b" and "seg \<noteq> []" "list_all (\<lambda>d. lower d \<or> digit d \<or> d = CHR ''_'') seg"
  shows "instanceStepIDRe (b @ CHR ''#'' # seg)"
proof (cases "CHR ''#'' \<in> set b")
  case True
  then have b: "instanceStepIDRe b" using assms(1) stepIDRe_no_sep by blast
  then have "id_segments (dropWhile (\<lambda>d. d \<noteq> CHR ''#'') b)" by (simp add: instanceStepIDRe_def)
  then have "id_segments (dropWhile (\<lambda>d. d \<noteq> CHR ''#'') b @ CHR ''#'' # seg)" by (rule id_segments_extend [OF assms(2,3)])
  with b True show ?thesis by (simp add: instanceStepIDRe_def takeWhile_append1 dropWhile_append1)
next
  case False
  then have "takeWhile (\<lambda>d. d \<noteq> CHR ''#'') b = b" by (auto simp: takeWhile_eq_all_conv)
  then have "stepIDRe b" using assms(1) by (metis instanceStepIDRe_def)
  with False show ?thesis using id_segments_single [OF assms(2,3)]
    by (simp add: instanceStepIDRe_def takeWhile_sep dropWhile_sep)
qed

lemma instanceID_ok: "stepIDRe b \<or> instanceStepIDRe b \<Longrightarrow> instanceStepIDRe (instanceID b k)"
  using instance_id_ok [of b "itoa k"] itoa_digits [of k] by (simp add: instanceID_def list_all_iff)

lemma MapGatherID_ok: "stepIDRe m \<or> instanceStepIDRe m \<Longrightarrow> instanceStepIDRe (MapGatherID m)"
  using instance_id_ok [of m "''gather''"] by (simp add: MapGatherID_def lower_iff)

section \<open>Splicing acyclic graphs\<close>

lemma trancl_Un_split:
  assumes "(y, x) \<in> (E \<union> P)\<^sup>+"
  shows "(y, x) \<in> E\<^sup>+ \<or> (\<exists>u v. (y, u) \<in> E\<^sup>* \<and> u \<in> Domain P \<and> v \<in> Range P \<and> (v, x) \<in> E\<^sup>*)"
  using assms
  by (induction rule: trancl_induct)
    (auto intro: rtrancl_into_rtrancl trancl_into_rtrancl trancl_into_trancl)

lemma rtrancl_closed:
  assumes "\<And>a b. (a, b) \<in> E \<Longrightarrow> a \<in> X \<and> b \<in> X" and "(a, b) \<in> E\<^sup>*"
  shows "a \<in> X \<longleftrightarrow> b \<in> X"
  using assms(2) by (induction rule: rtrancl_induct) (auto dest: assms(1))

lemma path_leaves:
  assumes "(x, y) \<in> R\<^sup>+" and "x \<in> D" and "R \<subseteq> (X \<union> D) \<times> (X \<union> D)"
  shows "(x, y) \<in> (R \<inter> D \<times> D)\<^sup>+ \<or> (\<exists>z \<in> X. (x, z) \<in> R\<^sup>+ \<and> (z, y) \<in> R\<^sup>*)"
  using assms(1)
proof (induction rule: trancl_induct)
  case (base y)
  then show ?case using assms(2,3) by (cases "y \<in> X") auto
next
  case (step y z)
  show ?case
  proof (cases "\<exists>w \<in> X. (x, w) \<in> R\<^sup>+ \<and> (w, y) \<in> R\<^sup>*")
    case True
    then show ?thesis using step.hyps(2) by (meson rtrancl_into_rtrancl)
  next
    case False
    then have path: "(x, y) \<in> (R \<inter> D \<times> D)\<^sup>+" using step.IH by blast
    then have "y \<in> D" by (induction rule: trancl_induct) auto
    moreover have "z \<in> X \<or> z \<in> D" using step.hyps(2) assms(3) by blast
    moreover have "(x, z) \<in> R\<^sup>+" using step.hyps by (rule trancl_into_trancl)
    ultimately show ?thesis using path step.hyps(2) by (blast intro: trancl_into_trancl)
  qed
qed

lemma acyclic_splice:
  assumes E: "acyclic E" "\<And>a b. (a, b) \<in> E \<Longrightarrow> a \<in> X \<and> b \<in> X"
    and P: "acyclic (P \<inter> D \<times> D)" "P \<subseteq> (X \<union> D) \<times> (X \<union> D)" and disj: "X \<inter> D = {}"
    and detour: "\<And>u v. u \<in> X \<Longrightarrow> v \<in> X \<Longrightarrow> u \<in> Domain P \<Longrightarrow> v \<in> Range P \<Longrightarrow> (v, u) \<notin> E\<^sup>*"
  shows "acyclic (E \<union> P)"
proof (rule acyclicI, rule allI)
  fix x
  let ?R = "E \<union> P"
  have old: "(z, z) \<notin> ?R\<^sup>+" if z: "z \<in> X" for z
  proof
    assume "(z, z) \<in> ?R\<^sup>+"
    from trancl_Un_split [OF this] E(1) obtain u v
      where uv: "(z, u) \<in> E\<^sup>*" "u \<in> Domain P" "v \<in> Range P" "(v, z) \<in> E\<^sup>*"
      by (auto simp: acyclic_def)
    have "u \<in> X" using rtrancl_closed [OF E(2) uv(1)] z by simp
    moreover have "v \<in> X" using rtrancl_closed [OF E(2) uv(4)] z by simp
    moreover have "(v, u) \<in> E\<^sup>*" using uv(4,1) by (rule rtrancl_trans)
    ultimately show False using detour uv(2,3) by blast
  qed
  have R: "?R \<subseteq> (X \<union> D) \<times> (X \<union> D)" and inner: "?R \<inter> D \<times> D = P \<inter> D \<times> D" using P(2) disj by (auto dest: E(2))
  show "(x, x) \<notin> ?R\<^sup>+"
  proof
    assume loop: "(x, x) \<in> ?R\<^sup>+"
    then have "x \<in> X \<or> x \<in> D" using R by (meson DomainE Un_iff mem_Sigma_iff subsetD tranclD)
    moreover have False if new: "x \<in> D"
    proof -
      have "(x, x) \<notin> (?R \<inter> D \<times> D)\<^sup>+" using P(1) unfolding inner by (simp add: acyclic_def)
      then obtain z where "z \<in> X" "(x, z) \<in> ?R\<^sup>+" "(z, x) \<in> ?R\<^sup>*" using path_leaves [OF loop new R] by blast
      then show False using old [of z] by (meson rtrancl_trancl_trancl)
    qed
    ultimately show False using old [of x] loop by blast
  qed
qed

lemma trancl_hom:
  assumes "\<And>x y. (x, y) \<in> R \<Longrightarrow> (f x, f y) \<in> S" and "(x, y) \<in> R\<^sup>+"
  shows "(f x, f y) \<in> S\<^sup>+"
  using assms(2) by (induction rule: trancl_induct) (auto dest: assms(1) intro: trancl_into_trancl)

lemma rtrancl_hom: "(\<And>x y. (x, y) \<in> R \<Longrightarrow> (f x, f y) \<in> S) \<Longrightarrow> (x, y) \<in> R\<^sup>* \<Longrightarrow> (f x, f y) \<in> S\<^sup>*"
  using trancl_hom [of R f S] by (auto simp: rtrancl_eq_or_trancl)

lemma acyclic_hom: "acyclic S \<Longrightarrow> (\<And>x y. (x, y) \<in> R \<Longrightarrow> (f x, f y) \<in> S) \<Longrightarrow> acyclic R"
  using trancl_hom [of R f S] unfolding acyclic_def by blast

lemma acyclic_Some:
  assumes "acyclic R" shows "acyclic ({(Some a, Some b) | a b. (a, b) \<in> R} \<union> {(Some a, None) | a. True})"
    (is "acyclic ?S")
proof -
  have "(\<exists>a. x = Some a \<and> (y = None \<or> (\<exists>b. y = Some b \<and> (a, b) \<in> R\<^sup>+)))" if "(x, y) \<in> ?S\<^sup>+" for x y
    using that by (induction rule: trancl_induct) (auto intro: trancl_into_trancl)
  then show ?thesis using assms unfolding acyclic_def by blast
qed

section \<open>The map plan\<close>

lemma try_map_eq:
  "try_map f xs = Inr ys \<Longrightarrow> (\<And>x y. x \<in> set xs \<Longrightarrow> f x = Inr y \<Longrightarrow> g y = h x) \<Longrightarrow> map g ys = map h xs"
  by (induction xs arbitrary: ys) (auto simp: andThen_eq_Inr)

definition instance_ids :: "template \<Rightarrow> nat \<Rightarrow> string list" where
  "instance_ids t k = map (\<lambda>s. instanceID (st_id s) k) (tp_steps t)"

lemma GenerateMapExpansion_plan:
  assumes "GenerateMapExpansion rewrite gatherConfig t items m = Inr plan"
  obtains sink where "sink_ids t = [sink]" "tp_steps t \<noteq> []" "pl_schema_version plan = PlanSchemaVersion"
    "map st_id (pl_steps plan) = concat (map (instance_ids t) [0..<length items]) @ [MapGatherID m]"
    "pl_edges plan = concat (map (instance_edges t (entry_ids t) sink m) [0..<length items])"
proof -
  from assms obtain sink where sink: "sink_ids t = [sink]" and ne: "tp_steps t \<noteq> []"
    by (auto simp: GenerateMapExpansion_def templateFrontier_def andThen_eq_Inr split: if_splits list.splits)
  with assms obtain insts gc where
    i: "try_map (\<lambda>k. try_map (\<lambda>s. rewriteInstanceStep rewrite s k) (tp_steps t)) [0..<length items] = Inr insts"
    and plan: "plan = \<lparr>pl_schema_version = PlanSchemaVersion,
       pl_steps = concat insts @ [\<lparr>st_id = MapGatherID m, st_type = StepGather, st_config = gc, st_retry = None, st_timeout = []\<rparr>],
       pl_edges = concat (map (instance_edges t (entry_ids t) sink m) [0..<length items])\<rparr>"
    by (cases "gatherConfig (map (sink_ref sink) [0..<length items])")
      (auto simp: GenerateMapExpansion_def templateFrontier_def Let_def andThen_eq_Inr)
  have "map st_id ys = instance_ids t k" if "try_map (\<lambda>s. rewriteInstanceStep rewrite s k) (tp_steps t) = Inr ys" for k ys
    unfolding instance_ids_def
    by (rule try_map_eq [OF that]) (auto simp: rewriteInstanceStep_def split: sum.splits)
  then have "map (map st_id) insts = map (instance_ids t) [0..<length items]"
    by (rule try_map_eq [OF i])
  then have "map st_id (pl_steps plan) = concat (map (instance_ids t) [0..<length items]) @ [MapGatherID m]"
    by (simp add: plan map_concat)
  with that sink ne plan show thesis by simp
qed

text \<open>What definition validation guarantees of a map body besides its single sink.\<close>

definition template_valid :: "(string \<Rightarrow> expr_status) \<Rightarrow> template \<Rightarrow> bool" where
  "template_valid compile t \<longleftrightarrow> distinct (map st_id (tp_steps t)) \<and> (\<forall>s \<in> set (tp_steps t). stepIDRe (st_id s))
     \<and> (\<forall>e \<in> set (tp_edges t). {ed_from e, ed_to e} \<subseteq> st_id ` set (tp_steps t)
          \<and> checkExpansionEdgeFields compile 0 e = []
          \<and> (IsLoop e \<longrightarrow> (ed_to e, ed_from e) \<in> (edge_rel (tp_edges t))\<^sup>+))
     \<and> acyclic (edge_rel (tp_edges t))"

definition map_rel :: "template \<Rightarrow> string \<Rightarrow> string \<Rightarrow> nat \<Rightarrow> (string \<times> string) set" where
  "map_rel t sink m n =
     {(instanceID a k, instanceID b k) | a b k. (a, b) \<in> edge_rel (tp_edges t) \<and> k < n}
   \<union> {(m, instanceID en k) | en k. en \<in> set (entry_ids t) \<and> k < n}
   \<union> {(instanceID sink k, MapGatherID m) | k. k < n}"

lemma bare_edge_simps [simp]:
  "ed_from (bare_edge u v) = u" "ed_to (bare_edge u v) = v" "\<not> IsLoop (bare_edge u v)"
  by (simp_all add: bare_edge_def plain_edge_def IsLoop_def)

lemma instance_edge_simps [simp]:
  "ed_from (instance_edge k e) = instanceID (ed_from e) k" "ed_to (instance_edge k e) = instanceID (ed_to e) k"
  "IsLoop (instance_edge k e) = IsLoop e"
  by (simp_all add: instance_edge_def bare_edge_def plain_edge_def IsLoop_def)

lemma fields_index: "checkExpansionEdgeFields compile i e = [] \<Longrightarrow> checkExpansionEdgeFields compile j e = []"
  by (auto simp: checkExpansionEdgeFields_def checkExpr_def split: if_splits expr_status.splits option.splits)

lemma bare_edge_fields [simp]: "checkExpansionEdgeFields compile i (bare_edge u v) = []"
  by (simp add: checkExpansionEdgeFields_def bare_edge_def plain_edge_def IsLoop_def)

lemma instance_edge_fields:
  "checkExpansionEdgeFields compile 0 e = [] \<Longrightarrow> checkExpansionEdgeFields compile i (instance_edge k e) = []"
  by (rule fields_index [of _ 0])
    (auto simp: checkExpansionEdgeFields_def checkExpr_def instance_edge_def bare_edge_def plain_edge_def IsLoop_def exhaust_ok_def
      split: if_splits expr_status.splits option.splits)

lemma map_edge_cases:
  assumes "e \<in> set (concat (map (instance_edges t (entry_ids t) sink m) [0..<n]))"
  obtains (copy) k e' where "k < n" "e' \<in> set (tp_edges t)" "e = instance_edge k e'"
  | (splice) k en where "k < n" "en \<in> set (entry_ids t)" "e = bare_edge m (instanceID en k)"
  | (collect) k where "k < n" "e = bare_edge (instanceID sink k) (MapGatherID m)"
  using assms by (auto simp: instance_edges_def)

lemma edge_rel_instances: "edge_rel (map (instance_edge k) es) = {(instanceID a k, instanceID b k) | a b. (a, b) \<in> edge_rel es}"
  by (induction es) auto

lemma edge_rel_bare: "edge_rel (map (\<lambda>en. bare_edge m (f en)) ens) = {(m, f en) | en. en \<in> set ens}"
  by (induction ens) auto

lemma map_edge_rel: "edge_rel (concat (map (instance_edges t (entry_ids t) sink m) [0..<n])) = map_rel t sink m n"
proof -
  have "edge_rel (instance_edges t (entry_ids t) sink m k) =
    {(instanceID a k, instanceID b k) | a b. (a, b) \<in> edge_rel (tp_edges t)}
    \<union> {(m, instanceID en k) | en. en \<in> set (entry_ids t)} \<union> {(instanceID sink k, MapGatherID m)}" for k
    by (simp add: instance_edges_def edge_rel_append edge_rel_instances edge_rel_bare Un_assoc)
  moreover have "edge_rel (concat ess) = \<Union> (edge_rel ` set ess)" for ess by (auto simp: edge_rel_def)
  ultimately show ?thesis unfolding map_rel_def by auto
qed

lemma entry_ids_steps: "set (entry_ids t) \<subseteq> st_id ` set (tp_steps t)"
  by (auto simp: entry_ids_def)

lemma edge_rel_ends:
  "x \<in> Domain (edge_rel es) \<longleftrightarrow> (\<exists>e \<in> set es. \<not> IsLoop e \<and> ed_from e = x)"
  "x \<in> Range (edge_rel es) \<longleftrightarrow> (\<exists>e \<in> set es. \<not> IsLoop e \<and> ed_to e = x)"
  unfolding edge_rel_def by blast+

lemma entry_ids_iff: "sid \<in> set (entry_ids t) \<longleftrightarrow> sid \<in> st_id ` set (tp_steps t) \<and> sid \<notin> Range (edge_rel (tp_edges t))"
  by (auto simp: entry_ids_def indeg_def edge_rel_ends filter_empty_conv)

lemma sink_ids_iff: "sid \<in> set (sink_ids t) \<longleftrightarrow> sid \<in> st_id ` set (tp_steps t) \<and> sid \<notin> Domain (edge_rel (tp_edges t))"
  by (auto simp: sink_ids_def outdeg_def edge_rel_ends filter_empty_conv)

lemma sink_ids_steps: "sink_ids t = [sink] \<Longrightarrow> sink \<in> st_id ` set (tp_steps t)"
  using sink_ids_iff [of sink t] by simp

lemma template_valid_rel:
  "template_valid compile t \<Longrightarrow> (a, b) \<in> edge_rel (tp_edges t) \<Longrightarrow> a \<in> st_id ` set (tp_steps t) \<and> b \<in> st_id ` set (tp_steps t)"
  by (auto simp: template_valid_def edge_rel_def)

lemma template_valid_sep: "template_valid compile t \<Longrightarrow> a \<in> st_id ` set (tp_steps t) \<Longrightarrow> CHR ''#'' \<notin> set a"
  by (auto simp: template_valid_def dest: stepIDRe_no_sep)

definition map_ids :: "template \<Rightarrow> string \<Rightarrow> nat \<Rightarrow> string list" where
  "map_ids t m n = concat (map (instance_ids t) [0..<n]) @ [MapGatherID m]"

lemma map_ids_iff: "x \<in> set (map_ids t m n) \<longleftrightarrow> x = MapGatherID m \<or> (\<exists>a \<in> st_id ` set (tp_steps t). \<exists>k < n. x = instanceID a k)"
  by (auto simp: map_ids_def instance_ids_def image_iff) blast

lemma map_ids_distinct:
  assumes "template_valid compile t"
  shows "distinct (map_ids t m n)"
proof -
  have sep: "CHR ''#'' \<notin> set a" if "a \<in> st_id ` set (tp_steps t)" for a using template_valid_sep [OF assms that] .
  have "distinct (instance_ids t k)" for k
    using assms sep by (auto simp: instance_ids_def distinct_map inj_on_def template_valid_def instanceID_inject)
  then have "distinct (concat (map (instance_ids t) [0..<n]))"
    by (induction n) (use sep in \<open>auto simp: instance_ids_def instanceID_inject\<close>)
  moreover have "MapGatherID m \<notin> set (concat (map (instance_ids t) [0..<n]))"
    using gather_not_instance sep by (fastforce simp: instance_ids_def)
  ultimately show ?thesis by (simp add: map_ids_def)
qed

lemma map_rel_inner_acyclic:
  assumes "template_valid compile t" and "sink_ids t = [sink]" and "m \<notin> D"
  shows "acyclic (map_rel t sink m n \<inter> D \<times> D)"
proof (rule acyclic_hom [where f = "\<lambda>x. if x = MapGatherID m then None else Some (authoredStepID x)"])
  show "acyclic ({(Some a, Some b) | a b. (a, b) \<in> edge_rel (tp_edges t)} \<union> {(Some a, None) | a. True})"
    using assms(1) by (intro acyclic_Some) (simp add: template_valid_def)
  note sep = template_valid_sep [OF assms(1)]
  have ends: "CHR ''#'' \<notin> set a \<and> CHR ''#'' \<notin> set b" if "(a, b) \<in> edge_rel (tp_edges t)" for a b
    using template_valid_rel [OF assms(1) that] sep by blast
  have "CHR ''#'' \<notin> set sink" using sep sink_ids_steps [OF assms(2)] by blast
  then show "(if x = MapGatherID m then None else Some (authoredStepID x), if y = MapGatherID m then None else Some (authoredStepID y))
      \<in> {(Some a, Some b) | a b. (a, b) \<in> edge_rel (tp_edges t)} \<union> {(Some a, None) | a. True}"
    if "(x, y) \<in> map_rel t sink m n \<inter> D \<times> D" for x y
    using that assms(3) ends gather_not_instance
    by (auto simp: map_rel_def authoredStepID_plain) metis+
qed

lemma map_admissible:
  assumes valid: "template_valid compile t" and plan: "GenerateMapExpansion rewrite gatherConfig t items m = Inr (xi_plan inp)"
    and origin: "xo_kind (xi_origin inp) = OriginMap" "stepIDRe m \<or> instanceStepIDRe m"
    and anchor: "existing inp m = Some a" "an_status a \<noteq> AnchorTerminal"
    and fresh: "\<forall>sid \<in> set (map_ids t m (length items)). existing inp sid = None"
    and caps: "within_caps inp"
    and steps: "\<forall>k < length (pl_steps (xi_plan inp)). stepIssues k (pl_steps (xi_plan inp) ! k) = []"
  shows "admissible stepIssues compile inp"
proof -
  obtain sink where sink: "sink_ids t = [sink]" and v: "pl_schema_version (xi_plan inp) = PlanSchemaVersion"
    and ids: "delta_ids inp = map_ids t m (length items)"
    and edges: "pl_edges (xi_plan inp) = concat (map (instance_edges t (entry_ids t) sink m) [0..<length items])"
    by (rule GenerateMapExpansion_plan [OF plan]) (simp add: delta_ids_def map_ids_def)
  have inst: "instanceID b k \<in> set (delta_ids inp)" if "b \<in> st_id ` set (tp_steps t)" "k < length items" for b k
    using that unfolding ids map_ids_iff by blast
  have gather: "MapGatherID m \<in> set (delta_ids inp)" by (simp add: ids map_ids_iff)
  have "id_allowed inp sid" if "sid \<in> set (delta_ids inp)" for sid
    using that valid origin v MapGatherID_ok instanceID_ok
    by (auto simp: ids map_ids_iff id_allowed_def allow_instance_ids_def template_valid_def)
  then have "new_ids inp" using fresh map_ids_distinct [OF valid] by (simp add: new_ids_def ids)
  moreover have "splice_ok inp e \<and> checkExpansionEdgeFields compile i e = []" if "e \<in> set (pl_edges (xi_plan inp))" for e i
    using that unfolding edges
  proof (cases rule: map_edge_cases)
    case (copy k e')
    then have "ed_from e' \<in> st_id ` set (tp_steps t)" "ed_to e' \<in> st_id ` set (tp_steps t)"
      "checkExpansionEdgeFields compile 0 e' = []" using valid by (auto simp: template_valid_def)
    with copy show ?thesis using inst by (simp add: splice_ok_def touches_delta_def instance_edge_fields)
  next
    case (splice k en)
    then have "instanceID en k \<in> set (delta_ids inp)" using inst entry_ids_steps by blast
    with splice show ?thesis using anchor by (simp add: splice_ok_def touches_delta_def)
  next
    case (collect k)
    then show ?thesis using inst gather sink_ids_steps [OF sink] by (simp add: splice_ok_def touches_delta_def)
  qed
  moreover have "pl_steps (xi_plan inp) \<noteq> []" using gather by (auto simp: delta_ids_def)
  ultimately show ?thesis using v caps steps by (simp add: admissible_def Let_def)
qed

lemma map_rel_ends:
  assumes "template_valid compile t" and "sink_ids t = [sink]" and "(x, y) \<in> map_rel t sink m n"
  shows "(x = m \<or> x \<in> set (map_ids t m n)) \<and> y \<in> set (map_ids t m n)"
  using assms(3) template_valid_rel [OF assms(1)] sink_ids_steps [OF assms(2)] entry_ids_steps
  unfolding map_rel_def map_ids_iff by blast

lemma map_merged_acyclic:
  assumes valid: "template_valid compile t" "sink_ids t = [sink]"
    and plan: "edge_rel (pl_edges (xi_plan inp)) = map_rel t sink m n"
    and run: "run_graph_known inp" "acyclic (edge_rel (xi_existing_edges inp))" "existing inp m \<noteq> None"
    and fresh: "\<forall>sid \<in> set (map_ids t m n). existing inp sid = None"
  shows "acyclic (merged_rel inp)"
proof -
  let ?X = "{x. existing inp x \<noteq> None}" and ?D = "set (map_ids t m n)"
  have ends: "x = m \<or> x \<in> ?D" "y \<in> ?D" if "(x, y) \<in> map_rel t sink m n" for x y
    using map_rel_ends [OF valid that] by blast+
  have "acyclic (edge_rel (xi_existing_edges inp) \<union> map_rel t sink m n)"
  proof (rule acyclic_splice [where X = ?X and D = ?D])
    show "a \<in> ?X \<and> b \<in> ?X" if "(a, b) \<in> edge_rel (xi_existing_edges inp)" for a b
      using that run(1) by (auto simp: run_graph_known_def edge_rel_def)
    show "acyclic (map_rel t sink m n \<inter> ?D \<times> ?D)"
      by (rule map_rel_inner_acyclic [OF valid]) (use fresh run(3) in auto)
    show "map_rel t sink m n \<subseteq> (?X \<union> ?D) \<times> (?X \<union> ?D)" using run(3) by (auto dest: ends)
    show "?X \<inter> ?D = {}" using fresh by auto
    show "(v, u) \<notin> (edge_rel (xi_existing_edges inp))\<^sup>*" if "v \<in> ?X" "v \<in> Range (map_rel t sink m n)" for u v
      using that fresh by (auto dest: ends(2))
  qed (use run in auto)
  then show ?thesis by (simp add: merged_rel_def edge_rel_append plan)
qed


lemma edge_rel_finite [simp]: "finite (edge_rel es)"
  by (induction es) auto

lemma template_entry:
  assumes "template_valid compile t" and "s \<in> set (tp_steps t)"
  shows "\<exists>en \<in> set (entry_ids t). (en, st_id s) \<in> (edge_rel (tp_edges t))\<^sup>*"
proof -
  let ?R = "edge_rel (tp_edges t)"
  have "wf ?R" using assms(1) by (auto simp: template_valid_def intro: finite_acyclic_wf)
  moreover have "st_id s \<in> {x \<in> st_id ` set (tp_steps t). (x, st_id s) \<in> ?R\<^sup>*}" using assms(2) by simp
  ultimately obtain z where z: "z \<in> st_id ` set (tp_steps t)" "(z, st_id s) \<in> ?R\<^sup>*"
    "\<And>y. (y, z) \<in> ?R \<Longrightarrow> y \<notin> {x \<in> st_id ` set (tp_steps t). (x, st_id s) \<in> ?R\<^sup>*}"
    by (rule wfE_min) blast
  have "z \<notin> Range ?R"
    using z(2,3) template_valid_rel [OF assms(1)] by (blast intro: converse_rtrancl_into_rtrancl)
  with z(1,2) show ?thesis by (auto simp: entry_ids_iff)
qed

lemma template_sink:
  assumes "template_valid compile t" and "s \<in> set (tp_steps t)"
  shows "\<exists>z \<in> set (sink_ids t). (st_id s, z) \<in> (edge_rel (tp_edges t))\<^sup>*"
proof -
  let ?R = "edge_rel (tp_edges t)"
  have "wf (?R\<inverse>)" using assms(1) by (auto simp: template_valid_def intro: finite_acyclic_wf_converse)
  moreover have "st_id s \<in> {x \<in> st_id ` set (tp_steps t). (st_id s, x) \<in> ?R\<^sup>*}" using assms(2) by simp
  ultimately obtain z where z: "z \<in> st_id ` set (tp_steps t)" "(st_id s, z) \<in> ?R\<^sup>*"
    "\<And>y. (y, z) \<in> ?R\<inverse> \<Longrightarrow> y \<notin> {x \<in> st_id ` set (tp_steps t). (st_id s, x) \<in> ?R\<^sup>*}"
    by (rule wfE_min) blast
  have "z \<notin> Domain ?R"
    using z(2,3) template_valid_rel [OF assms(1)] by (blast intro: rtrancl_into_rtrancl)
  with z(1,2) show ?thesis by (auto simp: sink_ids_iff)
qed

text \<open>
  Between a map step and its gather: with the plan spliced in, every injected instance is
  downstream of the map step, and the gather is downstream of every instance of every item, so
  the gather becomes ready only after the whole fan-out is settled.
\<close>

theorem map_gather_barrier:
  assumes "template_valid compile t" and "GenerateMapExpansion rewrite gatherConfig t items m = Inr plan"
    and "s \<in> set (tp_steps t)" and "k < length items"
  shows "instanceID (st_id s) k \<in> set (map st_id (pl_steps plan))
    \<and> (m, instanceID (st_id s) k) \<in> (edge_rel (pl_edges plan))\<^sup>+
    \<and> (instanceID (st_id s) k, MapGatherID m) \<in> (edge_rel (pl_edges plan))\<^sup>+"
proof -
  obtain sink where sink: "sink_ids t = [sink]"
    and ids: "map st_id (pl_steps plan) = concat (map (instance_ids t) [0..<length items]) @ [MapGatherID m]"
    and edges: "pl_edges plan = concat (map (instance_edges t (entry_ids t) sink m) [0..<length items])"
    by (rule GenerateMapExpansion_plan [OF assms(2)])
  let ?R = "edge_rel (tp_edges t)" and ?P = "edge_rel (pl_edges plan)"
  have rel: "?P = map_rel t sink m (length items)" by (simp add: edges map_edge_rel)
  have lift: "(instanceID a k, instanceID b k) \<in> ?P\<^sup>*" if "(a, b) \<in> ?R\<^sup>*" for a b
    using that by (rule rtrancl_hom [rotated]) (use assms(4) in \<open>auto simp: rel map_rel_def\<close>)
  obtain en where en: "en \<in> set (entry_ids t)" "(en, st_id s) \<in> ?R\<^sup>*" using template_entry [OF assms(1,3)] by blast
  have out: "(st_id s, sink) \<in> ?R\<^sup>*" using template_sink [OF assms(1,3)] sink by simp
  have "(m, instanceID en k) \<in> ?P" "(instanceID sink k, MapGatherID m) \<in> ?P"
    using assms(4) en(1) by (auto simp: rel map_rel_def)
  with lift [OF en(2)] lift [OF out] show ?thesis
    using assms(3,4) by (auto simp: ids instance_ids_def intro: rtrancl_into_trancl1 rtrancl_into_trancl2)
qed

text \<open>
  C31.  Instance ids carry the body step and the item, not the map step: once one map has fanned
  out, a second map whose body shares a local step id with the first one's is refused for every
  non-empty list of items, whatever the rest of the run looks like.
\<close>

theorem second_map_refused:
  assumes "GenerateMapExpansion rewrite gatherConfig t items m = Inr plan" and "items \<noteq> []"
    and "\<forall>s \<in> set (pl_steps plan). existing inp (st_id s) \<noteq> None"
    and "GenerateMapExpansion rewrite' gatherConfig' t' items' m' = Inr (xi_plan inp)" and "items' \<noteq> []"
    and "st_id ` set (tp_steps t) \<inter> st_id ` set (tp_steps t') \<noteq> {}"
  shows "\<not> OK (ValidateExpansion stepIssues refIssues compile inp)"
proof
  assume ok: "OK (ValidateExpansion stepIssues refIssues compile inp)"
  obtain sid where sid: "sid \<in> st_id ` set (tp_steps t)" "sid \<in> st_id ` set (tp_steps t')" using assms(6) by blast
  have first: "st_id ` set (pl_steps plan) = set (map_ids t m (length items))"
    by (rule GenerateMapExpansion_plan [OF assms(1)]) (metis map_ids_def list.set_map)
  have second: "delta_ids inp = map_ids t' m' (length items')"
    by (rule GenerateMapExpansion_plan [OF assms(4)]) (simp add: delta_ids_def map_ids_def)
  have "instanceID sid 0 \<in> set (map_ids t m (length items))" "instanceID sid 0 \<in> set (map_ids t' m' (length items'))"
    using sid assms(2,5) unfolding map_ids_iff by blast+
  then have "instanceID sid 0 \<in> st_id ` set (pl_steps plan)" "instanceID sid 0 \<in> set (delta_ids inp)"
    by (simp_all only: first second)
  moreover from this(1) have "existing inp (instanceID sid 0) \<noteq> None" using assms(3) by (metis imageE)
  ultimately show False using OK_fresh [OF ok, of "instanceID sid 0"] by simp
qed


section \<open>A sample map\<close>

text \<open>A body of two chained steps, fanned out over two items by the active map step \<open>m\<close>.\<close>

definition sample_body :: template where
  "sample_body = \<lparr>tp_steps = [plain_step ''u'', plain_step ''v''], tp_edges = [plain_edge ''u'' ''v'' EdgeTypeNormal]\<rparr>"

definition same_config :: "nat \<Rightarrow> dag_step \<Rightarrow> string + step_config" where
  "same_config k s = Inr (st_config s)"

definition no_config :: "string list \<Rightarrow> string + step_config" where
  "no_config refs = Inr NoConfig"

definition sample_plan :: "nat \<Rightarrow> string \<Rightarrow> plan_output" where
  "sample_plan n m = (case GenerateMapExpansion same_config no_config sample_body [0..<n] m of
     Inr plan \<Rightarrow> plan | Inl _ \<Rightarrow> \<lparr>pl_schema_version = 0, pl_steps = [], pl_edges = []\<rparr>)"

definition map_input :: "string list \<Rightarrow> plan_output \<Rightarrow> expansion_input" where
  "map_input others plan =
     \<lparr>xi_plan = plan, xi_origin = \<lparr>xo_kind = OriginMap, xo_step_id = ''m'', xo_depth = 0\<rparr>,
      xi_existing = (''m'', anchor StepMap AnchorActive) # map (\<lambda>sid. (sid, anchor StepNoop AnchorPending)) others,
      xi_existing_edges = [], xi_per_expansion_cap = 32, xi_caps = default_expansion_caps,
      xi_current_step_count = 1, xi_expansions_so_far = 0\<rparr>"

lemma sample_plan_ok: "GenerateMapExpansion same_config no_config sample_body [0..<2] m = Inr (sample_plan 2 m)"
proof -
  have "\<exists>p. GenerateMapExpansion same_config no_config sample_body [0..<2] m = Inr p"
    by (simp add: GenerateMapExpansion_def sample_body_def templateFrontier_def sink_ids_def outdeg_def plain_step_def
      plain_edge_def IsLoop_def no_config_def rewriteInstanceStep_def same_config_def numeral_2_eq_2)
  then show ?thesis by (auto simp: sample_plan_def)
qed

lemma sample_body_valid: "template_valid all_compile sample_body"
proof -
  have "acyclic {(''u'', ''v'')}"
    by (rule acyclic_subset [OF wf_acyclic [OF wf_measure [of "\<lambda>s. if s = ''u'' then 0 else 1"]]]) simp
  then show ?thesis
    by (simp add: template_valid_def sample_body_def plain_step_def plain_edge_def IsLoop_def stepIDRe_def lower_iff
      checkExpansionEdgeFields_def)
qed


theorem map_gather_barrier_witness: "(instanceID ''u'' 1, MapGatherID ''m'') \<in> (edge_rel (pl_edges (sample_plan 2 ''m'')))\<^sup>+"
  using map_gather_barrier [OF sample_body_valid sample_plan_ok, of "plain_step ''u''" 1 "''m''"]
  by (simp add: sample_body_def plain_step_def)

theorem second_map_refused_witness:
  "\<not> OK (ValidateExpansion no_step_issues no_ref_issues all_compile
       (map_input (map st_id (pl_steps (sample_plan 2 ''m''))) (sample_plan 2 ''n'')))"
proof (rule second_map_refused [OF sample_plan_ok, where items' = "[0..<2]" and m' = "''n''" and rewrite' = same_config
      and gatherConfig' = no_config and t' = sample_body and m = "''m''"])
  show "\<forall>s \<in> set (pl_steps (sample_plan 2 ''m'')).
      existing (map_input (map st_id (pl_steps (sample_plan 2 ''m''))) (sample_plan 2 ''n'')) (st_id s) \<noteq> None" by code_simp
  show "st_id ` set (tp_steps sample_body) \<inter> st_id ` set (tp_steps sample_body) \<noteq> {}" by (simp add: sample_body_def)
qed (simp_all add: sample_plan_ok map_input_def)

end
