(* ===== verification/Costs.thy ===== *)
theory Costs
  imports Pricing Store_Expand Dag_Generate "HOL-Library.Product_Lexorder"
begin

text \<open>
  The cost ledger: the guarded write of \<^verbatim>\<open>internal/store/costs.go\<close> with its queries, and the pricing of
  an attempt's charges in \<^verbatim>\<open>internal/engine/cost.go\<close>.

  \<open>costdb\<close> adds the rows of \<^verbatim>\<open>cost_ledger\<close> to the tables of a run.  The \<^verbatim>\<open>usage\<close> and \<^verbatim>\<open>rate\<close> columns
  hold the values whose JSON the code stores.
\<close>

section \<open>Rows\<close>

record usage =
  us_input_tokens :: int
  us_output_tokens :: int
  us_cache_hit :: bool

datatype rate_snapshot = ToolRate int | ModelRate price_rate

record cost_row =
  cl_step_id :: step_id
  cl_attempt :: int
  cl_entry :: string
  cl_resource :: string
  cl_usage :: "usage option"
  cl_rate :: rate_snapshot
  cl_rate_source :: price_source
  cl_cache_hit :: bool
  cl_overhead :: bool
  cl_cost :: int
  cl_saved :: int
  cl_created_at :: time

record costdb =
  cs_run :: rundb
  cs_ledger :: "cost_row list"

record cost_args =
  ca_step_id :: step_id
  ca_attempt :: int
  ca_entry :: string
  ca_resource :: string
  ca_usage :: "usage option"
  ca_rate :: "rate_snapshot option"
  ca_rate_source :: price_source
  ca_cache_hit :: bool
  ca_overhead :: bool
  ca_cost :: int
  ca_saved :: int
  ca_warning :: "string option"
  ca_now :: time

record cost_applied =
  cp_run_spent :: int
  cp_run_saved :: int
  cp_budget :: "int option"

definition EntryAttempt :: string where "EntryAttempt = ''attempt''"
definition JudgeErrorEntry :: string where "JudgeErrorEntry = ''judge:e''"

definition JudgeEntry :: "nat \<Rightarrow> string" where
  "JudgeEntry chainIndex = ''judge:'' @ itoa chainIndex"

definition CompactionEntry :: "nat \<Rightarrow> string" where
  "CompactionEntry i = ''compaction:'' @ itoa i"

section \<open>Queries\<close>

definition cost_key :: "cost_row \<Rightarrow> step_id \<times> int \<times> string" where
  "cost_key c = (cl_step_id c, cl_attempt c, cl_entry c)"

definition insertCostLedgerEntry :: "cost_row \<Rightarrow> costdb \<Rightarrow> costdb result" where
  "insertCostLedgerEntry c cs =
     (if cl_cost c < 0 then Inl (ErrConstraint ''cost_ledger_cost_nano_usd_check'')
      else if cl_saved c < 0 then Inl (ErrConstraint ''cost_ledger_saved_nano_usd_check'')
      else if cost_key c \<in> set (map cost_key (cs_ledger cs)) then Inl (ErrConstraint ''cost_ledger_pkey'')
      else Inr (cs\<lparr>cs_ledger := cs_ledger cs @ [c]\<rparr>))"

text \<open>The totals are \<^verbatim>\<open>bigint\<close> columns.\<close>

definition addRunCost :: "int \<Rightarrow> int \<Rightarrow> rundb \<Rightarrow> (run_row \<times> rundb) result" where
  "addRunCost dSpent dSaved db = (case run db of None \<Rightarrow> Inl (ErrNotFound ''run'') | Some r \<Rightarrow>
     let r' = r\<lparr>r_spent_nano_usd := r_spent_nano_usd r + dSpent, r_saved_nano_usd := r_saved_nano_usd r + dSaved\<rparr>
     in if r_spent_nano_usd r' \<ge> 2 ^ 63 \<or> r_saved_nano_usd r' \<ge> 2 ^ 63 then Inl (ErrConstraint ''bigint out of range'')
        else Inr (r', db\<lparr>run := Some r'\<rparr>))"

definition listCostLedgerByRun :: "costdb \<Rightarrow> cost_row list" where
  "listCostLedgerByRun cs = sort_key cost_key (cs_ledger cs)"

definition sumCostLedgerByRun :: "costdb \<Rightarrow> int \<times> int" where
  "sumCostLedgerByRun cs = (sum_list (map cl_cost (cs_ledger cs)), sum_list (map cl_saved (cs_ledger cs)))"

definition sumCostLedgerByStep :: "step_id \<Rightarrow> costdb \<Rightarrow> int" where
  "sumCostLedgerByStep sid cs = sum_list (map cl_cost (filter (\<lambda>c. cl_step_id c = sid) (cs_ledger cs)))"

record step_costs =
  ac_step_id :: step_id
  ac_entries :: int
  ac_spent :: int
  ac_saved :: int
  ac_overhead :: int

definition step_costs_of :: "cost_row list \<Rightarrow> step_id \<Rightarrow> step_costs" where
  "step_costs_of cs sid = (let rows = filter (\<lambda>c. cl_step_id c = sid) cs in
     \<lparr>ac_step_id = sid, ac_entries = int (length rows), ac_spent = sum_list (map cl_cost rows),
      ac_saved = sum_list (map cl_saved rows), ac_overhead = sum_list (map cl_cost (filter cl_overhead rows))\<rparr>)"

definition aggregateCostByStep :: "costdb \<Rightarrow> step_costs list" where
  "aggregateCostByStep cs = sort_key (\<lambda>a. (- ac_spent a, ac_step_id a))
     (map (step_costs_of (cs_ledger cs)) (remdups (map cl_step_id (cs_ledger cs))))"

record resource_costs =
  rc_resource :: string
  rc_entries :: int
  rc_spent :: int
  rc_saved :: int
  rc_input_tokens :: int
  rc_output_tokens :: int

definition resource_costs_of :: "cost_row list \<Rightarrow> string \<Rightarrow> resource_costs" where
  "resource_costs_of cs res = (let rows = filter (\<lambda>c. cl_resource c = res) cs; used = List.map_filter cl_usage rows in
     \<lparr>rc_resource = res, rc_entries = int (length rows), rc_spent = sum_list (map cl_cost rows),
      rc_saved = sum_list (map cl_saved rows), rc_input_tokens = sum_list (map us_input_tokens used),
      rc_output_tokens = sum_list (map us_output_tokens used)\<rparr>)"

definition aggregateCostByResource :: "costdb \<Rightarrow> resource_costs list" where
  "aggregateCostByResource cs = sort_key (\<lambda>a. (- rc_spent a, rc_resource a))
     (map (resource_costs_of (cs_ledger cs)) (remdups (map cl_resource (cs_ledger cs))))"

section \<open>The guarded write\<close>

definition ledger_row :: "cost_args \<Rightarrow> rate_snapshot \<Rightarrow> cost_row" where
  "ledger_row args rate =
     \<lparr>cl_step_id = ca_step_id args, cl_attempt = ca_attempt args,
      cl_entry = (if ca_entry args = [] then EntryAttempt else ca_entry args), cl_resource = ca_resource args,
      cl_usage = ca_usage args, cl_rate = rate, cl_rate_source = ca_rate_source args, cl_cache_hit = ca_cache_hit args,
      cl_overhead = ca_overhead args, cl_cost = ca_cost args, cl_saved = ca_saved args, cl_created_at = ca_now args\<rparr>"

definition ApplyAttemptCost :: "cost_args \<Rightarrow> costdb \<Rightarrow> (cost_applied \<times> costdb) result" where
  "ApplyAttemptCost args cs =
     andThen (transitionQueries (ca_now args)) (\<lambda>_.
     if ca_resource args = [] then Inl (ErrBadArgument ''empty Resource'') else
     case ca_rate args of None \<Rightarrow> Inl (ErrBadArgument ''empty Rate snapshot'') | Some rate \<Rightarrow>
     let c = ledger_row args rate in
     andThen (insertCostLedgerEntry c cs) (\<lambda>cs1.
     andThen (addRunCost (ca_cost args) (ca_saved args) (cs_run cs1)) (\<lambda>(total, db1).
     andThen (append_events
        (EvCostUpdated (cl_step_id c) (cl_attempt c) (cl_entry c) (cl_resource c) (cl_cache_hit c) (cl_overhead c)
           (cl_cost c) (cl_saved c) (r_spent_nano_usd total) (r_saved_nano_usd total) (r_budget_nano_usd total)
         # (case ca_warning args of None \<Rightarrow> [] | Some model \<Rightarrow> [EvCostUnknownModel model])) db1) (\<lambda>db2.
     Inr (\<lparr>cp_run_spent = r_spent_nano_usd total, cp_run_saved = r_saved_nano_usd total, cp_budget = r_budget_nano_usd total\<rparr>,
          cs1\<lparr>cs_run := db2\<rparr>)))))"

fun apply_costs :: "cost_args list \<Rightarrow> costdb \<Rightarrow> costdb result" where
  "apply_costs [] cs = Inr cs"
| "apply_costs (a # as) cs = andThen (ApplyAttemptCost a cs) (\<lambda>(_, cs1). apply_costs as cs1)"

definition applyCostRows :: "cost_args option \<Rightarrow> cost_args list \<Rightarrow> costdb \<Rightarrow> costdb result" where
  "applyCostRows costRow overheadRows cs = apply_costs ((case costRow of None \<Rightarrow> [] | Some a \<Rightarrow> [a]) @ overheadRows) cs"

section \<open>Pricing an attempt\<close>

record exec_output =
  ou_data :: raw
  ou_usage :: "usage option"
  ou_resource :: string
  ou_repair :: raw

record validator_usage =
  vu_resource :: string
  vu_input_tokens :: int
  vu_output_tokens :: int

definition priceAttempt :: "catalog option \<Rightarrow> step_row \<Rightarrow> exec_output \<Rightarrow> time \<Rightarrow> cost_args option" where
  "priceAttempt pricing s out now =
     (if pricing = None \<or> ou_resource out = [] then None
      else let cacheHit = (case ou_usage out of None \<Rightarrow> False | Some u \<Rightarrow> us_cache_hit u);
               base = \<lparr>ca_step_id = s_step_id s, ca_attempt = s_attempt_count s, ca_entry = [], ca_resource = ou_resource out,
                       ca_usage = None, ca_rate = None, ca_rate_source = SourceExact, ca_cache_hit = cacheHit,
                       ca_overhead = False, ca_cost = 0, ca_saved = 0, ca_warning = None, ca_now = now\<rparr>
           in if tool_prefixed (ou_resource out)
              then (case ToolPrice pricing (ou_resource out) now of None \<Rightarrow> None
                    | Some nano \<Rightarrow> Some (base\<lparr>ca_rate := Some (ToolRate nano),
                        ca_cost := (if cacheHit then 0 else nano), ca_saved := (if cacheHit then nano else 0)\<rparr>))
              else (case ou_usage out of None \<Rightarrow> None | Some u \<Rightarrow>
                   (case PriceModel pricing (ou_resource out) now PolicyEstimate of Inl _ \<Rightarrow> None
                    | Inr p \<Rightarrow>
                        let amount = Cost (us_input_tokens u) (us_output_tokens u) (pd_rate p)
                        in Some (base\<lparr>ca_usage := Some u, ca_rate := Some (ModelRate (pd_rate p)), ca_rate_source := pd_source p,
                             ca_cost := (if cacheHit then 0 else amount), ca_saved := (if cacheHit then amount else 0),
                             ca_warning := (if pd_fallback p \<and> \<not> cacheHit then Some (ou_resource out) else None)\<rparr>))))"

definition priceOverhead :: "catalog option \<Rightarrow> step_row \<Rightarrow> string \<Rightarrow> validator_usage \<Rightarrow> time \<Rightarrow> cost_args option" where
  "priceOverhead pricing s entry u now = (case PriceModel pricing (vu_resource u) now PolicyEstimate of Inl _ \<Rightarrow> None
     | Inr p \<Rightarrow> Some \<lparr>ca_step_id = s_step_id s, ca_attempt = s_attempt_count s, ca_entry = entry, ca_resource = vu_resource u,
         ca_usage = Some \<lparr>us_input_tokens = vu_input_tokens u, us_output_tokens = vu_output_tokens u, us_cache_hit = False\<rparr>,
         ca_rate = Some (ModelRate (pd_rate p)), ca_rate_source = pd_source p, ca_cache_hit = False, ca_overhead = True,
         ca_cost = Cost (vu_input_tokens u) (vu_output_tokens u) (pd_rate p), ca_saved = 0,
         ca_warning = (if pd_fallback p then Some (vu_resource u) else None), ca_now = now\<rparr>)"

text \<open>\<open>us\<close> lists the usage of the verdict's validators by chain position.\<close>

definition priceOverheads :: "catalog option \<Rightarrow> step_row \<Rightarrow> validator_usage option list option \<Rightarrow> time \<Rightarrow> cost_args list" where
  "priceOverheads pricing s us now =
     (if pricing = None then [] else case us of None \<Rightarrow> [] | Some us \<Rightarrow>
      List.map_filter (\<lambda>(i, u). case u of None \<Rightarrow> None | Some u \<Rightarrow>
        if vu_resource u = [] then None else priceOverhead pricing s (JudgeEntry i) u now) (enumerate 0 us))"

record summary_action =
  sm_resource :: string
  sm_input_tokens :: int
  sm_output_tokens :: int
  sm_cache_hit :: bool

definition priceSummary :: "catalog option \<Rightarrow> step_row \<Rightarrow> nat \<Rightarrow> summary_action \<Rightarrow> time \<Rightarrow> cost_args option" where
  "priceSummary pricing s i a now =
     (if sm_resource a = [] then None else case PriceModel pricing (sm_resource a) now PolicyEstimate of Inl _ \<Rightarrow> None
      | Inr p \<Rightarrow> let amount = Cost (sm_input_tokens a) (sm_output_tokens a) (pd_rate p) in
         Some \<lparr>ca_step_id = s_step_id s, ca_attempt = s_attempt_count s, ca_entry = CompactionEntry i, ca_resource = sm_resource a,
           ca_usage = Some \<lparr>us_input_tokens = sm_input_tokens a, us_output_tokens = sm_output_tokens a, us_cache_hit = sm_cache_hit a\<rparr>,
           ca_rate = Some (ModelRate (pd_rate p)), ca_rate_source = pd_source p, ca_cache_hit = sm_cache_hit a, ca_overhead = True,
           ca_cost = (if sm_cache_hit a then 0 else amount), ca_saved = (if sm_cache_hit a then amount else 0),
           ca_warning = (if \<not> sm_cache_hit a \<and> pd_fallback p then Some (sm_resource a) else None), ca_now = now\<rparr>)"

definition priceSummaryOverheads :: "catalog option \<Rightarrow> step_row \<Rightarrow> summary_action list \<Rightarrow> time \<Rightarrow> cost_args list" where
  "priceSummaryOverheads pricing s summaries now =
     (if pricing = None then [] else List.map_filter (\<lambda>(i, a). priceSummary pricing s i a now) (enumerate 0 summaries))"

section \<open>Grouped sums\<close>

lemma sum_list_groups:
  fixes f :: "'a \<Rightarrow> int"
  shows "sum_list (map (\<lambda>k. sum_list (map f (filter (\<lambda>x. g x = k) xs))) (remdups (map g xs))) = sum_list (map f xs)"
proof -
  have "(\<Sum>k\<in>A. sum_list (map f (filter (\<lambda>x. g x = k) xs))) = sum_list (map f xs)"
    if "finite A" "set (map g xs) \<subseteq> A" for A
    using that
  proof (induction xs)
    case (Cons x xs)
    have "(\<Sum>k\<in>A. sum_list (map f (filter (\<lambda>y. g y = k) (x # xs))))
        = (\<Sum>k\<in>A. (if k = g x then f x else 0) + sum_list (map f (filter (\<lambda>y. g y = k) xs)))"
      by (rule sum.cong) auto
    also have "\<dots> = f x + sum_list (map f xs)"
      using Cons by (simp add: sum.distrib)
    finally show ?case by simp
  qed simp
  from this [of "set (map g xs)"] show ?thesis
    by (simp add: sum_list_distinct_conv_sum_set)
qed

lemma sum_list_sorted:
  fixes f :: "'a \<Rightarrow> int"
  shows "sum_list (map f (sort_key k xs)) = sum_list (map f xs)"
  by (metis mset_map mset_sort sum_mset_sum_list)

lemma breakdowns_add_up:
  "sum_list (map ac_spent (aggregateCostByStep cs)) = fst (sumCostLedgerByRun cs)"
  "sum_list (map ac_saved (aggregateCostByStep cs)) = snd (sumCostLedgerByRun cs)"
  "sum_list (map rc_spent (aggregateCostByResource cs)) = fst (sumCostLedgerByRun cs)"
  "sum_list (map rc_saved (aggregateCostByResource cs)) = snd (sumCostLedgerByRun cs)"
  by (simp_all add: aggregateCostByStep_def aggregateCostByResource_def sum_list_sorted o_def step_costs_of_def
      resource_costs_of_def Let_def sumCostLedgerByRun_def sum_list_groups)

section \<open>The totals follow the ledger\<close>

definition run_spend :: "rundb \<Rightarrow> (int \<times> int) option" where
  "run_spend db = map_option (\<lambda>r. (r_spent_nano_usd r, r_saved_nano_usd r)) (run db)"

text \<open>No transition of the store layer and no expansion touches the totals.\<close>

interpretation spend: store_invariant "\<lambda>db. run_spend db = x" for x
  by unfold_locales (auto simp: run_spend_def step_move_def edge_move_def run_move_def side_move_def same_run_identity_def)

lemma run_spend_log_event: "run_spend (log_event p db) = run_spend db"
  by (simp add: run_spend_def log_event_def Let_def split: option.splits)

lemma run_spend_log_events: "run_spend (fold log_event ps db) = run_spend db"
  by (induction ps arbitrary: db) (simp_all add: run_spend_log_event)

lemma run_step_spend:
  assumes "run_step db db'" and "db_inv db" and "refs_ok db"
  shows "run_spend db' = run_spend db"
  using assms
proof (induction rule: run_step.induct)
  case (op db db')
  then show ?case using store_ops_moves [OF r_into_rtranclp] spend.moves_keep by blast
next
  case (expand stepIssues refIssues compile args db res db')
  obtain r origin where r: "run db = Some r"
    and db': "db' = fold (\<lambda>sid. createOutboxTask sid OutboxReasonStepReady (ex_trace args)) (readied_ids (ex_plan args))
          (fold log_event (expansion_events args r origin) (expanded args r origin db))"
    using expand(1) unfolding ExpandRun_eq [OF expand(2,3)] by blast
  have "run_spend db' = run_spend (fold log_event (expansion_events args r origin) (expanded args r origin db))"
    unfolding db' fold_outbox_eq by (simp add: run_spend_def)
  then show ?case using r by (simp add: run_spend_log_events) (simp add: run_spend_def expanded_def expanded_run_def)
qed

text \<open>What one charge needs, and what it does.\<close>

definition chargeable :: "cost_args \<Rightarrow> run_row \<Rightarrow> costdb \<Rightarrow> bool" where
  "chargeable args r cs \<longleftrightarrow> ca_now args \<noteq> 0 \<and> ca_resource args \<noteq> [] \<and> ca_rate args \<noteq> None \<and> 0 \<le> ca_cost args \<and> 0 \<le> ca_saved args
     \<and> cost_key (ledger_row args (the (ca_rate args))) \<notin> set (map cost_key (cs_ledger cs))
     \<and> r_spent_nano_usd r + ca_cost args < 2 ^ 63 \<and> r_saved_nano_usd r + ca_saved args < 2 ^ 63"

definition charged_run :: "cost_args \<Rightarrow> run_row \<Rightarrow> run_row" where
  "charged_run args r = r\<lparr>r_spent_nano_usd := r_spent_nano_usd r + ca_cost args, r_saved_nano_usd := r_saved_nano_usd r + ca_saved args\<rparr>"

definition charge_events :: "cost_args \<Rightarrow> run_row \<Rightarrow> event_payload list" where
  "charge_events args r = (let c = ledger_row args (the (ca_rate args)) in
     EvCostUpdated (cl_step_id c) (cl_attempt c) (cl_entry c) (cl_resource c) (cl_cache_hit c) (cl_overhead c) (cl_cost c) (cl_saved c)
       (r_spent_nano_usd (charged_run args r)) (r_saved_nano_usd (charged_run args r)) (r_budget_nano_usd r)
     # (case ca_warning args of None \<Rightarrow> [] | Some model \<Rightarrow> [EvCostUnknownModel model]))"

definition charged :: "cost_args \<Rightarrow> run_row \<Rightarrow> costdb \<Rightarrow> costdb" where
  "charged args r cs =
     \<lparr>cs_run = fold log_event (charge_events args r) ((cs_run cs)\<lparr>run := Some (charged_run args r)\<rparr>),
      cs_ledger = cs_ledger cs @ [ledger_row args (the (ca_rate args))]\<rparr>"

lemma charged_run_inv: "db_inv db \<Longrightarrow> run db = Some r \<Longrightarrow> db_inv (db\<lparr>run := Some (charged_run args r)\<rparr>)"
  by (simp add: db_inv_def steps_inv_def run_inv_def charged_run_def counters_ok_def log_ok_def run_state_ok_def run_succeeded_ok_def)

lemma ApplyAttemptCost_eq:
  assumes "db_inv (cs_run cs)" and r: "run (cs_run cs) = Some r"
  shows "ApplyAttemptCost args cs = Inr (a, cs') \<longleftrightarrow> chargeable args r cs \<and> cs' = charged args r cs
     \<and> a = \<lparr>cp_run_spent = r_spent_nano_usd r + ca_cost args, cp_run_saved = r_saved_nano_usd r + ca_saved args, cp_budget = r_budget_nano_usd r\<rparr>"
proof -
  have log: "append_events ps ((cs_run cs)\<lparr>run := Some (charged_run args r)\<rparr>)
      = Inr (fold log_event ps ((cs_run cs)\<lparr>run := Some (charged_run args r)\<rparr>))" for ps
    using append_events_inv [OF charged_run_inv [OF assms]] by blast
  show ?thesis
  proof (cases "chargeable args r cs")
    case True
    then obtain rate where rate: "ca_rate args = Some rate" by (auto simp: chargeable_def)
    have ins: "insertCostLedgerEntry (ledger_row args rate) cs = Inr (cs\<lparr>cs_ledger := cs_ledger cs @ [ledger_row args rate]\<rparr>)"
      using True rate by (simp add: insertCostLedgerEntry_def chargeable_def ledger_row_def)
    have add: "addRunCost (ca_cost args) (ca_saved args) (cs_run cs)
        = Inr (charged_run args r, (cs_run cs)\<lparr>run := Some (charged_run args r)\<rparr>)"
      using True r by (simp add: addRunCost_def chargeable_def charged_run_def Let_def)
    have "ApplyAttemptCost args cs = Inr (\<lparr>cp_run_spent = r_spent_nano_usd r + ca_cost args,
        cp_run_saved = r_saved_nano_usd r + ca_saved args, cp_budget = r_budget_nano_usd r\<rparr>, charged args r cs)"
      using True unfolding ApplyAttemptCost_def
      by (simp add: rate Let_def ins add log transitionQueries_def chargeable_def del: append_events.simps)
        (simp add: charged_def charge_events_def charged_run_def rate Let_def)
    then show ?thesis using True by auto
  next
    case False
    then have "ApplyAttemptCost args cs \<noteq> Inr (a, cs')"
      using r by (auto simp: ApplyAttemptCost_def transitionQueries_def insertCostLedgerEntry_def addRunCost_def
          chargeable_def ledger_row_def Let_def andThen_eq_Inr split: if_splits option.splits)
    then show ?thesis using False by simp
  qed
qed

text \<open>A history of the run and its ledger: store transitions, expansions and charges in any order.\<close>

inductive cost_step :: "costdb \<Rightarrow> costdb \<Rightarrow> bool" where
  run: "run_step (cs_run cs) db' \<Longrightarrow> cost_step cs (cs\<lparr>cs_run := db'\<rparr>)"
| charge: "ApplyAttemptCost args cs = Inr (a, cs') \<Longrightarrow> cost_step cs cs'"

definition ledger_inv :: "costdb \<Rightarrow> bool" where
  "ledger_inv cs \<longleftrightarrow> db_inv (cs_run cs) \<and> refs_ok (cs_run cs) \<and> run_spend (cs_run cs) = Some (sumCostLedgerByRun cs)
     \<and> distinct (map cost_key (cs_ledger cs)) \<and> (\<forall>c \<in> set (cs_ledger cs). 0 \<le> cl_cost c \<and> 0 \<le> cl_saved c)"

lemma refs_ok_log_events: "refs_ok (fold log_event ps db) = refs_ok db"
  by (induction ps arbitrary: db) (auto simp: log_event_def refs_ok_def Let_def split: option.splits)

lemma charged_inv:
  assumes "ledger_inv cs" and r: "run (cs_run cs) = Some r" and "chargeable args r cs"
  shows "ledger_inv (charged args r cs)"
proof -
  have run: "db_inv (cs_run (charged args r cs))"
    using append_events_inv [OF charged_run_inv [OF _ r]] assms(1) by (auto simp: charged_def ledger_inv_def)
  have refs: "refs_ok (cs_run (charged args r cs))"
    using assms(1) by (simp add: charged_def refs_ok_log_events) (simp add: ledger_inv_def refs_ok_def)
  have "run_spend (cs_run (charged args r cs)) = Some (r_spent_nano_usd r + ca_cost args, r_saved_nano_usd r + ca_saved args)"
    by (simp add: charged_def run_spend_log_events) (simp add: run_spend_def charged_run_def)
  with run refs assms show ?thesis
    by (simp add: ledger_inv_def charged_def sumCostLedgerByRun_def run_spend_def chargeable_def ledger_row_def)
qed

lemma cost_step_inv: "cost_step cs cs' \<Longrightarrow> ledger_inv cs \<Longrightarrow> ledger_inv cs'"
proof (induction rule: cost_step.induct)
  case (run cs db')
  then have "db_inv db' \<and> refs_ok db'" "run_spend db' = run_spend (cs_run cs)"
    using run_step_inv run_step_spend by (auto simp: ledger_inv_def)
  then show ?case using run(2) by (simp add: ledger_inv_def sumCostLedgerByRun_def)
next
  case (charge args cs a cs')
  then obtain r where "run (cs_run cs) = Some r" by (auto simp: ledger_inv_def run_spend_def)
  with charge show ?case using ApplyAttemptCost_eq charged_inv by (metis ledger_inv_def)
qed

lemma created_spend:
  assumes "CreateRun_tx def args = Inr (rn, db)"
  shows "run_spend db = Some (0, 0)"
proof -
  obtain p where db: "db = fold (\<lambda>sid. createOutboxTask sid OutboxReasonStepReady (cr_trace args)) (ip_entry p)
      (fold log_event (first_events p args) (new_tables p args))"
    using assms unfolding CreateRun_tx_eq_Inr by blast
  have "run_spend db = run_spend (fold log_event (first_events p args) (new_tables p args))"
    unfolding db fold_outbox_eq by (simp add: run_spend_def)
  then show ?thesis by (simp add: run_spend_log_events) (simp add: run_spend_def new_tables_def new_run_row_def)
qed

text \<open>
  C7.  The materialised totals of a run are exact.  Through any interleaving of store transitions,
  graph expansions and charges, from the transaction that creates the run, \<^verbatim>\<open>spent_nano_usd\<close> and
  \<^verbatim>\<open>saved_nano_usd\<close> equal the sums over the run's ledger rows, the per-step and the per-resource
  breakdowns add up to them, and no attempt is charged twice under one entry.
\<close>

theorem ledger_exact:
  assumes "CreateRun_tx def args = Inr (rn, db)" and "cost_step\<^sup>*\<^sup>* \<lparr>cs_run = db, cs_ledger = []\<rparr> cs"
  shows "\<exists>r. run (cs_run cs) = Some r \<and> sumCostLedgerByRun cs = (r_spent_nano_usd r, r_saved_nano_usd r)
     \<and> sum_list (map ac_spent (aggregateCostByStep cs)) = r_spent_nano_usd r
     \<and> sum_list (map rc_spent (aggregateCostByResource cs)) = r_spent_nano_usd r
     \<and> sum_list (map ac_saved (aggregateCostByStep cs)) = r_saved_nano_usd r
     \<and> sum_list (map rc_saved (aggregateCostByResource cs)) = r_saved_nano_usd r
     \<and> distinct (map cost_key (cs_ledger cs)) \<and> db_inv (cs_run cs)"
proof -
  have "run_spend db = Some (0, 0)" by (rule created_spend [OF assms(1)])
  moreover have "db_inv db \<and> refs_ok db"
    by (rule created_inv [OF assms(1)])
  ultimately have "ledger_inv \<lparr>cs_run = db, cs_ledger = []\<rparr>" by (simp add: ledger_inv_def sumCostLedgerByRun_def)
  with assms(2) have "ledger_inv cs" by (induction rule: rtranclp_induct) (blast dest: cost_step_inv)+
  then show ?thesis unfolding breakdowns_add_up
    by (cases "sumCostLedgerByRun cs") (auto simp: ledger_inv_def run_spend_def)
qed

section \<open>A sample charge\<close>

definition sample_charge :: cost_args where
  "sample_charge = \<lparr>ca_step_id = ''a'', ca_attempt = 1, ca_entry = [], ca_resource = ''mock:sim-1'', ca_usage = None,
     ca_rate = Some (ToolRate 7), ca_rate_source = SourceExact, ca_cache_hit = False, ca_overhead = False, ca_cost = 7,
     ca_saved = 0, ca_warning = None, ca_now = 300\<rparr>"

theorem ledger_exact_witness:
  "\<exists>rn db a cs r. CreateRun_tx diamond plain_args = Inr (rn, db)
     \<and> ApplyAttemptCost sample_charge \<lparr>cs_run = db, cs_ledger = []\<rparr> = Inr (a, cs)
     \<and> run (cs_run cs) = Some r \<and> sumCostLedgerByRun cs = (r_spent_nano_usd r, r_saved_nano_usd r) \<and> r_spent_nano_usd r = 7"
proof -
  obtain rn db where created: "CreateRun_tx diamond plain_args = Inr (rn, db)" using diamond_created by (metis sumE surj_pair)
  let ?cs = "\<lparr>cs_run = db, cs_ledger = []\<rparr>"
  from created_spend [OF created] obtain r where r: "run db = Some r" "r_spent_nano_usd r = 0" "r_saved_nano_usd r = 0"
    by (auto simp: run_spend_def)
  have "chargeable sample_charge r ?cs" using r by (simp add: chargeable_def sample_charge_def)
  with ApplyAttemptCost_eq [of ?cs r sample_charge] created_inv [OF created] r(1)
  obtain a where ch: "ApplyAttemptCost sample_charge ?cs = Inr (a, charged sample_charge r ?cs)" by simp
  have sum: "sumCostLedgerByRun (charged sample_charge r ?cs) = (7, 0)"
    by (simp add: sumCostLedgerByRun_def charged_def ledger_row_def sample_charge_def)
  show ?thesis
    using ledger_exact [OF created, of "charged sample_charge r ?cs"] cost_step.charge [OF ch] created ch sum by fastforce
qed

end
