(* ===== verification/Budget.thy ===== *)
theory Budget
  imports Costs Dag_Retry
begin

text \<open>
  The claim-time budget check of \<^verbatim>\<open>internal/engine/budget.go\<close> and the model downgrade of
  \<^verbatim>\<open>downgrade.go\<close>: which claims may run, at which model, given the run's spend at the claim.

  The executor's optional hooks are functions of the step's configuration, whose type stays a
  parameter.  The outcome of \<open>budgetCheck\<close> is the action it takes; the transactions that carry out
  a park or a failure are the store's.  A budget fraction is a decimal and is compared exactly, and sums of amounts wrap
  at 64 bits.
\<close>

section \<open>Inputs and outcomes\<close>

record step_budget =
  sb_max_usd :: "rat option"
  sb_max_tokens :: int

record cost_estimate =
  ce_resource :: string
  ce_input_tokens :: int
  ce_max_tokens :: int

record model_fallback =
  mf_model :: string
  mf_at_budget_fraction :: "decimal option"

text \<open>The hooks an executor may implement: \<^verbatim>\<open>CostEstimator\<close> and \<^verbatim>\<open>ModelDowngrader\<close>.\<close>

record 'c model_downgrader =
  dg_model_fallbacks :: "'c \<Rightarrow> (string \<times> model_fallback list) option"
  dg_with_model :: "'c \<Rightarrow> string \<Rightarrow> 'c option"

record 'c executor_hooks =
  xc_estimator :: "('c \<Rightarrow> cost_estimate option) option"
  xc_downgrader :: "'c model_downgrader option"

definition decimal_rat :: "decimal \<Rightarrow> rat" where
  "decimal_rat d = of_int (fst d) / 10 ^ snd d"

fun json_usd :: "json \<Rightarrow> rat option option" where
  "json_usd JNull = Some None"
| "json_usd j = map_option (\<lambda>d. Some (decimal_rat d)) (json_decimal j)"

fun unmarshal_step_budget :: "json \<Rightarrow> step_budget option" where
  "unmarshal_step_budget JNull = Some \<lparr>sb_max_usd = None, sb_max_tokens = 0\<rparr>"
| "unmarshal_step_budget (JObj kvs) =
     (case (json_usd (json_field ''max_usd'' kvs), json_int (json_field ''max_tokens'' kvs)) of
        (Some u, Some n) \<Rightarrow> Some \<lparr>sb_max_usd = u, sb_max_tokens = n\<rparr>
      | _ \<Rightarrow> None)"
| "unmarshal_step_budget _ = None"

datatype budget_policy_error = UndecodableBudgetPolicy

definition decodeStepBudget :: "raw \<Rightarrow> budget_policy_error + step_budget option" where
  "decodeStepBudget raw = (case raw of None \<Rightarrow> Inr None | Some j \<Rightarrow>
     (case unmarshal_step_budget j of None \<Rightarrow> Inl UndecodableBudgetPolicy | Some b \<Rightarrow> Inr (Some b)))"

definition BudgetLimitRun :: string where "BudgetLimitRun = ''run''"
definition BudgetLimitStepUSD :: string where "BudgetLimitStepUSD = ''step_usd''"
definition BudgetLimitStepTokens :: string where "BudgetLimitStepTokens = ''step_tokens''"
definition DowngradeTriggerThreshold :: string where "DowngradeTriggerThreshold = ''budget_threshold''"
definition DowngradeTriggerProjection :: string where "DowngradeTriggerProjection = ''budget_projection''"

datatype budget_failure =
  CorruptBudgetPolicy | UnknownModel string | OverTokens int int | OverStepCap int int | OverRunBudget int int

datatype budget_decision = DecideProceed | DecidePark budget_event | DecideFail budget_failure budget_event

text \<open>
  \<open>BudgetSkipped\<close> is a claim the check does not apply to, \<open>BudgetPassed\<close> one that it let through;
  the code returns the same values for both.
\<close>

datatype 'c budget_outcome =
  BudgetSkipped | BudgetPassed | BudgetDowngraded 'c downgrade_event
| BudgetParks budget_event | BudgetFails budget_failure string

section \<open>The decision on one model\<close>

definition estimateNanoUSD :: "catalog option \<Rightarrow> unknown_model_policy \<Rightarrow> cost_estimate \<Rightarrow> time \<Rightarrow> price_error + int" where
  "estimateNanoUSD pricing policy est now =
     (if tool_prefixed (ce_resource est)
      then Inr (case ToolPrice pricing (ce_resource est) now of None \<Rightarrow> 0 | Some nano \<Rightarrow> nano)
      else (case PriceModel pricing (ce_resource est) now policy of
              Inl e \<Rightarrow> Inl e
            | Inr p \<Rightarrow> Inr (Estimate (ce_input_tokens est) (ce_max_tokens est) (pd_rate p))))"

definition no_budget_event :: budget_event where
  "no_budget_event = \<lparr>be_step_id = [], be_attempt = 0, be_resource = [], be_limit = [], be_action = [], be_spent = 0,
     be_estimate = 0, be_projected = 0, be_budget = 0, be_projected_tokens = 0, be_max_tokens = 0\<rparr>"

text \<open>\<open>cap\<close> is the step's spend so far and its cap, for a step that has one.\<close>

definition budgetDecide :: "catalog option \<Rightarrow> unknown_model_policy \<Rightarrow> cost_estimate \<Rightarrow> claim_origin \<Rightarrow> (int \<times> int) option
    \<Rightarrow> time \<Rightarrow> budget_decision" where
  "budgetDecide pricing policy est origin cap now =
     (case estimateNanoUSD pricing policy est now of
        Inl (UnknownModelError model) \<Rightarrow>
          DecideFail (UnknownModel model) (no_budget_event\<lparr>be_resource := ce_resource est, be_limit := BudgetLimitRun\<rparr>)
      | Inr nano \<Rightarrow>
          (case (case cap of None \<Rightarrow> None
                 | Some (prior, stepCap) \<Rightarrow>
                     if wrap64 (prior + nano) > stepCap
                     then Some (DecideFail (OverStepCap (wrap64 (prior + nano)) stepCap)
                       (no_budget_event\<lparr>be_resource := ce_resource est, be_limit := BudgetLimitStepUSD, be_spent := prior,
                          be_estimate := nano, be_projected := wrap64 (prior + nano), be_budget := stepCap\<rparr>))
                     else None) of
             Some d \<Rightarrow> d
           | None \<Rightarrow>
               (case co_budget origin of None \<Rightarrow> DecideProceed
                | Some budget \<Rightarrow>
                    let projected = wrap64 (co_spent origin + nano);
                        event = no_budget_event\<lparr>be_resource := ce_resource est, be_limit := BudgetLimitRun,
                          be_spent := co_spent origin, be_estimate := nano, be_projected := projected, be_budget := budget\<rparr>
                    in if nano > 0 \<and> projected > budget
                       then if co_on_budget origin = Some BudgetFail then DecideFail (OverRunBudget projected budget) event
                            else DecidePark event
                       else DecideProceed)))"

section \<open>Downgrade\<close>

record downgrade_candidate =
  dc_model :: string
  dc_resource :: string
  dc_nano :: int
  dc_priceable :: bool
  dc_fits :: bool
  dc_threshold_met :: bool

definition run_fits :: "claim_origin \<Rightarrow> int \<Rightarrow> bool" where
  "run_fits origin nano \<longleftrightarrow> (case co_budget origin of None \<Rightarrow> True | Some b \<Rightarrow> \<not> wrap64 (co_spent origin + nano) > b)"

definition cap_fits :: "(int \<times> int) option \<Rightarrow> int \<Rightarrow> bool" where
  "cap_fits cap nano \<longleftrightarrow> (case cap of None \<Rightarrow> True | Some (prior, stepCap) \<Rightarrow> \<not> wrap64 (prior + nano) > stepCap)"

definition budget_fits :: "claim_origin \<Rightarrow> (int \<times> int) option \<Rightarrow> int \<Rightarrow> bool" where
  "budget_fits origin cap nano \<longleftrightarrow> run_fits origin nano \<and> cap_fits cap nano"

definition first_such :: "('a \<Rightarrow> bool) \<Rightarrow> 'a list \<Rightarrow> nat option" where
  "first_such P xs = find (\<lambda>j. P (xs ! j)) [0..<length xs]"

definition last_such :: "('a \<Rightarrow> bool) \<Rightarrow> 'a list \<Rightarrow> nat option" where
  "last_such P xs = find (\<lambda>j. P (xs ! j)) (rev [0..<length xs])"

definition usable :: "downgrade_candidate \<Rightarrow> bool" where
  "usable c \<longleftrightarrow> dc_priceable c \<and> dc_fits c"

definition chooseDowngrade :: "downgrade_candidate list \<Rightarrow> bool \<Rightarrow> (nat \<times> string) option" where
  "chooseDowngrade cands primaryFits =
     (let deepestMet = last_such dc_threshold_met cands in
      case deepestMet of
        Some j \<Rightarrow>
          if usable (cands ! j) then Some (j, DowngradeTriggerThreshold)
          else map_option (\<lambda>j. (j, DowngradeTriggerThreshold)) (first_such usable cands)
      | None \<Rightarrow>
          if \<not> primaryFits then map_option (\<lambda>j. (j, DowngradeTriggerProjection)) (first_such usable cands)
          else None)"

text \<open>The pre-flight price of a configuration, when it has one.\<close>

definition price_config :: "catalog option \<Rightarrow> unknown_model_policy \<Rightarrow> ('c \<Rightarrow> cost_estimate option) \<Rightarrow> time \<Rightarrow> 'c
    \<Rightarrow> (cost_estimate \<times> int) option" where
  "price_config pricing policy estimator now cfg = (case estimator cfg of None \<Rightarrow> None | Some est \<Rightarrow>
     if ce_resource est = [] then None
     else (case estimateNanoUSD pricing policy est now of Inl _ \<Rightarrow> None | Inr nano \<Rightarrow> Some (est, nano)))"

definition downgrade_cand :: "catalog option \<Rightarrow> unknown_model_policy \<Rightarrow> 'c model_downgrader \<Rightarrow> ('c \<Rightarrow> cost_estimate option)
    \<Rightarrow> 'c \<Rightarrow> claim_origin \<Rightarrow> (int \<times> int) option \<Rightarrow> time \<Rightarrow> model_fallback \<Rightarrow> downgrade_candidate" where
  "downgrade_cand pricing policy dg estimator cfg origin cap now f =
     (let met = (case (co_budget origin, mf_at_budget_fraction f) of
                   (Some b, Some fr) \<Rightarrow> b > 0 \<and> of_int (co_spent origin) / of_int b \<ge> decimal_rat fr
                 | _ \<Rightarrow> False)
      in case Option.bind (dg_with_model dg cfg (mf_model f)) (price_config pricing policy estimator now) of
           None \<Rightarrow> \<lparr>dc_model = mf_model f, dc_resource = [], dc_nano = 0, dc_priceable = False, dc_fits = False,
                    dc_threshold_met = met\<rparr>
         | Some (est, nano) \<Rightarrow> \<lparr>dc_model = mf_model f, dc_resource = ce_resource est, dc_nano = nano, dc_priceable = True,
                    dc_fits = budget_fits origin cap nano, dc_threshold_met = met\<rparr>)"

definition selectDowngrade :: "catalog option \<Rightarrow> unknown_model_policy \<Rightarrow> 'c model_downgrader \<Rightarrow> ('c \<Rightarrow> cost_estimate option)
    \<Rightarrow> 'c \<Rightarrow> claim_origin \<Rightarrow> cost_estimate \<Rightarrow> (int \<times> int) option \<Rightarrow> time \<Rightarrow> ('c \<times> downgrade_event) option" where
  "selectDowngrade pricing policy dg estimator cfg origin primaryEst cap now =
     (case dg_model_fallbacks dg cfg of None \<Rightarrow> None | Some (current, chain) \<Rightarrow>
      if chain = [] then None else
      (case estimateNanoUSD pricing policy primaryEst now of Inl _ \<Rightarrow> None | Inr primaryNano \<Rightarrow>
       let cands = map (downgrade_cand pricing policy dg estimator cfg origin cap now) chain
       in (case chooseDowngrade cands (budget_fits origin cap primaryNano) of None \<Rightarrow> None | Some (idx, trigger) \<Rightarrow>
           let target = cands ! idx in
           (case dg_with_model dg cfg (dc_model target) of None \<Rightarrow> None | Some cfg' \<Rightarrow>
            Some (cfg', \<lparr>md_step_id = [], md_attempt = 0, md_from_model = current, md_to_model = dc_model target,
              md_from_resource = ce_resource primaryEst, md_to_resource = dc_resource target, md_trigger = trigger,
              md_limit = (if trigger = DowngradeTriggerProjection
                          then if co_budget origin \<noteq> None then BudgetLimitRun else BudgetLimitStepUSD else []),
              md_threshold_fraction = (if trigger = DowngradeTriggerThreshold
                          then case mf_at_budget_fraction (chain ! idx) of None \<Rightarrow> (0, 0) | Some f \<Rightarrow> f else (0, 0)),
              md_spent = co_spent origin, md_budget = (case co_budget origin of None \<Rightarrow> 0 | Some b \<Rightarrow> b),
              md_from_estimate = primaryNano, md_to_estimate = dc_nano target\<rparr>)))))"

section \<open>The check\<close>

definition step_cap :: "step_budget option \<Rightarrow> int \<Rightarrow> (int \<times> int) option" where
  "step_cap stepBudget prior =
     (case stepBudget of None \<Rightarrow> None | Some b \<Rightarrow> map_option (\<lambda>usd. (prior, usdToNano usd)) (sb_max_usd b))"

text \<open>\<open>prior\<close> is the step's spend so far, \<open>sumCostLedgerByStep\<close>, read only for a step with a cap.\<close>

definition budgetCheck :: "catalog option \<Rightarrow> unknown_model_policy \<Rightarrow> 'c executor_hooks \<Rightarrow> raw \<Rightarrow> 'c \<Rightarrow> claim_origin \<Rightarrow> int
    \<Rightarrow> time \<Rightarrow> 'c budget_outcome" where
  "budgetCheck pricing policy hooks budgetPolicy cfg origin prior now =
     (if pricing = None then BudgetSkipped else
      case xc_estimator hooks of None \<Rightarrow> BudgetSkipped | Some estimator \<Rightarrow>
      (case decodeStepBudget budgetPolicy of Inl _ \<Rightarrow> BudgetFails CorruptBudgetPolicy [] | Inr stepBudget \<Rightarrow>
       if co_budget origin = None \<and> stepBudget = None then BudgetSkipped else
       (case estimator cfg of None \<Rightarrow> BudgetSkipped | Some est \<Rightarrow>
        if ce_resource est = [] then BudgetSkipped else
        let projectedTokens = wrap64 (ce_input_tokens est + ce_max_tokens est);
            maxTokens = (case stepBudget of None \<Rightarrow> 0 | Some b \<Rightarrow> sb_max_tokens b);
            cap = step_cap stepBudget prior
        in if maxTokens > 0 \<and> projectedTokens > maxTokens
           then BudgetFails (OverTokens projectedTokens maxTokens) BudgetLimitStepTokens
           else (case (case xc_downgrader hooks of None \<Rightarrow> None
                       | Some dg \<Rightarrow> selectDowngrade pricing policy dg estimator cfg origin est cap now) of
                   Some (cfg', event) \<Rightarrow> BudgetDowngraded cfg' event
                 | None \<Rightarrow>
                     (case budgetDecide pricing policy est origin cap now of
                        DecideProceed \<Rightarrow> BudgetPassed
                      | DecidePark event \<Rightarrow> BudgetParks event
                      | DecideFail why event \<Rightarrow> BudgetFails why (be_limit event))))))"

section \<open>What the check lets through\<close>

text \<open>The configuration a claim goes on with, when the check applied to it and let it through.\<close>

definition cleared :: "'c \<Rightarrow> 'c budget_outcome \<Rightarrow> 'c option" where
  "cleared cfg res = (case res of BudgetPassed \<Rightarrow> Some cfg | BudgetDowngraded cfg' _ \<Rightarrow> Some cfg' | _ \<Rightarrow> None)"

lemma first_such: "first_such P xs = Some j \<Longrightarrow> j < length xs \<and> P (xs ! j)"
  by (auto simp: first_such_def find_Some_iff)

lemma last_such: "last_such P xs = Some j \<Longrightarrow> j < length xs \<and> P (xs ! j)"
proof -
  assume found: "last_such P xs = Some j"
  let ?js = "rev [0..<length xs]"
  obtain i where "i < length ?js" "P (xs ! (?js ! i))" "j = ?js ! i"
    using found unfolding last_such_def find_Some_iff by blast
  then have "j \<in> set ?js" "P (xs ! j)" using nth_mem by blast+
  then show ?thesis by simp
qed

lemma chooseDowngrade_usable: "chooseDowngrade cands fits = Some (j, trigger) \<Longrightarrow> j < length cands \<and> usable (cands ! j)"
  by (auto simp: chooseDowngrade_def dest: first_such last_such split: option.splits if_splits)

lemma selectDowngrade_fits:
  assumes "selectDowngrade pricing policy dg estimator cfg origin primary cap now = Some (cfg', event)"
  shows "\<exists>est. price_config pricing policy estimator now cfg' = Some (est, md_to_estimate event)
     \<and> budget_fits origin cap (md_to_estimate event) \<and> md_to_resource event = ce_resource est"
proof -
  obtain current chain where chain: "dg_model_fallbacks dg cfg = Some (current, chain)"
    using assms by (auto simp: selectDowngrade_def split: option.splits)
  let ?cands = "map (downgrade_cand pricing policy dg estimator cfg origin cap now) chain"
  obtain nano idx trigger where chosen: "chooseDowngrade ?cands (budget_fits origin cap nano) = Some (idx, trigger)"
    and cfg': "dg_with_model dg cfg (dc_model (?cands ! idx)) = Some cfg'" and ev: "md_to_estimate event = dc_nano (?cands ! idx)"
      "md_to_resource event = dc_resource (?cands ! idx)"
    using assms by (auto simp: selectDowngrade_def chain Let_def split: option.splits sum.splits if_splits)
  have idx: "idx < length chain" "usable (?cands ! idx)" using chooseDowngrade_usable [OF chosen] unfolding length_map by blast+
  let ?f = "chain ! idx"
  have cand: "?cands ! idx = downgrade_cand pricing policy dg estimator cfg origin cap now ?f" using idx(1) by simp
  obtain est nano' where priced: "Option.bind (dg_with_model dg cfg (mf_model ?f)) (price_config pricing policy estimator now) = Some (est, nano')"
    using idx(2) unfolding cand by (auto simp: downgrade_cand_def usable_def Let_def split: option.splits)
  have "dc_model (?cands ! idx) = mf_model ?f" "dc_nano (?cands ! idx) = nano'" "dc_resource (?cands ! idx) = ce_resource est"
    "budget_fits origin cap nano'"
    using idx(2) unfolding cand by (simp_all add: downgrade_cand_def usable_def Let_def priced)
  then show ?thesis using cfg' ev priced by auto
qed

lemma budgetDecide_proceeds:
  assumes "budgetDecide pricing policy est origin cap now = DecideProceed"
  shows "\<exists>nano. estimateNanoUSD pricing policy est now = Inr nano \<and> cap_fits cap nano \<and> (nano \<le> 0 \<or> run_fits origin nano)"
  using assms by (auto simp: budgetDecide_def cap_fits_def run_fits_def Let_def
      split: sum.splits price_error.splits option.splits if_splits prod.splits)

lemma budgetCheck_cleared:
  assumes "cleared cfg (budgetCheck pricing policy hooks budgetPolicy cfg origin prior now) = Some cfg'"
  shows "\<exists>estimator est nano sb. xc_estimator hooks = Some estimator \<and> decodeStepBudget budgetPolicy = Inr sb
     \<and> price_config pricing policy estimator now cfg' = Some (est, nano)
     \<and> cap_fits (step_cap sb prior) nano \<and> (nano \<le> 0 \<or> run_fits origin nano)"
proof -
  let ?res = "budgetCheck pricing policy hooks budgetPolicy cfg origin prior now"
  have none: "cleared cfg BudgetSkipped = None" "cleared cfg (BudgetFails why l) = None" "cleared cfg (BudgetParks ev) = None" for why l ev
    by (simp_all add: cleared_def)
  have pricing: "pricing \<noteq> None" by (intro notI) (use assms none in \<open>simp add: budgetCheck_def\<close>)
  obtain estimator where estimator: "xc_estimator hooks = Some estimator"
    using assms none pricing by (cases "xc_estimator hooks") (simp_all add: budgetCheck_def)
  obtain sb where sb: "decodeStepBudget budgetPolicy = Inr sb"
    using assms none pricing by (cases "decodeStepBudget budgetPolicy") (simp_all add: budgetCheck_def estimator)
  have on: "\<not> (co_budget origin = None \<and> sb = None)"
    by (intro notI) (use assms none pricing in \<open>simp add: budgetCheck_def estimator sb\<close>)
  obtain est where est: "estimator cfg = Some est"
    using assms none pricing on by (cases "estimator cfg") (simp_all add: budgetCheck_def estimator sb)
  have resource: "ce_resource est \<noteq> []"
    by (intro notI) (use assms none pricing on in \<open>simp add: budgetCheck_def estimator sb est\<close>)
  let ?down = "case xc_downgrader hooks of None \<Rightarrow> None
     | Some dg \<Rightarrow> selectDowngrade pricing policy dg estimator cfg origin est (step_cap sb prior) now"
  let ?decide = "budgetDecide pricing policy est origin (step_cap sb prior) now"
  have "cleared cfg (case ?down of Some (cfg', event) \<Rightarrow> BudgetDowngraded cfg' event
       | None \<Rightarrow> (case ?decide of DecideProceed \<Rightarrow> BudgetPassed | DecidePark event \<Rightarrow> BudgetParks event
                  | DecideFail why event \<Rightarrow> BudgetFails why (be_limit event))) = Some cfg'"
    using assms none pricing on resource by (simp add: budgetCheck_def estimator sb est Let_def split: if_splits)
  then have res: "(\<exists>dg event. xc_downgrader hooks = Some dg
             \<and> selectDowngrade pricing policy dg estimator cfg origin est (step_cap sb prior) now = Some (cfg', event))
        \<or> cfg' = cfg \<and> ?decide = DecideProceed"
    by (cases "xc_downgrader hooks"; cases ?down; cases ?decide) (auto simp: cleared_def)
  from res show ?thesis
  proof (elim disjE exE conjE)
    fix dg event
    assume "selectDowngrade pricing policy dg estimator cfg origin est (step_cap sb prior) now = Some (cfg', event)"
    from selectDowngrade_fits [OF this] estimator sb show ?thesis by (auto simp: budget_fits_def)
  next
    assume "cfg' = cfg" "budgetDecide pricing policy est origin (step_cap sb prior) now = DecideProceed"
    with budgetDecide_proceeds [OF this(2)] estimator sb est resource show ?thesis by (auto simp: price_config_def)
  qed
qed

section \<open>A cleared claim's charge\<close>

text \<open>The call stays within its estimate, and the catalog's answer for its resource has not changed.\<close>

definition call_within :: "cost_estimate \<Rightarrow> exec_output \<Rightarrow> bool" where
  "call_within est out \<longleftrightarrow> ou_resource out = ce_resource est \<and> (case ou_usage out of None \<Rightarrow> True
     | Some u \<Rightarrow> us_input_tokens u \<le> ce_input_tokens est \<and> us_output_tokens u \<le> ce_max_tokens est)"

definition same_prices :: "catalog \<Rightarrow> string \<Rightarrow> time \<Rightarrow> time \<Rightarrow> bool" where
  "same_prices c name t t' \<longleftrightarrow> LookupPrice (Some c) name t' = LookupPrice (Some c) name t
     \<and> ToolPrice (Some c) name t' = ToolPrice (Some c) name t"

definition priceable_estimate :: "catalog \<Rightarrow> unknown_model_policy \<Rightarrow> cost_estimate \<Rightarrow> time \<Rightarrow> bool" where
  "priceable_estimate c policy est now \<longleftrightarrow> (case PriceModel (Some c) (ce_resource est) now policy of Inl _ \<Rightarrow> True
     | Inr p \<Rightarrow> priceable_tokens (ce_input_tokens est) (ce_max_tokens est) (pd_rate p))"

lemma PriceModel_estimate:
  assumes "PriceModel (Some c) name t policy = Inr p" and "same_prices c name t t'"
  shows "PriceModel (Some c) name t' PolicyEstimate = Inr p"
  using assms by (auto simp: PriceModel_def same_prices_def split: option.splits if_splits prod.splits)

lemma charge_within_estimate:
  assumes "estimateNanoUSD (Some c) policy est now = Inr nano" and "priceable_estimate c policy est now"
    and "call_within est out" and "same_prices c (ce_resource est) now now'"
    and "priceAttempt (Some c) s out now' = Some args"
  shows "0 \<le> ca_cost args \<and> ca_cost args \<le> nano"
proof (cases "tool_prefixed (ce_resource est)")
  case True
  then obtain price where "ToolPrice (Some c) (ce_resource est) now = Some price" "ca_cost args = 0 \<or> ca_cost args = price"
    using assms(3,4,5) by (auto simp: priceAttempt_def call_within_def same_prices_def Let_def split: if_splits option.splits)
  moreover have "0 \<le> price" using calculation(1) usdToNano_nonneg by (auto simp: ToolPrice_def ToolCost_def)
  ultimately show ?thesis using assms(1) True by (auto simp: estimateNanoUSD_def)
next
  case False
  then obtain p where p: "PriceModel (Some c) (ce_resource est) now policy = Inr p"
    and nano: "nano = Estimate (ce_input_tokens est) (ce_max_tokens est) (pd_rate p)"
    using assms(1) by (auto simp: estimateNanoUSD_def split: sum.splits)
  have ok: "priceable_tokens (ce_input_tokens est) (ce_max_tokens est) (pd_rate p)"
    using assms(2) p by (simp add: priceable_estimate_def)
  have p': "PriceModel (Some c) (ou_resource out) now' PolicyEstimate = Inr p"
    using PriceModel_estimate [OF p assms(4)] assms(3) by (simp add: call_within_def)
  obtain u where u: "ou_usage out = Some u"
    "ca_cost args = 0 \<or> ca_cost args = Cost (us_input_tokens u) (us_output_tokens u) (pd_rate p)"
    using assms(3,5) False p' by (auto simp: priceAttempt_def call_within_def Let_def split: if_splits option.splits)
  have "us_input_tokens u \<le> ce_input_tokens est" "us_output_tokens u \<le> ce_max_tokens est"
    using assms(3) u(1) by (simp_all add: call_within_def)
  from Cost_within_estimate [OF ok this] u(2) nano Cost_eq(2) [OF ok] show ?thesis by (auto simp: Estimate_def)
qed

text \<open>
  C8.  The budget check bounds what a cleared claim spends.  When the check lets a claim through,
  on the model it asked for or on one it was downgraded to, and the call stays within its estimate
  at unchanged prices, the charge of the attempt is zero or keeps the run's spend at the claim
  within the run budget, and it keeps the step's own spend within the step's cap.
\<close>

theorem budget_bounds_spend:
  assumes "cleared cfg (budgetCheck (Some c) policy hooks budgetPolicy cfg origin prior now) = Some cfg'"
    and "xc_estimator hooks = Some estimator" and "estimator cfg' = Some est"
    and "estimateNanoUSD (Some c) policy est now = Inr nano" and "priceable_estimate c policy est now"
    and "0 \<le> co_spent origin" and "co_spent origin + nano < 2 ^ 63" and "0 \<le> prior" and "prior + nano < 2 ^ 63"
    and "call_within est out" and "same_prices c (ce_resource est) now now'"
    and "priceAttempt (Some c) s out now' = Some args"
  shows "0 \<le> ca_cost args
     \<and> (case co_budget origin of None \<Rightarrow> True | Some b \<Rightarrow> ca_cost args = 0 \<or> co_spent origin + ca_cost args \<le> b)
     \<and> (\<exists>sb. decodeStepBudget budgetPolicy = Inr sb
          \<and> (case step_cap sb prior of None \<Rightarrow> True | Some (_, stepCap) \<Rightarrow> prior + ca_cost args \<le> stepCap))"
proof -
  obtain sb where sb: "decodeStepBudget budgetPolicy = Inr sb" and fits: "cap_fits (step_cap sb prior) nano"
      "nano \<le> 0 \<or> run_fits origin nano"
    using budgetCheck_cleared [OF assms(1)] assms(2,3,4) by (auto simp: price_config_def split: if_splits)
  have charge: "0 \<le> ca_cost args" "ca_cost args \<le> nano"
    using charge_within_estimate [OF assms(4,5,10,11,12)] by simp_all
  then have "wrap64 (co_spent origin + nano) = co_spent origin + nano" "wrap64 (prior + nano) = prior + nano"
    using assms(6-9) by (simp_all add: wrap64_id)
  then show ?thesis using fits charge sb
    by (auto simp: cap_fits_def run_fits_def step_cap_def split: option.splits)
qed

section \<open>A sample downgrade\<close>

text \<open>A step's configuration is its model; half of a budget of 20 million nano-USD is spent.\<close>

definition sample_catalog :: catalog where
  "sample_catalog = \<lparr>cg_models = sortEntries (doc_models sample_doc), cg_tools = (\<lambda>_. []), cg_fallback = None\<rparr>"

definition sample_estimator :: "string \<Rightarrow> cost_estimate option" where
  "sample_estimator model = Some \<lparr>ce_resource = model, ce_input_tokens = 1000, ce_max_tokens = 1000\<rparr>"

definition sample_hooks :: "string executor_hooks" where
  "sample_hooks = \<lparr>xc_estimator = Some sample_estimator,
     xc_downgrader = Some \<lparr>dg_model_fallbacks = (\<lambda>m. Some (m, [\<lparr>mf_model = ''m:b'', mf_at_budget_fraction = None\<rparr>])),
                           dg_with_model = (\<lambda>_ m. Some m)\<rparr>\<rparr>"

definition sample_origin :: claim_origin where
  "sample_origin = \<lparr>co_from_status = None, co_changed_at = 0, co_known = False, co_prev_trace_span = [], co_run_trace = no_trace,
     co_budget = Some 20000000, co_spent = 10000000, co_on_budget = None, co_deadline = None, co_started = None\<rparr>"

definition sample_output :: exec_output where
  "sample_output = \<lparr>ou_data = None,
     ou_usage = Some \<lparr>us_input_tokens = 900, us_output_tokens = 800, us_cache_hit = False\<rparr>, ou_resource = ''m:b'', ou_repair = None\<rparr>"

theorem budget_bounds_spend_witness:
  "\<exists>args. priceAttempt (Some sample_catalog) (sample_step ''a'' StepStatusReady 0) sample_output 26 = Some args
     \<and> 10000000 + ca_cost args \<le> 20000000 \<and> ca_cost args \<noteq> 0"
proof -
  let ?price = "priceAttempt (Some sample_catalog) (sample_step ''a'' StepStatusReady 0) sample_output 26"
  have "case ?price of None \<Rightarrow> False | Some args \<Rightarrow> ca_cost args \<noteq> 0" by code_simp
  then obtain args where args: "?price = Some args" "ca_cost args \<noteq> 0" by (cases ?price) auto
  let ?est = "\<lparr>ce_resource = ''m:b'', ce_input_tokens = 1000, ce_max_tokens = 1000\<rparr>"
  have clear: "cleared ''m:a'' (budgetCheck (Some sample_catalog) PolicyFail sample_hooks None ''m:a'' sample_origin 0 25) = Some ''m:b''"
    by code_simp
  have est: "xc_estimator sample_hooks = Some sample_estimator" "sample_estimator ''m:b'' = Some ?est"
    by (simp_all add: sample_hooks_def sample_estimator_def)
  have nano: "estimateNanoUSD (Some sample_catalog) PolicyFail ?est 25 = Inr 3000000" by code_simp
  have safe: "priceable_estimate sample_catalog PolicyFail ?est 25" by code_simp
  have spent: "0 \<le> co_spent sample_origin" "co_spent sample_origin + 3000000 < 2 ^ 63" "(0::int) \<le> 0" "(0::int) + 3000000 < 2 ^ 63"
    by (simp_all add: sample_origin_def)
  have within: "call_within ?est sample_output" "same_prices sample_catalog (ce_resource ?est) 25 26" by code_simp+
  show ?thesis
    using budget_bounds_spend [OF clear est nano safe spent within args(1)] args by (auto simp: sample_origin_def)
qed

end
