(* ===== verification/Backoff.thy ===== *)
theory Backoff
  imports Resource_Limits Dag_Generate Dag_Retry
begin

text \<open>
  Delays and error classes: \<^verbatim>\<open>internal/engine/backoff.go\<close> and \<^verbatim>\<open>classify.go\<close>, with the standard library's
  \<^verbatim>\<open>time.ParseDuration\<close>.

  Products of durations are exact rationals, truncated where the code converts them to a duration.  The
  jitter source is one draw from the interval from 0 to 1.
\<close>

section \<open>Durations\<close>

datatype duration_error = InvalidDuration | MissingUnit | UnknownUnit string

definition duration_unit :: "string \<Rightarrow> int option" where
  "duration_unit u = map_of [(''ns'', 1), (''us'', 1000), ([CHR 0xC2, CHR 0xB5, CHR ''s''], 1000),
     ([CHR 0xCE, CHR 0xBC, CHR ''s''], 1000), (''ms'', 1000000), (''s'', 1000000000), (''m'', 60000000000),
     (''h'', 3600000000000)] u"

text \<open>A fraction keeps the digits that fit; the scale is that of the digits kept.\<close>

fun leadingFraction :: "string \<Rightarrow> int \<Rightarrow> int \<Rightarrow> int \<times> int" where
  "leadingFraction [] x scale = (x, scale)"
| "leadingFraction (d # ds) x scale =
     (if x > (2 ^ 63 - 1) div 10 \<or> x * 10 + int (digit_value d) > 2 ^ 63 then (x, scale)
      else leadingFraction ds (x * 10 + int (digit_value d)) (scale * 10))"

definition split_fraction :: "string \<Rightarrow> string \<times> string" where
  "split_fraction s = (case s of c # s' \<Rightarrow> if c = CHR ''.'' then (takeWhile digit s', dropWhile digit s') else ([], s) | [] \<Rightarrow> ([], s))"

definition unit_char :: "char \<Rightarrow> bool" where
  "unit_char c \<longleftrightarrow> \<not> (c = CHR ''.'' \<or> digit c)"

text \<open>One number with its unit: the value, and the rest of the text.\<close>

definition duration_part :: "string \<Rightarrow> duration_error + int \<times> string" where
  "duration_part s =
     (let whole = takeWhile digit s; (fraction, s2) = split_fraction (dropWhile digit s);
          u = takeWhile unit_char s2; s3 = dropWhile unit_char s2;
          v = int (digits_value whole); (f, scale) = leadingFraction fraction 0 1
      in if whole = [] \<and> fraction = [] \<or> v > 2 ^ 63 then Inl InvalidDuration
         else if u = [] then Inl MissingUnit
         else case duration_unit u of None \<Rightarrow> Inl (UnknownUnit u) | Some n \<Rightarrow>
           if v > 2 ^ 63 div n then Inl InvalidDuration
           else let v' = v * n + f * n div scale
                in if v' > 2 ^ 63 then Inl InvalidDuration else Inr (v', s3))"

lemma dropWhile_shorter: "takeWhile P s \<noteq> [] \<Longrightarrow> length (dropWhile P s) < length s"
  by (cases s) (auto simp: le_imp_less_Suc length_dropWhile_le split: if_splits)

lemma split_fraction_le: "length (snd (split_fraction s)) \<le> length s"
  by (cases s) (auto simp: split_fraction_def intro: le_SucI length_dropWhile_le)

lemma duration_part_shorter:
  assumes "duration_part s = Inr (v, s')"
  shows "length s' < length s"
proof -
  obtain fraction s2 where s2: "split_fraction (dropWhile digit s) = (fraction, s2)" by fastforce
  then have "takeWhile unit_char s2 \<noteq> []" "s' = dropWhile unit_char s2"
    using assms by (auto simp: duration_part_def Let_def split: if_splits option.splits prod.splits)
  then have "length s' < length s2" using dropWhile_shorter by blast
  also have "length s2 \<le> length (dropWhile digit s)"
    using split_fraction_le [of "dropWhile digit s"] s2 by simp
  also have "\<dots> \<le> length s" by (rule length_dropWhile_le)
  finally show ?thesis .
qed

function duration_parts :: "string \<Rightarrow> int \<Rightarrow> duration_error + int" where
  "duration_parts s d =
     (if s = [] then Inr d
      else andThen (duration_part s) (\<lambda>(v, s'). if d + v > 2 ^ 63 then Inl InvalidDuration else duration_parts s' (d + v)))"
  by pat_completeness auto
termination
  by (relation "measure (length \<circ> fst)") (auto dest: duration_part_shorter)

definition ParseDuration :: "string \<Rightarrow> duration_error + int" where
  "ParseDuration s =
     (let neg = (s \<noteq> [] \<and> hd s = CHR ''-''); s' = (if s \<noteq> [] \<and> (hd s = CHR ''-'' \<or> hd s = CHR ''+'') then tl s else s)
      in if s' = ''0'' then Inr 0
         else if s' = [] then Inl InvalidDuration
         else andThen (duration_parts s' 0) (\<lambda>d.
           if neg then Inr (- d) else if d > 2 ^ 63 - 1 then Inl InvalidDuration else Inr d))"

section \<open>Delays\<close>

datatype backoff_error = BadInitial string | BadCap string | BadOrdinal int

definition trunc :: "rat \<Rightarrow> int" where
  "trunc r = (if r < 0 then - \<lfloor>- r\<rfloor> else \<lfloor>r\<rfloor>)"

definition retryDelay :: "resolved_retry_policy \<Rightarrow> int \<Rightarrow> rat \<Rightarrow> backoff_error + int" where
  "retryDelay policy n draw =
     (case ParseDuration (bo_initial (rr_backoff policy)) of Inl _ \<Rightarrow> Inl (BadInitial (bo_initial (rr_backoff policy)))
      | Inr initial \<Rightarrow>
     (case ParseDuration (bo_cap (rr_backoff policy)) of Inl _ \<Rightarrow> Inl (BadCap (bo_cap (rr_backoff policy)))
      | Inr limit \<Rightarrow>
        if n < 1 then Inl (BadOrdinal n)
        else let (m, e) = bo_multiplier (rr_backoff policy);
                 grown = of_int initial * (of_int m / 10 ^ e) ^ nat (n - 1);
                 computed = (if \<not> grown < of_int limit then of_int limit else grown)
             in Inr (if rr_jitter policy = ''none'' then trunc computed else trunc (draw * computed))))"

definition throttleDelay :: "int \<Rightarrow> int \<Rightarrow> int \<Rightarrow> rat \<Rightarrow> rat \<Rightarrow> int" where
  "throttleDelay retryAfter lo hi jitterFrac draw =
     (let raised = (if retryAfter < lo then lo else retryAfter);
          clamped = (if raised > hi then hi else raised)
      in if jitterFrac \<le> 0 then clamped else clamped + trunc (draw * jitterFrac * of_int clamped))"

section \<open>Error classes\<close>

datatype error_class = ClassTransient | ClassPermanent | ClassTimeout | ClassCancelled | ClassValidationFailed

fun class_name :: "error_class \<Rightarrow> string" where
  "class_name ClassTransient = ''transient''"
| "class_name ClassPermanent = ''permanent''"
| "class_name ClassTimeout = ''timeout''"
| "class_name ClassCancelled = ''cancelled''"
| "class_name ClassValidationFailed = ''validation_failed''"

fun class_outcome :: "error_class \<Rightarrow> attempt_outcome" where
  "class_outcome ClassTransient = AttemptOutcomeTransient"
| "class_outcome ClassPermanent = AttemptOutcomePermanent"
| "class_outcome ClassTimeout = AttemptOutcomeTimeout"
| "class_outcome ClassCancelled = AttemptOutcomeCancelled"
| "class_outcome ClassValidationFailed = AttemptOutcomeValidationFailed"

datatype exec_error = ClassifiedError error_class | ErrUnknownType | ErrInvalidConfig | OtherError

definition classifyFailure :: "exec_error \<Rightarrow> error_class" where
  "classifyFailure err = (case err of
     ClassifiedError c \<Rightarrow> if c = ClassTransient \<or> c = ClassPermanent then c else ClassTransient
   | ErrUnknownType \<Rightarrow> ClassPermanent | ErrInvalidConfig \<Rightarrow> ClassPermanent | OtherError \<Rightarrow> ClassTransient)"

definition misdeclaredClass :: "exec_error \<Rightarrow> error_class option" where
  "misdeclaredClass err = (case err of
     ClassifiedError c \<Rightarrow> if c = ClassTransient \<or> c = ClassPermanent then None else Some c | _ \<Rightarrow> None)"

section \<open>Delays stay within their cap\<close>

lemma trunc_nonneg: "0 \<le> r \<Longrightarrow> 0 \<le> trunc r"
  by (simp add: trunc_def)

lemma trunc_le: "r \<le> of_int c \<Longrightarrow> 0 \<le> r \<Longrightarrow> trunc r \<le> c"
  by (simp add: trunc_def) linarith

text \<open>The delay before jitter.\<close>

definition backoff_delay :: "int \<Rightarrow> int \<Rightarrow> decimal \<Rightarrow> int \<Rightarrow> rat" where
  "backoff_delay initial limit mult n = min (of_int limit) (of_int initial * (of_int (fst mult) / 10 ^ snd mult) ^ nat (n - 1))"

lemma backoff_delay_bounds:
  "0 \<le> initial \<Longrightarrow> 0 \<le> limit \<Longrightarrow> 0 \<le> fst mult \<Longrightarrow> 0 \<le> backoff_delay initial limit mult n \<and> backoff_delay initial limit mult n \<le> of_int limit"
  by (simp add: backoff_delay_def)

lemma backoff_delay_mono:
  assumes "0 \<le> initial" and "10 ^ snd mult \<le> fst mult" and "n \<le> n'"
  shows "backoff_delay initial limit mult n \<le> backoff_delay initial limit mult n'"
proof -
  have "(10 ^ snd mult :: rat) \<le> of_int (fst mult)" using assms(2) by (metis of_int_le_iff of_int_numeral of_int_power)
  then have "(1::rat) \<le> of_int (fst mult) / 10 ^ snd mult" by simp
  then have "(of_int (fst mult) / 10 ^ snd mult) ^ nat (n - 1) \<le> ((of_int (fst mult) / 10 ^ snd mult) :: rat) ^ nat (n' - 1)"
    by (rule power_increasing [rotated]) (use assms(3) in simp)
  then show ?thesis using assms(1) by (simp add: backoff_delay_def min.coboundedI2 mult_left_mono)
qed



end
