(* ===== verification/Blackboard.thy ===== *)
theory Blackboard
  imports Dag_Generate Store_Instantiate "HOL-Library.Product_Lexorder" "HOL-Library.Sublist"
begin

text \<open>
  The run-scoped blackboard: the key, tag, value and pointer rules (\<^verbatim>\<open>internal/blackboard\<close>), the
  versioned append-only table and its compare-and-swap write (\<^verbatim>\<open>internal/store/blackboard.go\<close> and
  its queries), the step-bound handle (\<^verbatim>\<open>internal/blackboard/pgboard\<close>), a step's declarative writes
  (\<^verbatim>\<open>internal/engine/blackboard.go\<close>) and the API's keyset pages (\<^verbatim>\<open>internal/api/blackboard.go\<close>).

  A JSON value is its parse; the numbers of \<open>json\<close> are exact.  The token counter of a step is an
  argument, as it is an interface value in the code.  Keys compare by their characters.
\<close>

section \<open>Keys, tags and values\<close>

definition TagPinned :: string where "TagPinned = ''pinned''"
definition TagThread :: string where "TagThread = ''thread''"
definition DefaultThreadKey :: string where "DefaultThreadKey = ''thread''"
definition MaxKeyLen :: nat where "MaxKeyLen = 128"
definition MaxTags :: nat where "MaxTags = 32"
definition MaxTagLen :: nat where "MaxTagLen = 64"
definition MaxValueBytes :: nat where "MaxValueBytes = 1048576"

datatype board_error =
  InvalidKey string string | InvalidTag string string | ValueTooLarge string nat
| VersionConflict string int int | BoardFenced | BoardStore store_error

definition upper :: "char \<Rightarrow> bool" where
  "upper c \<longleftrightarrow> CHR ''A'' \<le> c \<and> c \<le> CHR ''Z''"

definition keyRe :: "string \<Rightarrow> bool" where
  "keyRe s \<longleftrightarrow> 1 \<le> length s \<and> length s \<le> 128
     \<and> list_all (\<lambda>c. upper c \<or> lower c \<or> digit c \<or> c = CHR ''_'' \<or> c = CHR ''-'') s"

definition tagRe :: "string \<Rightarrow> bool" where
  "tagRe s \<longleftrightarrow> 1 \<le> length s \<and> length s \<le> 64
     \<and> list_all (\<lambda>c. lower c \<or> digit c \<or> c = CHR ''_'' \<or> c = CHR ''.'' \<or> c = CHR '':'' \<or> c = CHR ''-'') s"

definition ValidateKey :: "string \<Rightarrow> board_error + unit" where
  "ValidateKey key =
     (if key = [] then Inl (InvalidKey key ''key is required'')
      else if length key > MaxKeyLen then Inl (InvalidKey key ''too long'')
      else if \<not> keyRe key then Inl (InvalidKey key ''grammar'') else Inr ())"

fun normalize_loop :: "string list \<Rightarrow> string list \<Rightarrow> board_error + string list" where
  "normalize_loop out [] = Inr (sort out)"
| "normalize_loop out (t # ts) =
     (if t = [] then Inl (InvalidTag [] ''empty tag'')
      else if length t > MaxTagLen then Inl (InvalidTag t ''too long'')
      else if \<not> tagRe t then Inl (InvalidTag t ''grammar'')
      else normalize_loop (if t \<in> set out then out else out @ [t]) ts)"

definition NormalizeTags :: "string list \<Rightarrow> board_error + string list" where
  "NormalizeTags tags = (if length tags > MaxTags then Inl (InvalidTag [] ''too many'') else normalize_loop [] tags)"

text \<open>Raw bytes: their number and their parse, \<open>None\<close> when they are no valid JSON.\<close>

datatype raw_bytes = Bytes nat "json option"

definition ValidateValue :: "string \<Rightarrow> raw_bytes \<Rightarrow> board_error + json" where
  "ValidateValue key v = (case v of Bytes n parse \<Rightarrow>
     if n = 0 then Inl (InvalidKey key ''value is required'')
     else if n > MaxValueBytes then Inl (ValueTooLarge key n)
     else case parse of None \<Rightarrow> Inl (InvalidKey key ''value is not valid JSON'') | Some j \<Rightarrow> Inr j)"

section \<open>JSON pointers\<close>

text \<open>\<^verbatim>\<open>strings.Split\<close> at a separator and \<^verbatim>\<open>strings.ReplaceAll\<close> of a two-character string by one character.\<close>

fun split_at_sep :: "char \<Rightarrow> string \<Rightarrow> string list" where
  "split_at_sep sep [] = [[]]"
| "split_at_sep sep (c # cs) =
     (if c = sep then [] # split_at_sep sep cs
      else case split_at_sep sep cs of p # ps \<Rightarrow> (c # p) # ps | [] \<Rightarrow> [[c]])"

fun replaceAll :: "char \<Rightarrow> char \<Rightarrow> char \<Rightarrow> string \<Rightarrow> string" where
  "replaceAll a b r (c # d # cs) = (if c = a \<and> d = b then r # replaceAll a b r cs else c # replaceAll a b r (d # cs))"
| "replaceAll a b r cs = cs"

definition unescape :: "string \<Rightarrow> string" where
  "unescape p = replaceAll CHR ''~'' CHR ''0'' CHR ''~'' (replaceAll CHR ''~'' CHR ''1'' CHR ''/'' p)"

datatype pointer_error = BadPointer | NoKey string | OutOfRange string | CannotDescend string

definition parsePointer :: "string \<Rightarrow> pointer_error + string list" where
  "parsePointer pointer = (case pointer of [] \<Rightarrow> Inl BadPointer
     | c # cs \<Rightarrow> if c \<noteq> CHR ''/'' then Inl BadPointer else Inr (map unescape (split_at_sep CHR ''/'' cs)))"

text \<open>Decoding an object into a Go map keeps the last of equal keys.\<close>

fun descend :: "json \<Rightarrow> string list \<Rightarrow> pointer_error + json" where
  "descend cur [] = Inr cur"
| "descend cur (tok # toks) = (case cur of
     JObj kvs \<Rightarrow> (case map_of (rev kvs) tok of None \<Rightarrow> Inl (NoKey tok) | Some v \<Rightarrow> descend v toks)
   | JArr vs \<Rightarrow> (case atoi tok of None \<Rightarrow> Inl (OutOfRange tok)
       | Some i \<Rightarrow> if i < 0 \<or> i \<ge> int (length vs) then Inl (OutOfRange tok) else descend (vs ! nat i) toks)
   | _ \<Rightarrow> Inl (CannotDescend tok))"

definition ResolvePointer :: "raw \<Rightarrow> string \<Rightarrow> pointer_error + json" where
  "ResolvePointer doc pointer =
     (let d = (case doc of None \<Rightarrow> JNull | Some j \<Rightarrow> j)
      in if pointer = [] then Inr d else andThen (parsePointer pointer) (descend d))"

section \<open>The table\<close>

record bb_entry =
  be_key :: string
  be_version :: int
  be_value :: json
  be_token_count :: int
  be_token_counter :: string
  be_tags :: "string list"
  be_author_step :: "step_id option"
  be_author_attempt :: "int option"
  be_created_at :: time

text \<open>The run's tables and its blackboard entries, in insertion order.\<close>

record boarddb =
  bd_run :: rundb
  bd_entries :: "bb_entry list"

definition versions_of :: "string \<Rightarrow> bb_entry list \<Rightarrow> bb_entry list" where
  "versions_of key es = filter (\<lambda>e. be_key e = key) es"

definition BlackboardHeadVersion :: "string \<Rightarrow> boarddb \<Rightarrow> int" where
  "BlackboardHeadVersion key bd = fold max (map be_version (versions_of key (bd_entries bd))) 0"

definition InsertBlackboardEntry :: "bb_entry \<Rightarrow> boarddb \<Rightarrow> boarddb result" where
  "InsertBlackboardEntry e bd =
     (if be_version e < 1 then Inl (ErrConstraint ''blackboard_entries_version_check'')
      else if be_token_count e < 0 then Inl (ErrConstraint ''blackboard_entries_token_count_check'')
      else if list_ex (\<lambda>f. be_key f = be_key e \<and> be_version f = be_version e) (bd_entries bd)
      then Inl (ErrConstraint ''blackboard_entries_pkey'')
      else Inr (bd\<lparr>bd_entries := bd_entries bd @ [e]\<rparr>))"

definition ListBlackboardHistory :: "string \<Rightarrow> boarddb \<Rightarrow> bb_entry list" where
  "ListBlackboardHistory key bd = sort_key be_version (versions_of key (bd_entries bd))"

definition GetBlackboardHead :: "string \<Rightarrow> boarddb \<Rightarrow> bb_entry option" where
  "GetBlackboardHead key bd = (case ListBlackboardHistory key bd of [] \<Rightarrow> None | es \<Rightarrow> Some (last es))"

definition board_heads :: "boarddb \<Rightarrow> bb_entry list" where
  "board_heads bd = List.map_filter (\<lambda>k. GetBlackboardHead k bd) (sort (remdups (map be_key (bd_entries bd))))"

definition board_match :: "string list \<Rightarrow> string list \<Rightarrow> bb_entry \<Rightarrow> bool" where
  "board_match keys tags e \<longleftrightarrow> (keys = [] \<or> be_key e \<in> set keys) \<and> (tags = [] \<or> set tags \<subseteq> set (be_tags e))"

definition ListBlackboardHeads :: "string list \<Rightarrow> string list \<Rightarrow> boarddb \<Rightarrow> bb_entry list" where
  "ListBlackboardHeads keys tags bd = filter (board_match keys tags) (board_heads bd)"

definition ListBlackboardHeadsPage :: "string \<Rightarrow> string list \<Rightarrow> string list \<Rightarrow> nat \<Rightarrow> boarddb \<Rightarrow> bb_entry list" where
  "ListBlackboardHeadsPage afterKey keys tags rowLimit bd =
     take rowLimit (filter (\<lambda>e. afterKey < be_key e \<and> board_match keys tags e) (board_heads bd))"

definition ListBlackboardVersionsPage :: "string \<times> int \<Rightarrow> string list \<Rightarrow> string list \<Rightarrow> nat \<Rightarrow> boarddb \<Rightarrow> bb_entry list" where
  "ListBlackboardVersionsPage aft keys tags rowLimit bd =
     take rowLimit (filter (\<lambda>e. aft < (be_key e, be_version e))
       (sort_key (\<lambda>e. (be_key e, be_version e)) (filter (board_match keys tags) (bd_entries bd))))"

section \<open>The guarded write\<close>

record put_args =
  pu_key :: string
  pu_value :: raw
  pu_token_count :: int
  pu_token_counter :: string
  pu_tags :: "string list"
  pu_author_step :: step_id
  pu_author_attempt :: int
  pu_expected_version :: "int option"
  pu_fence_claim :: "uuid option"
  pu_now :: time

definition fence_ok :: "put_args \<Rightarrow> rundb \<Rightarrow> unit result" where
  "fence_ok args db = (case pu_fence_claim args of None \<Rightarrow> Inr () | Some c \<Rightarrow>
     if pu_author_step args = [] then Inr ()
     else case getRunStep (pu_author_step args) db of
            None \<Rightarrow> Inl (ErrNotFound ''step'')
          | Some s \<Rightarrow> if s_claim_id s \<noteq> Some c then Inl (ErrBlackboardFenced (pu_author_step args)) else Inr ())"

definition put_row :: "put_args \<Rightarrow> json \<Rightarrow> int \<Rightarrow> bb_entry" where
  "put_row args v version =
     \<lparr>be_key = pu_key args, be_version = version, be_value = v, be_token_count = pu_token_count args,
      be_token_counter = pu_token_counter args, be_tags = pu_tags args,
      be_author_step = (if pu_author_step args = [] then None else Some (pu_author_step args)),
      be_author_attempt = (if pu_author_step args = [] then None else Some (pu_author_attempt args)),
      be_created_at = pu_now args\<rparr>"

definition PutBlackboardEntry :: "put_args \<Rightarrow> boarddb \<Rightarrow> (bb_entry \<times> boarddb) result" where
  "PutBlackboardEntry args bd =
     andThen (transitionQueries (pu_now args)) (\<lambda>_.
     if pu_key args = [] then Inl (ErrBadArgument ''empty Key'') else
     case pu_value args of None \<Rightarrow> Inl (ErrBadArgument ''empty Value'') | Some v \<Rightarrow>
     andThen (lockRun (bd_run bd)) (\<lambda>_.
     andThen (fence_ok args (bd_run bd)) (\<lambda>_.
     let head = BlackboardHeadVersion (pu_key args) bd in
     if (case pu_expected_version args of None \<Rightarrow> False | Some x \<Rightarrow> head \<noteq> x)
     then Inl (ErrBlackboardConflict (pu_key args) (the (pu_expected_version args)) head)
     else let e = put_row args v (head + 1) in
     case InsertBlackboardEntry e bd of
       Inl (ErrConstraint c) \<Rightarrow> if c = ''blackboard_entries_pkey'' then Inl (ErrBlackboardConflict (pu_key args) head (head + 1))
                               else Inl (ErrConstraint c)
     | Inl err \<Rightarrow> Inl err
     | Inr bd1 \<Rightarrow>
         andThen (appendEvent (EvBlackboardUpdated (be_key e) (be_version e) (be_tags e) (be_token_count e)
            (pu_author_step args) (pu_author_attempt args)) (bd_run bd1)) (\<lambda>db2.
         Inr (e, bd1\<lparr>bd_run := db2\<rparr>)))))"

section \<open>The step-bound handle\<close>

definition MaxInt32 :: int where "MaxInt32 = 2147483647"

definition clampInt32 :: "int \<Rightarrow> int" where
  "clampInt32 n = (if n < 0 then 0 else if n > MaxInt32 then MaxInt32 else n)"

record token_counter =
  tc_id :: string
  tc_count :: "json \<Rightarrow> int"

record step_board =
  sb_step_id :: step_id
  sb_attempt :: int
  sb_claim :: uuid
  sb_counter :: token_counter

definition ForStep :: "step_id \<Rightarrow> int \<Rightarrow> uuid \<Rightarrow> token_counter \<Rightarrow> step_board" where
  "ForStep sid attempt claim counter =
     \<lparr>sb_step_id = sid, sb_attempt = (if attempt \<ge> MaxInt32 then MaxInt32 else if attempt \<ge> 1 then attempt else 1),
      sb_claim = claim, sb_counter = counter\<rparr>"

definition translateStoreErr :: "store_error \<Rightarrow> board_error" where
  "translateStoreErr err = (case err of
     ErrBlackboardConflict k x c \<Rightarrow> VersionConflict k x c | ErrBlackboardFenced _ \<Rightarrow> BoardFenced | _ \<Rightarrow> BoardStore err)"

record put_request =
  pr_key :: string
  pr_value :: raw_bytes
  pr_tags :: "string list"
  pr_expected_version :: "int option"

text \<open>\<^verbatim>\<open>uuid.Nil\<close> is \<open>0\<close>.\<close>

definition Put :: "step_board \<Rightarrow> put_request \<Rightarrow> time \<Rightarrow> boarddb \<Rightarrow> board_error + bb_entry \<times> boarddb" where
  "Put sb req now bd =
     andThen (ValidateKey (pr_key req)) (\<lambda>_.
     andThen (NormalizeTags (pr_tags req)) (\<lambda>tags.
     andThen (ValidateValue (pr_key req) (pr_value req)) (\<lambda>v.
     map_sum translateStoreErr id (PutBlackboardEntry
       \<lparr>pu_key = pr_key req, pu_value = Some v, pu_token_count = clampInt32 (tc_count (sb_counter sb) v),
        pu_token_counter = tc_id (sb_counter sb), pu_tags = tags, pu_author_step = sb_step_id sb,
        pu_author_attempt = sb_attempt sb, pu_expected_version = pr_expected_version req,
        pu_fence_claim = (if sb_step_id sb \<noteq> [] \<and> sb_claim sb \<noteq> 0 then Some (sb_claim sb) else None),
        pu_now = now\<rparr> bd))))"

definition Get :: "string \<Rightarrow> boarddb \<Rightarrow> board_error + bb_entry option" where
  "Get key bd = andThen (ValidateKey key) (\<lambda>_. Inr (GetBlackboardHead key bd))"

definition History :: "string \<Rightarrow> boarddb \<Rightarrow> board_error + bb_entry list" where
  "History key bd = andThen (ValidateKey key) (\<lambda>_. Inr (ListBlackboardHistory key bd))"

section \<open>Declarative writes\<close>

record bb_write =
  bw_key :: string
  bw_from :: string
  bw_tags :: "string list"
  bw_pinned :: bool

record planned_write =
  pw_key :: string
  pw_value :: json
  pw_tags :: "string list"

fun planBlackboardWrites :: "bb_write list \<Rightarrow> raw \<Rightarrow> pointer_error + planned_write list" where
  "planBlackboardWrites [] output = Inr []"
| "planBlackboardWrites (w # ws) output =
     andThen (ResolvePointer output (bw_from w)) (\<lambda>v.
     andThen (planBlackboardWrites ws output) (\<lambda>rest.
     Inr (\<lparr>pw_key = bw_key w, pw_value = v, pw_tags = bw_tags w @ (if bw_pinned w then [TagPinned] else [])\<rparr> # rest)))"

definition write_args :: "step_row \<Rightarrow> token_counter \<Rightarrow> time \<Rightarrow> string \<Rightarrow> json \<Rightarrow> string list \<Rightarrow> put_args" where
  "write_args s counter now key v tags =
     \<lparr>pu_key = key, pu_value = Some v, pu_token_count = clampInt32 (tc_count counter v), pu_token_counter = tc_id counter,
      pu_tags = tags, pu_author_step = s_step_id s, pu_author_attempt = s_attempt_count s,
      pu_expected_version = None, pu_fence_claim = None, pu_now = now\<rparr>"

fun applyBlackboardWrites :: "step_row \<Rightarrow> planned_write list \<Rightarrow> token_counter \<Rightarrow> time \<Rightarrow> boarddb \<Rightarrow> board_error + boarddb" where
  "applyBlackboardWrites s [] counter now bd = Inr bd"
| "applyBlackboardWrites s (w # ws) counter now bd =
     andThen (NormalizeTags (pw_tags w)) (\<lambda>tags.
     andThen (map_sum BoardStore id (PutBlackboardEntry (write_args s counter now (pw_key w) (pw_value w) tags) bd)) (\<lambda>(_, bd1).
     applyBlackboardWrites s ws counter now bd1))"

text \<open>The checks a definition's \<^verbatim>\<open>blackboard\<close> block passes at submission.\<close>

definition MaxBlackboardWrites :: nat where "MaxBlackboardWrites = 16"

definition write_ok :: "bb_write \<Rightarrow> bool" where
  "write_ok w \<longleftrightarrow> \<not> isl (ValidateKey (bw_key w)) \<and> (bw_from w = [] \<or> checkJSONPointer (bw_from w))
     \<and> (bw_tags w = [] \<or> \<not> isl (NormalizeTags (bw_tags w)))"

definition checkBlackboard :: "bb_write list \<Rightarrow> bool" where
  "checkBlackboard ws \<longleftrightarrow> ws \<noteq> [] \<and> length ws \<le> MaxBlackboardWrites \<and> list_all write_ok ws \<and> distinct (map bw_key ws)"

section \<open>Keyset pages\<close>

definition blackboardPageLimit :: "string \<Rightarrow> nat option" where
  "blackboardPageLimit s = (if s = [] then Some 200 else case atoi s of None \<Rightarrow> None
     | Some n \<Rightarrow> if n < 1 \<or> n > 1000 then None else Some (nat n))"

text \<open>One page: its rows, and the next cursor when rows remain.\<close>

definition heads_page :: "string list \<Rightarrow> string list \<Rightarrow> nat \<Rightarrow> boarddb \<Rightarrow> string \<Rightarrow> bb_entry list \<times> string option" where
  "heads_page keys tags limit bd afterKey =
     (let rows = ListBlackboardHeadsPage afterKey keys tags (limit + 1) bd
      in if length rows > limit then (take limit rows, Some (be_key (last (take limit rows)))) else (rows, None))"

definition history_page :: "string list \<Rightarrow> string list \<Rightarrow> nat \<Rightarrow> boarddb \<Rightarrow> string \<times> int \<Rightarrow> bb_entry list \<times> (string \<times> int) option" where
  "history_page keys tags limit bd cur =
     (let rows = ListBlackboardVersionsPage cur keys tags (limit + 1) bd
      in if length rows > limit
         then (take limit rows, Some (be_key (last (take limit rows)), be_version (last (take limit rows)))) else (rows, None))"

section \<open>Versions\<close>

definition board_inv :: "boarddb \<Rightarrow> bool" where
  "board_inv bd \<longleftrightarrow> db_inv (bd_run bd)
     \<and> (\<forall>e \<in> set (bd_entries bd). be_key e \<noteq> []
          \<and> map be_version (versions_of (be_key e) (bd_entries bd)) = [1..int (length (versions_of (be_key e) (bd_entries bd)))])"

lemma board_inv_versions:
  "board_inv bd \<Longrightarrow> map be_version (versions_of k (bd_entries bd)) = [1..int (length (versions_of k (bd_entries bd)))]"
proof (cases "versions_of k (bd_entries bd)")
  case (Cons e es)
  then have "e \<in> set (versions_of k (bd_entries bd))" by simp
  then have "e \<in> set (bd_entries bd)" "be_key e = k" by (auto simp: versions_of_def)
  then show "board_inv bd \<Longrightarrow> ?thesis" unfolding board_inv_def by blast
qed simp

lemma fold_max_from: "0 \<le> n \<Longrightarrow> fold max [1..n] 0 = (n::int)"
  using fold_max_upto [of n] by (cases "[1..n]") (auto simp: upto.simps max_def split: if_splits)

lemma head_version: "board_inv bd \<Longrightarrow> BlackboardHeadVersion k bd = int (length (versions_of k (bd_entries bd)))"
  by (simp add: BlackboardHeadVersion_def board_inv_versions fold_max_from)

lemma history_versions: "board_inv bd \<Longrightarrow> ListBlackboardHistory k bd = versions_of k (bd_entries bd)"
  unfolding ListBlackboardHistory_def
  by (rule sort_key_id_if_sorted) (simp add: board_inv_versions sorted_upto)

lemma head_last: "board_inv bd \<Longrightarrow> GetBlackboardHead k bd =
    (if versions_of k (bd_entries bd) = [] then None else Some (last (versions_of k (bd_entries bd))))"
  by (auto simp: GetBlackboardHead_def history_versions split: list.splits)

definition put_allowed :: "put_args \<Rightarrow> boarddb \<Rightarrow> bool" where
  "put_allowed args bd \<longleftrightarrow> pu_now args \<noteq> 0 \<and> pu_key args \<noteq> [] \<and> pu_value args \<noteq> None \<and> fence_ok args (bd_run bd) = Inr ()
     \<and> (pu_expected_version args = None \<or> pu_expected_version args = Some (BlackboardHeadVersion (pu_key args) bd))
     \<and> 0 \<le> pu_token_count args"

definition put_event :: "put_args \<Rightarrow> bb_entry \<Rightarrow> event_payload" where
  "put_event args e = EvBlackboardUpdated (be_key e) (be_version e) (be_tags e) (be_token_count e)
     (pu_author_step args) (pu_author_attempt args)"

lemma put_row_simps [simp]: "be_key (put_row args v n) = pu_key args" "be_version (put_row args v n) = n"
  "be_token_count (put_row args v n) = pu_token_count args"
  by (simp_all add: put_row_def)

lemma InsertBlackboardEntry_next:
  assumes "board_inv bd" and "e = put_row args v (BlackboardHeadVersion (pu_key args) bd + 1)" and "0 \<le> pu_token_count args"
  shows "InsertBlackboardEntry e bd = Inr (bd\<lparr>bd_entries := bd_entries bd @ [e]\<rparr>)"
proof -
  have "be_version f \<noteq> be_version e" if "f \<in> set (bd_entries bd)" "be_key f = pu_key args" for f
  proof -
    have "be_version f \<in> set (map be_version (versions_of (pu_key args) (bd_entries bd)))" using that by (auto simp: versions_of_def)
    then show ?thesis unfolding board_inv_versions [OF assms(1)] by (auto simp: assms(2) head_version [OF assms(1)])
  qed
  then show ?thesis using assms head_version [OF assms(1)] by (auto simp: InsertBlackboardEntry_def list_ex_iff)
qed

lemma PutBlackboardEntry_eq:
  assumes inv: "board_inv bd"
  shows "PutBlackboardEntry args bd = Inr (e, bd') \<longleftrightarrow> put_allowed args bd
    \<and> e = put_row args (the (pu_value args)) (BlackboardHeadVersion (pu_key args) bd + 1)
    \<and> bd' = \<lparr>bd_run = log_event (put_event args e) (bd_run bd), bd_entries = bd_entries bd @ [e]\<rparr>"
proof -
  let ?e = "put_row args (the (pu_value args)) (BlackboardHeadVersion (pu_key args) bd + 1)"
  have db: "db_inv (bd_run bd)" using inv by (simp add: board_inv_def)
  then obtain r where r: "run (bd_run bd) = Some r" by (auto simp: db_inv_def run_inv_def split: option.splits)
  have ins: "InsertBlackboardEntry ?e bd = (if 0 \<le> pu_token_count args then Inr (bd\<lparr>bd_entries := bd_entries bd @ [?e]\<rparr>)
      else Inl (ErrConstraint ''blackboard_entries_token_count_check''))"
    using InsertBlackboardEntry_next [OF inv refl] head_version [OF inv]
    by (auto simp: InsertBlackboardEntry_def)
  show ?thesis
    using appendEvent_inv [OF db] ins r
    by (auto simp: PutBlackboardEntry_def put_allowed_def put_event_def andThen_eq_Inr transitionQueries_def lockRun_def
        lockRun_q_def Let_def split: option.splits if_splits)
qed

lemma versions_of_snoc: "versions_of k (es @ [e]) = versions_of k es @ (if be_key e = k then [e] else [])"
  by (simp add: versions_of_def)

lemma put_inv:
  assumes inv: "board_inv bd" and "PutBlackboardEntry args bd = Inr (e, bd')"
  shows "board_inv bd'"
proof -
  from assms(2) have p: "put_allowed args bd" "e = put_row args (the (pu_value args)) (BlackboardHeadVersion (pu_key args) bd + 1)"
    "bd' = \<lparr>bd_run = log_event (put_event args e) (bd_run bd), bd_entries = bd_entries bd @ [e]\<rparr>"
    by (simp_all add: PutBlackboardEntry_eq [OF inv])
  have "map be_version (versions_of k (bd_entries bd @ [e])) = [1..int (length (versions_of k (bd_entries bd @ [e])))]" for k
    using board_inv_versions [OF inv, of k] upto_snoc [of 1 "int (length (versions_of k (bd_entries bd)))"]
    by (simp add: versions_of_snoc p(2) head_version [OF inv] add.commute)
  moreover have "db_inv (log_event (put_event args e) (bd_run bd))" using inv by (simp add: board_inv_def log_event_inv)
  moreover have "be_key e \<noteq> []" using p(1,2) by (simp add: put_allowed_def)
  ultimately show ?thesis using inv by (auto simp: board_inv_def p(3))
qed


section \<open>Interleavings\<close>

text \<open>Writers of one run and the run's other transactions, one after the other under the run lock.\<close>

inductive board_step :: "boarddb \<Rightarrow> boarddb \<Rightarrow> bool" where
  put: "PutBlackboardEntry args bd = Inr (e, bd') \<Longrightarrow> board_step bd bd'"
| tx: "store_move (bd_run bd) db' \<Longrightarrow> board_step bd (bd\<lparr>bd_run := db'\<rparr>)"

lemma board_step_keeps:
  assumes "board_step bd bd'" and "board_inv bd"
  shows "board_inv bd' \<and> prefix (bd_entries bd) (bd_entries bd')"
  using assms
proof cases
  case (put args e)
  then show ?thesis using put_inv [OF assms(2)] PutBlackboardEntry_eq [OF assms(2)] by auto
next
  case (tx db')
  then show ?thesis using assms(2) db_inv.move_keeps by (auto simp: board_inv_def)
qed

lemma board_steps_keep:
  assumes "board_step\<^sup>*\<^sup>* bd bd'" and "board_inv bd"
  shows "board_inv bd' \<and> prefix (bd_entries bd) (bd_entries bd')"
  using assms
proof (induction rule: rtranclp_induct)
  case (step y z)
  then show ?case using board_step_keeps [of y z] prefix_order.trans by blast
qed simp


section \<open>Following the pages\<close>

text \<open>One keyset page of rows, and a client that follows the cursors.\<close>

definition keyset_page :: "('r \<Rightarrow> 'k::linorder) \<Rightarrow> 'r list \<Rightarrow> nat \<Rightarrow> 'k \<Rightarrow> 'r list \<times> 'k option" where
  "keyset_page key rows limit cur =
     (let got = take (limit + 1) (filter (\<lambda>r. cur < key r) rows)
      in if length got > limit then (take limit got, Some (key (last (take limit got)))) else (got, None))"

fun follow :: "('k \<Rightarrow> 'r list \<times> 'k option) \<Rightarrow> nat \<Rightarrow> 'k \<Rightarrow> 'r list" where
  "follow page 0 cur = []"
| "follow page (Suc n) cur = (case page cur of (rs, None) \<Rightarrow> rs | (rs, Some c) \<Rightarrow> rs @ follow page n c)"

lemma filter_after_last:
  fixes key :: "'r \<Rightarrow> 'k::linorder"
  assumes "sorted_wrt (<) (map key (A @ B))" and "A \<noteq> []"
  shows "filter (\<lambda>r. key (last A) < key r) (A @ B) = B"
proof -
  obtain A' x where A: "A = A' @ [x]" using assms(2) by (cases A rule: rev_cases) auto
  have "\<forall>r \<in> set A. \<not> key (last A) < key r" "\<forall>r \<in> set B. key (last A) < key r"
    using assms(1) unfolding A map_append sorted_wrt_append by auto
  then show ?thesis by simp
qed

locale keyset =
  fixes key :: "'r \<Rightarrow> 'k::linorder" and rows :: "'r list"
  assumes ordered: "sorted_wrt (<) (map key rows)"
begin

lemma rest_after:
  assumes "1 \<le> limit" and "limit < length (filter (\<lambda>r. cur < key r) rows)"
  shows "filter (\<lambda>r. key (last (take limit (filter (\<lambda>r. cur < key r) rows))) < key r) rows
    = drop limit (filter (\<lambda>r. cur < key r) rows)"
proof -
  define rest where "rest = filter (\<lambda>r. cur < key r) rows"
  define A B where "A = take limit rest" and "B = drop limit rest"
  have AB: "A @ B = rest" by (simp add: A_def B_def)
  have ne: "A \<noteq> []" using assms by (auto simp: A_def rest_def)
  have sorted: "sorted_wrt (<) (map key (A @ B))" unfolding AB rest_def using ordered by (simp add: sorted_wrt_map sorted_wrt_filter)
  have "last A \<in> set rest" using ne unfolding AB [symmetric] by simp
  then have "cur < key (last A)" by (simp add: rest_def)
  then have "filter (\<lambda>r. key (last A) < key r) rows = filter (\<lambda>r. key (last A) < key r) rest"
    by (auto simp: rest_def intro!: filter_cong)
  then show ?thesis using filter_after_last [OF sorted ne] unfolding AB by (simp add: A_def B_def flip: rest_def)
qed

lemma follow_all:
  assumes "1 \<le> limit" and "length (filter (\<lambda>r. cur < key r) rows) < fuel"
  shows "follow (keyset_page key rows limit) fuel cur = filter (\<lambda>r. cur < key r) rows"
  using assms(2)
proof (induction fuel arbitrary: cur)
  case (Suc fuel)
  let ?rest = "filter (\<lambda>r. cur < key r) rows"
  show ?case
  proof (cases "limit < length ?rest")
    case True
    then have page: "keyset_page key rows limit cur = (take limit ?rest, Some (key (last (take limit ?rest))))"
      by (simp add: keyset_page_def Let_def min_def)
    have rest: "filter (\<lambda>r. key (last (take limit ?rest)) < key r) rows = drop limit ?rest" by (rule rest_after [OF assms(1) True])
    have "length (drop limit ?rest) < fuel" using Suc.prems True assms(1) by simp
    then have "follow (keyset_page key rows limit) fuel (key (last (take limit ?rest))) = drop limit ?rest"
      by (rule Suc.IH [of "key (last (take limit ?rest))", unfolded rest])
    then show ?thesis by (simp only: follow.simps page prod.case option.case append_take_drop_id)
  next
    case False
    then show ?thesis by (simp add: keyset_page_def Let_def)
  qed
qed simp

end

lemma GetBlackboardHead_key: "k \<in> set (map be_key (bd_entries bd)) \<Longrightarrow> \<exists>e. GetBlackboardHead k bd = Some e \<and> be_key e = k"
proof -
  assume k: "k \<in> set (map be_key (bd_entries bd))"
  then have "versions_of k (bd_entries bd) \<noteq> []" by (auto simp: versions_of_def filter_empty_conv)
  then have ne: "ListBlackboardHistory k bd \<noteq> []" unfolding ListBlackboardHistory_def by (metis length_0_conv length_sort)
  then have "last (ListBlackboardHistory k bd) \<in> set (ListBlackboardHistory k bd)" by simp
  then have "be_key (last (ListBlackboardHistory k bd)) = k" by (simp add: ListBlackboardHistory_def versions_of_def)
  with ne show ?thesis by (auto simp: GetBlackboardHead_def split: list.splits)
qed

lemma board_heads_keys: "map be_key (board_heads bd) = sort (remdups (map be_key (bd_entries bd)))"
proof -
  have "map be_key (List.map_filter (\<lambda>k. GetBlackboardHead k bd) ks) = ks" if "set ks \<subseteq> set (map be_key (bd_entries bd))" for ks
    using that
  proof (induction ks)
    case (Cons k ks)
    then show ?case using GetBlackboardHead_key [of k bd] by (auto simp: List.map_filter_def)
  qed (simp add: List.map_filter_def)
  from this [of "sort (remdups (map be_key (bd_entries bd)))"] show ?thesis by (simp add: board_heads_def)
qed

lemma heads_ordered: "sorted_wrt (<) (map be_key (ListBlackboardHeads keys tags bd))"
proof -
  have "sorted_wrt (<) (map be_key (board_heads bd))" by (simp add: board_heads_keys strict_sorted_iff)
  then show ?thesis by (simp add: ListBlackboardHeads_def sorted_wrt_map sorted_wrt_filter)
qed

interpretation heads: keyset be_key "ListBlackboardHeads keys tags bd" for keys tags bd
  by unfold_locales (rule heads_ordered)

lemma heads_page_keyset: "heads_page keys tags limit bd = keyset_page be_key (ListBlackboardHeads keys tags bd) limit"
  by (rule ext) (simp add: heads_page_def keyset_page_def ListBlackboardHeadsPage_def ListBlackboardHeads_def conj_commute)

abbreviation entry_pos :: "bb_entry \<Rightarrow> string \<times> int" where
  "entry_pos e \<equiv> (be_key e, be_version e)"

definition board_history :: "string list \<Rightarrow> string list \<Rightarrow> boarddb \<Rightarrow> bb_entry list" where
  "board_history keys tags bd = sort_key entry_pos (filter (board_match keys tags) (bd_entries bd))"

lemma positions_distinct:
  assumes "\<And>k. distinct (map be_version (versions_of k es))"
  shows "distinct (map entry_pos es)"
  using assms
proof (induction es)
  case (Cons e es)
  have "distinct (map be_version (versions_of k es))" for k using Cons.prems [of k] by (simp add: versions_of_def split: if_splits)
  moreover have "entry_pos e \<notin> set (map entry_pos es)" using Cons.prems [of "be_key e"] by (auto simp: versions_of_def)
  ultimately show ?case using Cons.IH by simp
qed simp

lemma history_ordered: "board_inv bd \<Longrightarrow> sorted_wrt (<) (map entry_pos (board_history keys tags bd))"
proof -
  assume inv: "board_inv bd"
  have "distinct (map entry_pos (bd_entries bd))" by (rule positions_distinct) (simp add: board_inv_versions [OF inv])
  then have "distinct (map entry_pos (filter (board_match keys tags) (bd_entries bd)))" by (rule distinct_map_filter)
  then show ?thesis by (simp add: board_history_def strict_sorted_iff distinct_map)
qed

lemma history_page_keyset: "history_page keys tags limit bd = keyset_page entry_pos (board_history keys tags bd) limit"
  by (rule ext) (simp add: history_page_def keyset_page_def ListBlackboardVersionsPage_def board_history_def)

lemma blackboardPageLimit_pos: "blackboardPageLimit s = Some limit \<Longrightarrow> 1 \<le> limit"
  by (auto simp: blackboardPageLimit_def split: if_splits option.splits)

text \<open>
  C37.  A client that follows the cursors of the blackboard API from the start reads, for every
  accepted page size, each key's head exactly once in key order, and with \<^verbatim>\<open>history=true\<close> each
  version exactly once in (key, version) order; it needs at most one request more than rows.
\<close>

theorem blackboard_pages_complete:
  assumes "board_inv bd" and "blackboardPageLimit s = Some limit"
  shows "follow (heads_page keys tags limit bd) (Suc (length (board_heads bd))) [] = ListBlackboardHeads keys tags bd
    \<and> follow (history_page keys tags limit bd) (Suc (length (bd_entries bd))) ([], 0) = board_history keys tags bd"
proof
  have limit: "1 \<le> limit" by (rule blackboardPageLimit_pos [OF assms(2)])
  have keys: "be_key e \<noteq> []" if "e \<in> set (bd_entries bd)" for e using assms(1) that by (auto simp: board_inv_def)
  have pos: "[] < be_key e" if "e \<in> set (ListBlackboardHeads keys tags bd)" for e
  proof -
    have "be_key e \<in> set (map be_key (board_heads bd))" using that by (auto simp: ListBlackboardHeads_def)
    then have "be_key e \<noteq> []" unfolding board_heads_keys by (auto dest: keys)
    then show ?thesis by (cases "be_key e") simp_all
  qed
  then have all: "filter (\<lambda>e. [] < be_key e) (ListBlackboardHeads keys tags bd) = ListBlackboardHeads keys tags bd" by simp
  have "length (ListBlackboardHeads keys tags bd) < Suc (length (board_heads bd))" by (simp add: ListBlackboardHeads_def le_imp_less_Suc)
  then show "follow (heads_page keys tags limit bd) (Suc (length (board_heads bd))) [] = ListBlackboardHeads keys tags bd"
    unfolding heads_page_keyset by (simp add: heads.follow_all [OF limit] all del: follow.simps)
  have "([], 0) < entry_pos e" if "e \<in> set (board_history keys tags bd)" for e
    using keys [of e] that by (cases "be_key e") (auto simp: board_history_def less_prod_def)
  then have all': "filter (\<lambda>e. ([], 0) < entry_pos e) (board_history keys tags bd) = board_history keys tags bd" by simp
  have "length (board_history keys tags bd) < Suc (length (bd_entries bd))" by (simp add: board_history_def le_imp_less_Suc)
  then show "follow (history_page keys tags limit bd) (Suc (length (bd_entries bd))) ([], 0) = board_history keys tags bd"
    unfolding history_page_keyset
    using keyset.follow_all [OF keyset.intro [OF history_ordered [OF assms(1), of keys tags]] limit,
        where cur = "([], 0)" and fuel = "Suc (length (bd_entries bd))"]
    by (simp only: all')
qed

section \<open>Pointers\<close>

text \<open>RFC 6901 escaping, the inverse a pointer's author applies to a token.\<close>

fun escape :: "string \<Rightarrow> string" where
  "escape [] = []"
| "escape (c # cs) = (if c = CHR ''~'' then ''~0'' else if c = CHR ''/'' then ''~1'' else [c]) @ escape cs"

definition pointer_of :: "string list \<Rightarrow> string" where
  "pointer_of toks = concat (map (\<lambda>t. CHR ''/'' # escape t) toks)"

fun half_escape :: "string \<Rightarrow> string" where
  "half_escape [] = []"
| "half_escape (c # cs) = (if c = CHR ''~'' then ''~0'' else [c]) @ half_escape cs"

lemma escape_no_sep: "CHR ''/'' \<notin> set (escape t)"
  by (induction t) auto

lemma replaceAll_escape: "replaceAll CHR ''~'' CHR ''1'' CHR ''/'' (escape t) = half_escape t"
proof (induction t)
  case (Cons c cs)
  have "replaceAll CHR ''~'' CHR ''1'' CHR ''/'' (c # escape cs) = c # half_escape cs" if "c \<noteq> CHR ''~''"
    using that Cons by (cases "escape cs") auto
  moreover have "replaceAll CHR ''~'' CHR ''1'' CHR ''/'' (CHR ''0'' # escape cs) = CHR ''0'' # half_escape cs"
    using Cons by (cases "escape cs") auto
  ultimately show ?case using Cons by simp
qed simp

lemma replaceAll_half: "replaceAll CHR ''~'' CHR ''0'' CHR ''~'' (half_escape t) = t"
proof (induction t)
  case (Cons c cs)
  have "replaceAll CHR ''~'' CHR ''0'' CHR ''~'' (c # half_escape cs) = c # cs" if "c \<noteq> CHR ''~''"
    using that Cons by (cases "half_escape cs") auto
  then show ?case using Cons by simp
qed simp

lemma split_sep: "CHR ''/'' \<notin> set p \<Longrightarrow> split_at_sep CHR ''/'' (p @ CHR ''/'' # q) = p # split_at_sep CHR ''/'' q"
  by (induction p) auto

lemma split_plain: "CHR ''/'' \<notin> set p \<Longrightarrow> split_at_sep CHR ''/'' p = [p]"
  by (induction p) auto

lemma split_tokens: "split_at_sep CHR ''/'' (escape t @ pointer_of toks) = escape t # map escape toks"
proof (induction toks arbitrary: t)
  case Nil
  then show ?case by (simp add: pointer_of_def split_plain escape_no_sep)
next
  case (Cons u toks)
  have "escape t @ pointer_of (u # toks) = escape t @ CHR ''/'' # (escape u @ pointer_of toks)" by (simp add: pointer_of_def)
  then show ?case using Cons.IH [of u] by (simp add: split_sep escape_no_sep)
qed

text \<open>
  Pointers round-trip: parsing the escaped form of any non-empty list of tokens gives the
  tokens back, also those that contain slashes and tildes or are empty, and so resolving it
  descends along exactly these tokens.
\<close>

theorem pointer_roundtrip:
  assumes "toks \<noteq> []"
  shows "parsePointer (pointer_of toks) = Inr toks \<and> ResolvePointer (Some doc) (pointer_of toks) = descend doc toks"
proof -
  obtain t ts where toks: "toks = t # ts" using assms by (cases toks) simp_all
  have "pointer_of toks = CHR ''/'' # (escape t @ pointer_of ts)" by (simp add: toks pointer_of_def)
  moreover have "map unescape (escape t # map escape ts) = toks"
    by (simp add: toks unescape_def replaceAll_escape replaceAll_half map_idI)
  ultimately show ?thesis by (simp add: parsePointer_def ResolvePointer_def Let_def split_tokens del: split_at_sep.simps)
qed

section \<open>Tags at the limit\<close>

lemma NormalizeTags_length: "NormalizeTags tags = Inr out \<Longrightarrow> length tags \<le> MaxTags"
  by (auto simp: NormalizeTags_def split: if_splits)


section \<open>A sample board\<close>

definition sample_put :: "int option \<Rightarrow> put_args" where
  "sample_put v = \<lparr>pu_key = ''plan'', pu_value = Some (JStr ''draft''), pu_token_count = 2, pu_token_counter = ''fallback/chars4@1'',
     pu_tags = [], pu_author_step = [], pu_author_attempt = 0, pu_expected_version = v, pu_fence_claim = None, pu_now = 5\<rparr>"

definition sample_entry :: "string \<Rightarrow> int \<Rightarrow> bb_entry" where
  "sample_entry k n = put_row (sample_put None) (JNum n) n\<lparr>be_key := k\<rparr>"

definition sample_board :: boarddb where
  "sample_board = \<lparr>bd_run = sample_db, bd_entries = [sample_entry ''plan'' 1, sample_entry ''notes'' 1, sample_entry ''plan'' 2]\<rparr>"

lemma sample_board_inv: "board_inv sample_board"
proof -
  have "bd_run sample_board = sample_db" by (simp add: sample_board_def)
  moreover have "\<forall>e \<in> set (bd_entries sample_board). be_key e \<noteq> [] \<and> map be_version (versions_of (be_key e) (bd_entries sample_board))
      = [1..int (length (versions_of (be_key e) (bd_entries sample_board)))]" by code_simp
  ultimately show ?thesis using sample_db_inv by (simp add: board_inv_def)
qed

lemma sample_put_allowed: "put_allowed (sample_put (Some 2)) sample_board"
  by code_simp



theorem blackboard_pages_complete_witness:
  "follow (heads_page [] [] 1 sample_board) (Suc (length (board_heads sample_board))) [] = [sample_entry ''notes'' 1, sample_entry ''plan'' 2]"
proof -
  have "blackboardPageLimit ''1'' = Some 1" by code_simp
  moreover have "ListBlackboardHeads [] [] sample_board = [sample_entry ''notes'' 1, sample_entry ''plan'' 2]" by code_simp
  ultimately show ?thesis using blackboard_pages_complete [OF sample_board_inv, of "''1''" 1 "[]" "[]"] by simp
qed

theorem pointer_roundtrip_witness: "ResolvePointer (Some (JObj [(''a/b'', JArr [JNull, JNum 7])])) ''/a~1b/1'' = Inr (JNum 7)"
proof -
  have "pointer_of [''a/b'', ''1''] = ''/a~1b/1''" by code_simp
  moreover have "descend (JObj [(''a/b'', JArr [JNull, JNum 7])]) [''a/b'', ''1''] = Inr (JNum 7)" by code_simp
  ultimately show ?thesis using pointer_roundtrip [of "[''a/b'', ''1'']" "JObj [(''a/b'', JArr [JNull, JNum 7])]"] by simp
qed

definition many_tags :: bb_write where
  "many_tags = \<lparr>bw_key = ''plan'', bw_from = [], bw_tags = map (\<lambda>i. CHR ''t'' # itoa i) [0..<32], bw_pinned = True\<rparr>"


end
