(* ===== verification/Store_Total.thy ===== *)
theory Store_Total
  imports Store_Instantiate
begin

text \<open>
  The transitions the engine's fan-out performs, in closed form: on tables that satisfy the
  invariant, a transition whose compare-and-set guard holds returns without error, and the
  internal errors of the code (a missing attempt row, a missing run, a dependency counter
  that would go negative, a duplicate event number) do not occur.
\<close>

section \<open>Reading the tables back\<close>

lemma getRunStep_replace:
  assumes "getRunStep sid db = Some old" and "s_step_id new = sid"
    and "steps db' = replace_row s_step_id sid new (steps db)"
  shows "getRunStep sid' db' = (if sid' = sid then Some new else getRunStep sid' db)"
proof -
  have "sid \<in> s_step_id ` set (steps db)" using assms(1) getRunStep_id getRunStep_in_steps by blast
  with assms(2) show ?thesis
    by (simp add: getRunStep_def assms(3) step_rows.row_at_replace_same step_rows.row_at_replace_other)
qed

lemma getRunStep_cong: "steps db' = steps db \<Longrightarrow> getRunStep sid db' = getRunStep sid db"
  by (simp add: getRunStep_def)

lemma getRunEdge_replace:
  assumes "getRunEdge k db = Some old" and "e_ordinal new = k"
    and "edges db' = replace_row e_ordinal k new (edges db)"
  shows "getRunEdge k' db' = (if k' = k then Some new else getRunEdge k' db)"
proof -
  have "k \<in> e_ordinal ` set (edges db)" using assms(1) by (auto simp: getRunEdge_def dest: edge_rows.row_at_SomeD)
  with assms(2) show ?thesis
    by (simp add: getRunEdge_def assms(3) edge_rows.row_at_replace_same edge_rows.row_at_replace_other)
qed

lemma getRunEdge_cong: "edges db' = edges db \<Longrightarrow> getRunEdge k db' = getRunEdge k db"
  by (simp add: getRunEdge_def)

lemma in_steps_iff:
  assumes "db_inv db"
  shows "s \<in> set (steps db) \<longleftrightarrow> getRunStep (s_step_id s) db = Some s"
  using assms step_rows.row_at_unique step_rows.row_at_SomeD
  unfolding db_inv_def steps_inv_def getRunStep_def by blast

lemma in_edges_iff:
  assumes "db_inv db"
  shows "e \<in> set (edges db) \<longleftrightarrow> getRunEdge (e_ordinal e) db = Some e"
  using assms edge_rows.row_at_unique edge_rows.row_at_SomeD
  unfolding db_inv_def edges_ok_def getRunEdge_def by blast

lemma edge_ends:
  assumes "db_inv db" and "getRunEdge k db = Some e"
  shows "\<exists>s. getRunStep (e_from_step e) db = Some s" and "\<exists>s. getRunStep (e_to_step e) db = Some s"
proof -
  have "e \<in> set (edges db)" using assms(2) by (auto simp: getRunEdge_def dest: edge_rows.row_at_SomeD)
  then have "e_from_step e \<in> s_step_id ` set (steps db)" "e_to_step e \<in> s_step_id ` set (steps db)"
    using assms(1) by (auto simp: db_inv_def edges_ok_def)
  then show "\<exists>s. getRunStep (e_from_step e) db = Some s" "\<exists>s. getRunStep (e_to_step e) db = Some s"
    unfolding getRunStep_def by (metis not_Some_eq step_rows.row_at_None)+
qed

lemma db_inv_run_log:
  assumes "db_inv db"
  obtains r where "run db = Some r" and "log_ok r (events db)"
  using assms by (auto simp: db_inv_def run_inv_def split: option.splits)

section \<open>Totality\<close>

abbreviation resolution_of :: "bool \<Rightarrow> edge_resolution" where
  "resolution_of fired \<equiv> if fired then EdgeResolutionFired else EdgeResolutionSkipped"

abbreviation count_edge :: "bool \<Rightarrow> time \<Rightarrow> step_row \<Rightarrow> step_row" where
  "count_edge fired now s \<equiv> s\<lparr>s_remaining_deps := s_remaining_deps s - 1,
     s_fired_deps := s_fired_deps s + (if fired then 1 else 0), s_updated_at := now\<rparr>"

lemma unresolved_counts:
  assumes "db_inv db" and "getRunEdge k db = Some e" and "e_edge_type e = EdgeTypeNormal"
    and "e_resolution e = EdgeResolutionUnresolved" and "getRunStep (e_to_step e) db = Some t"
  shows "s_remaining_deps t > 0"
proof -
  have "e \<in> set (edges db)" using assms(2) by (auto simp: getRunEdge_def dest: edge_rows.row_at_SomeD)
  with assms(3,4) have "filter (\<lambda>x. e_to_step x = e_to_step e \<and> e_edge_type x = EdgeTypeNormal
      \<and> e_resolution x = EdgeResolutionUnresolved) (edges db) \<noteq> []"
    by (auto simp: filter_empty_conv)
  moreover have "deps_ok (edges db) t"
    using assms(1) getRunStep_in_steps [OF assms(5)] by (simp add: db_inv_def steps_inv_def)
  ultimately show ?thesis using getRunStep_id [OF assms(5)] by (simp add: deps_ok_def in_edges_def)
qed

lemma ResolveEdge_total:
  assumes "db_inv db" and "now \<noteq> 0" and "getRunEdge k db = Some e" and "e_edge_type e = EdgeTypeNormal"
    and "e_resolution e = EdgeResolutionUnresolved" and "getRunStep (e_to_step e) db = Some t"
  shows "ResolveEdge k fired now db = Inr (\<lparr>re_resolved = True, re_edge = e\<lparr>e_resolution := resolution_of fired\<rparr>,
      re_to_step = Some (count_edge fired now t)\<rparr>,
      db\<lparr>edges := replace_row e_ordinal k (e\<lparr>e_resolution := resolution_of fired\<rparr>) (edges db),
         steps := replace_row s_step_id (e_to_step e) (count_edge fired now t) (steps db)\<rparr>)"
proof -
  obtain r where "run db = Some r" using db_inv_run_log [OF assms(1)] by blast
  moreover have "getRunStep (e_to_step e) (db\<lparr>edges := es\<rparr>) = Some t" for es
    using assms(6) by (simp add: getRunStep_def)
  ultimately show ?thesis
    using assms(2-5) unresolved_counts [OF assms(1,3,4,5,6)]
    by (simp add: ResolveEdge_def transitionQueries_def lockRun_def lockRun_q_def resolveRunEdge_def
        applyEdgeResolution_def cas_step_def Let_def)
qed

lemma ReadyStep_total:
  assumes "db_inv db" and "now \<noteq> 0" and "getRunStep sid db = Some s" and "s_status s = StepStatusPending"
    and "s_fired_deps s \<ge> 1" and "s_remaining_deps s = 0 \<or> joinAny"
  shows "ReadyStep sid joinAny now db = Inr (s\<lparr>s_status := StepStatusReady, s_updated_at := now\<rparr>,
      log_event (EvStepReady sid)
        (db\<lparr>steps := replace_row s_step_id sid (s\<lparr>s_status := StepStatusReady, s_updated_at := now\<rparr>) (steps db)\<rparr>))"
proof -
  obtain r where "run db = Some r" "log_ok r (events db)" using db_inv_run_log [OF assms(1)] .
  with assms(2-6) show ?thesis
    by (simp add: ReadyStep_def transitionQueries_def lockRun_def lockRun_q_def readyRunStep_def cas_step_def
        appendEvent_total)
qed

lemma SkipStep_total:
  assumes "db_inv db" and "now \<noteq> 0" and "getRunStep sid db = Some s" and "s_status s = StepStatusPending"
    and "s_fired_deps s = 0" and "s_remaining_deps s = 0" and "run db = Some r"
  shows "SkipStep sid now db = Inr (s\<lparr>s_status := StepStatusSkipped, s_updated_at := now\<rparr>,
      log_event (EvStepSkipped sid)
        (db\<lparr>steps := replace_row s_step_id sid (s\<lparr>s_status := StepStatusSkipped, s_updated_at := now\<rparr>) (steps db),
            run := Some (add_delta (no_delta\<lparr>d_skipped := 1\<rparr>) r)\<rparr>))"
proof -
  have "log_ok r (events db)" using assms(1,7) by (simp add: db_inv_def run_inv_def)
  then have "log_ok (add_delta (no_delta\<lparr>d_skipped := 1\<rparr>) r) (events db)"
    by (simp add: log_ok_def add_delta_def)
  with assms(2-7) show ?thesis
    by (simp add: SkipStep_def transitionQueries_def lockRun_def lockRun_q_def skipRunStep_def cas_step_def
        bumpCounters_def bumpRunStepCounters_def appendEvent_total)
qed

end
