(* ===== verification/Store_Progress.thy ===== *)
theory Store_Progress
  imports Store_Total "HOL-Library.Sublist"
begin

text \<open>
  When a transition returns.  On tables that satisfy the invariant every step transition
  returns exactly when its compare-and-set guard holds: the attempt to close exists, the
  event number is free.  The completions, which present a claim, share one contract, the
  locale \<open>fenced_completion\<close>; the claims, cancels and dead-letter resets are stated one by
  one.  The last part shows that the records of a run's history are append-only.
\<close>

section \<open>The plumbing returns\<close>

definition closed_attempts :: "step_row \<Rightarrow> attempt_outcome \<Rightarrow> raw \<Rightarrow> raw \<Rightarrow> raw \<Rightarrow> raw \<Rightarrow> time
    \<Rightarrow> attempt_row list \<Rightarrow> attempt_row list" where
  "closed_attempts step out err usage verdict repair now ats =
     map (\<lambda>a. if at_step_id a = s_step_id step \<and> at_attempt_no a = s_attempt_count step
              then close_attempt out err usage verdict repair now a else a) ats"

lemma finishAttempt_total:
  "length (filter (\<lambda>a. at_step_id a = s_step_id step \<and> at_attempt_no a = s_attempt_count step) (attempts db)) = 1
     \<Longrightarrow> finishAttempt step out err usage verdict repair now db =
          Inr (db\<lparr>attempts := closed_attempts step out err usage verdict repair now (attempts db)\<rparr>)"
  by (simp add: finishAttempt_def finishStepAttempt_def Let_def closed_attempts_def)

lemma open_attempt_unique:
  assumes "db_inv db" and "getRunStep sid db = Some s" and "attempt_open (s_status s)"
  shows "length (filter (\<lambda>a. at_step_id a = sid \<and> at_attempt_no a = s_attempt_count s) (attempts db)) = 1"
proof -
  let ?as = "attempts_of sid (attempts db)"
  have ok: "attempts_ok (attempts db) s" using assms(1) getRunStep_in_steps [OF assms(2)]
    by (simp add: db_inv_def steps_inv_def)
  then have nos: "map at_attempt_no ?as = [1..s_attempt_count s]" and pos: "1 \<le> s_attempt_count s"
    using assms(3) getRunStep_id [OF assms(2)] by (simp_all add: attempts_ok_def)
  have "length (filter (\<lambda>n. n = s_attempt_count s) (map at_attempt_no ?as)) = 1"
    unfolding nos using pos upto_rec2 [of 1 "s_attempt_count s"] by (simp add: filter_empty_conv)
  moreover have "filter (\<lambda>n. n = s_attempt_count s) (map at_attempt_no ?as) =
      map at_attempt_no (filter (\<lambda>a. at_step_id a = sid \<and> at_attempt_no a = s_attempt_count s) (attempts db))"
    by (simp add: attempts_of_def filter_map o_def conj_commute)
  ultimately show ?thesis by simp
qed

lemma log_ok_add_delta [simp]: "log_ok (add_delta d r) es = log_ok r es"
  by (simp add: log_ok_def add_delta_def)

lemmas transition_plumbing = transitionQueries_def lockRun_def lockRun_q_def cas_step_def finishAttempt_total
  bumpCounters_def bumpRunStepCounters_def appendEvent_total createDeadLetter_def dead_letter_class_ok_def Let_def

section \<open>The fence\<close>

text \<open>
  What a completion promises: under the current claim of a running step it returns and moves
  the step to its target status, and under any other claim it is refused with the typed conflict.
\<close>

locale fenced_completion =
  fixes complete :: "step_id \<Rightarrow> uuid \<Rightarrow> time \<Rightarrow> rundb \<Rightarrow> (step_row \<times> rundb) result" and target :: step_status
  assumes returns: "db_inv db \<Longrightarrow> now \<noteq> 0 \<Longrightarrow> getRunStep sid db = Some s \<Longrightarrow> running_under c s
      \<Longrightarrow> \<exists>s' db'. complete sid c now db = Inr (s', db') \<and> s_status s' = target"
    and refuses: "db_inv db \<Longrightarrow> now \<noteq> 0 \<Longrightarrow> getRunStep sid db = Some s \<Longrightarrow> \<not> running_under c s
      \<Longrightarrow> complete sid c now db = Inl (stepConflict sid StepStatusRunning target (Some c) db)"
    and moves: "refines_step sid (complete sid c now db) db"
    and leaves: "target \<noteq> StepStatusRunning"
begin

lemma completes_iff:
  assumes "db_inv db" and "now \<noteq> 0" and "getRunStep sid db = Some s"
  shows "(\<exists>s' db'. complete sid c now db = Inr (s', db')) \<longleftrightarrow> running_under c s"
  using returns [OF assms] refuses [OF assms] by (metis Inl_Inr_False)

lemma stale_claim_refused:
  assumes "db_inv db" and "now \<noteq> 0" and "getRunStep sid db = Some s" and "s_status s = StepStatusRunning"
    and "s_claim_id s = Some c'" and "c' \<noteq> c"
  shows "complete sid c now db = Inl (transitionError (Some sid) (StepSt StepStatusRunning) (StepSt target)
           ConflictClaimMismatch (Some c) (Some c'))"
  using refuses [OF assms(1-3), of c] assms(3-6) by (simp add: stepConflict_def)

lemma completed_once:
  assumes "db_inv db" and "now \<noteq> 0" and "complete sid c now db = Inr (s', db')" and "now' \<noteq> 0"
  shows "complete sid c' now' db' = Inl (transitionError (Some sid) (StepSt target) (StepSt target)
           ConflictWrongStatus (Some c') (s_claim_id s'))"
proof -
  obtain old where old: "getRunStep sid db = Some old" "step_move old s' db db'"
    using moves [of sid c now db] assms(3) by (auto simp: refines_step_def)
  have id: "s_step_id s' = sid" "s_step_id old = sid"
    using old getRunStep_id [OF old(1)] by (auto simp: step_move_def row_move_def same_step_identity_def)
  have get: "getRunStep sid db' = Some s'"
    using getRunStep_replace [OF old(1), of s' db' sid] old(2) id by (simp add: step_move_def)
  have "running_under c old" using completes_iff [OF assms(1,2) old(1)] assms(3) by blast
  then have st: "s_status s' = target" using returns [OF assms(1,2) old(1)] assms(3) by auto
  have "db_inv db'" using db_inv.refines_keeps [OF refines_step_refines [OF moves]] assms(1,3) by blast
  then show ?thesis using refuses [OF _ assms(4) get] st leaves get by (simp add: stepConflict_def)
qed

end

text \<open>What a transition that closes an attempt finds in the tables.\<close>

definition closing_env :: "step_id \<Rightarrow> step_row \<Rightarrow> rundb \<Rightarrow> run_row \<Rightarrow> bool" where
  "closing_env sid s db r \<longleftrightarrow> run db = Some r \<and> log_ok r (events db) \<and> s_step_id s = sid \<and> getRunStep sid db = Some s
     \<and> length (filter (\<lambda>a. at_step_id a = sid \<and> at_attempt_no a = s_attempt_count s) (attempts db)) = 1"

lemma closing_envI:
  assumes "db_inv db" and "getRunStep sid db = Some s" and "attempt_open (s_status s)"
  obtains r where "closing_env sid s db r"
  using db_inv_run_log [OF assms(1)] open_attempt_unique [OF assms] getRunStep_id [OF assms(2)] assms(2)
  unfolding closing_env_def by blast

lemma fenced_completionI:
  assumes "\<And>db now sid s c r. now \<noteq> 0 \<Longrightarrow> closing_env sid s db r \<Longrightarrow> running_under c s
      \<Longrightarrow> \<exists>s' db'. complete sid c now db = Inr (s', db') \<and> s_status s' = target"
    and "\<And>db now sid s c r. now \<noteq> 0 \<Longrightarrow> run db = Some r \<Longrightarrow> getRunStep sid db = Some s \<Longrightarrow> \<not> running_under c s
      \<Longrightarrow> complete sid c now db = Inl (stepConflict sid StepStatusRunning target (Some c) db)"
    and "\<And>sid c now db. refines_step sid (complete sid c now db) db" and "target \<noteq> StepStatusRunning"
  shows "fenced_completion complete target"
proof
  fix db :: rundb and now :: time and sid :: step_id and s :: step_row and c :: uuid
  assume h: "db_inv db" "now \<noteq> 0" "getRunStep sid db = Some s"
  { assume under: "running_under c s"
    obtain r where "closing_env sid s db r" using h(1,3) by (rule closing_envI) (use under in \<open>simp add: attempt_open_def\<close>)
    with h(2) under show "\<exists>s' db'. complete sid c now db = Inr (s', db') \<and> s_status s' = target"
      using assms(1) by blast }
  { obtain r where "run db = Some r" using h(1) by (rule db_inv_run_log)
    moreover assume "\<not> running_under c s"
    ultimately show "complete sid c now db = Inl (stepConflict sid StepStatusRunning target (Some c) db)"
      using assms(2) h by blast }
qed (use assms in auto)

lemmas fence_simps = closing_env_def transition_plumbing step_queries

interpretation succeed: fenced_completion "\<lambda>sid c. SucceedStep sid c out usage verdict repair" StepStatusSucceeded
  for out usage verdict repair
  by (rule fenced_completionI) (simp_all add: SucceedStep_refines, auto simp: SucceedStep_def fence_simps)

interpretation collect: fenced_completion "\<lambda>sid c. CollectFailStep sid c (Some cls) out err usage" StepStatusCollected
  for cls out err usage
  by (rule fenced_completionI) (simp_all add: CollectFailStep_refines, auto simp: CollectFailStep_def fence_simps)

interpretation cancel_running: fenced_completion "\<lambda>sid c. CancelRunningStep sid c (Some why) err" StepStatusCancelled
  for why err
  by (rule fenced_completionI) (simp_all add: CancelRunningStep_refines, auto simp: CancelRunningStep_def fence_simps)

interpretation takeover: fenced_completion "\<lambda>sid c. TakeoverStep sid c" StepStatusReady
  by (rule fenced_completionI) (simp_all add: TakeoverStep_refines, auto simp: TakeoverStep_def fence_simps)

text \<open>The completions whose other arguments are checked first.\<close>

lemma DeadLetterStep_fenced:
  "src \<in> {DeadLetterSourceRetriesExhausted, DeadLetterSourcePermanent} \<Longrightarrow> dead_letter_class_ok (Some cls)
     \<Longrightarrow> fenced_completion (\<lambda>sid c. DeadLetterStep sid c src (Some cls) err usage verdict repair) StepStatusDeadLettered"
  by (rule fenced_completionI) (simp_all add: DeadLetterStep_refines, auto simp: DeadLetterStep_def fence_simps)

lemma RetryStep_fenced:
  "cls \<in> {AttemptOutcomeTransient, AttemptOutcomeTimeout} \<Longrightarrow> next \<noteq> 0
     \<Longrightarrow> fenced_completion (\<lambda>sid c. RetryStep sid c (Some cls) err usage next) StepStatusRetrying"
  by (rule fenced_completionI) (simp_all add: RetryStep_refines, auto simp: RetryStep_def fence_simps)

lemma ThrottleStep_fenced:
  "next \<noteq> 0
     \<Longrightarrow> fenced_completion (\<lambda>sid c. ThrottleStep sid c resource bucket retryAfter next) StepStatusRetrying"
  by (rule fenced_completionI) (simp_all add: ThrottleStep_refines, auto simp: ThrottleStep_def fence_simps)

lemma SemanticRetryStep_fenced:
  "next \<noteq> 0
     \<Longrightarrow> fenced_completion (\<lambda>sid c. SemanticRetryStep sid c err usage verdict repair feedback k m n next) StepStatusRetrying"
  by (rule fenced_completionI) (simp_all add: SemanticRetryStep_refines, auto simp: SemanticRetryStep_def fence_simps)

section \<open>Transitions that only look at the status\<close>

definition same_state :: "rundb \<Rightarrow> rundb \<Rightarrow> bool" where
  "same_state db0 db \<longleftrightarrow> (\<exists>r0 r. run db0 = Some r0 \<and> run db = Some r \<and> same_run_state r0 r \<and> same_run_identity r0 r)"

text \<open>
  The steps in \<open>K\<close> move to status \<open>st\<close> and nothing else of the graph or of the run's state
  changes.
\<close>

definition moved_row :: "step_status \<Rightarrow> step_row \<Rightarrow> step_row \<Rightarrow> bool" where
  "moved_row st old new \<longleftrightarrow> same_step_identity old new \<and> s_remaining_deps new = s_remaining_deps old
     \<and> s_fired_deps new = s_fired_deps old \<and> s_status new = st"

definition steps_to :: "step_id set \<Rightarrow> step_status \<Rightarrow> rundb \<Rightarrow> rundb \<Rightarrow> bool" where
  "steps_to K st db db' \<longleftrightarrow> db_inv db' \<and> edges db' = edges db \<and> outbox db' = outbox db
     \<and> map s_step_id (steps db') = map s_step_id (steps db) \<and> same_state db db'
     \<and> (\<forall>sid. sid \<notin> K \<longrightarrow> getRunStep sid db' = getRunStep sid db)
     \<and> (\<forall>sid \<in> K. \<exists>old new. getRunStep sid db = Some old \<and> getRunStep sid db' = Some new \<and> moved_row st old new)"

lemma same_state_refl: "db_inv db \<Longrightarrow> same_state db db"
  by (auto elim!: db_inv_run_log simp: same_state_def same_run_state_def same_run_identity_def)

lemma same_state_trans: "same_state a b \<Longrightarrow> same_state b c \<Longrightarrow> same_state a c"
  by (force simp: same_state_def same_run_state_def same_run_identity_def)

lemma steps_to_empty: "db_inv db \<Longrightarrow> steps_to {} st db db"
  by (simp add: steps_to_def same_state_refl)

lemma steps_to_Un:
  assumes "steps_to K st db db1" and "steps_to L st db1 db2" and "K \<inter> L = {}"
  shows "steps_to (K \<union> L) st db db2"
proof -
  have "\<exists>old new. getRunStep sid db = Some old \<and> getRunStep sid db2 = Some new \<and> moved_row st old new"
    if "sid \<in> K \<union> L" for sid
  proof (cases "sid \<in> K")
    case True
    with assms have "sid \<notin> L" by blast
    with True assms(1,2) show ?thesis unfolding steps_to_def by metis
  next
    case False
    with that have "sid \<in> L" by blast
    with False assms(1,2) show ?thesis unfolding steps_to_def by metis
  qed
  moreover have "same_state db db2"
    using assms(1,2) same_state_trans [of db db1 db2] by (simp add: steps_to_def)
  ultimately show ?thesis using assms(1,2) by (simp add: steps_to_def)
qed

lemma step_move_steps_to:
  assumes "db_inv db" and "step_move old new db db'"
  shows "steps_to {s_step_id old} (s_status new) db db'"
proof -
  have get: "getRunStep (s_step_id old) db = Some old" and row: "row_move old new"
    and steps: "steps db' = replace_row s_step_id (s_step_id old) new (steps db)"
    using assms(2) by (simp_all add: step_move_def)
  have id: "s_step_id new = s_step_id old" using row by (simp add: row_move_def same_step_identity_def)
  have "db_inv db'" using db_inv_step [OF assms(1,2)] .
  moreover have "map s_step_id (steps db') = map s_step_id (steps db)"
    using id by (simp add: steps step_rows.replace_row_keys)
  moreover have "same_state db db'" using assms(2) by (auto simp: step_move_def same_state_def)
  moreover have "getRunStep sid db' = (if sid = s_step_id old then Some new else getRunStep sid db)" for sid
    by (rule getRunStep_replace [OF get id steps])
  ultimately show ?thesis
    using assms(2) get row by (simp add: steps_to_def step_move_def moved_row_def row_move_def)
qed

text \<open>
  What the transitions without a claim promise: they return and move the step exactly when
  its status is in \<open>from\<close>, and are refused with the step's status otherwise.
\<close>

locale status_transition =
  fixes transit :: "step_id \<Rightarrow> time \<Rightarrow> rundb \<Rightarrow> (step_row \<times> rundb) result" and "from" :: "step_status set"
    and target :: step_status
  assumes transits: "db_inv db \<Longrightarrow> now \<noteq> 0 \<Longrightarrow> getRunStep sid db = Some s \<Longrightarrow> s_status s \<in> from
      \<Longrightarrow> \<exists>s' db'. transit sid now db = Inr (s', db') \<and> steps_to {sid} target db db'"
    and conflicts: "db_inv db \<Longrightarrow> now \<noteq> 0 \<Longrightarrow> getRunStep sid db = Some s \<Longrightarrow> s_status s \<notin> from
      \<Longrightarrow> \<exists>claim. transit sid now db = Inl (transitionError (Some sid) (StepSt (s_status s)) (StepSt target)
            ConflictWrongStatus claim (s_claim_id s))"
begin

lemma transits_iff:
  assumes "db_inv db" and "now \<noteq> 0" and "getRunStep sid db = Some s"
  shows "(\<exists>s' db'. transit sid now db = Inr (s', db')) \<longleftrightarrow> s_status s \<in> from"
  using transits [OF assms] conflicts [OF assms] by (metis Inl_Inr_False)

end

text \<open>A loop over steps that stops at the first error.\<close>

fun for_each :: "('x \<Rightarrow> rundb \<Rightarrow> ('y \<times> rundb) result) \<Rightarrow> 'x list \<Rightarrow> rundb \<Rightarrow> ('y list \<times> rundb) result" where
  "for_each f [] db = Inr ([], db)"
| "for_each f (x # xs) db =
     andThen (f x db) (\<lambda>(y, db1). andThen (for_each f xs db1) (\<lambda>(ys, db2). Inr (y # ys, db2)))"

lemma for_each_steps_to:
  assumes "\<And>x db. x \<in> set xs \<Longrightarrow> db_inv db \<Longrightarrow> getRunStep (key x) db = getRunStep (key x) db0
      \<Longrightarrow> \<exists>y db'. f x db = Inr (y, db') \<and> steps_to {key x} st db db'"
    and "distinct (map key xs)" and "db_inv db0"
  shows "\<exists>ys db'. for_each f xs db0 = Inr (ys, db') \<and> steps_to (key ` set xs) st db0 db'"
  using assms
proof (induction xs arbitrary: db0)
  case Nil
  then show ?case by (simp add: steps_to_empty)
next
  case (Cons x xs)
  from Cons.prems(1) [of x db0] Cons.prems(3) obtain y db1 where
    first: "f x db0 = Inr (y, db1)" "steps_to {key x} st db0 db1" by auto
  have fresh: "key z \<noteq> key x" if "z \<in> set xs" for z
    using Cons.prems(2) that by (metis distinct.simps(2) image_eqI list.simps(9) set_map)
  have "\<exists>ys db'. for_each f xs db1 = Inr (ys, db') \<and> steps_to (key ` set xs) st db1 db'"
  proof (rule Cons.IH)
    fix z db
    assume z: "z \<in> set xs" "db_inv db" "getRunStep (key z) db = getRunStep (key z) db1"
    with first(2) fresh have "getRunStep (key z) db = getRunStep (key z) db0" by (simp add: steps_to_def)
    with z show "\<exists>y db'. f z db = Inr (y, db') \<and> steps_to {key z} st db db'" using Cons.prems(1) by simp
  qed (use Cons.prems first in \<open>simp_all add: steps_to_def\<close>)
  then obtain ys db2 where rest: "for_each f xs db1 = Inr (ys, db2)" "steps_to (key ` set xs) st db1 db2" by blast
  have "{key x} \<inter> key ` set xs = {}" using Cons.prems(2) by simp
  then have "steps_to ({key x} \<union> key ` set xs) st db0 db2" by (rule steps_to_Un [OF first(2) rest(2)])
  with first rest show ?case by simp
qed

text \<open>The transitions that are one step move.\<close>

lemma status_transitionI:
  assumes "\<And>db now sid s r. now \<noteq> 0 \<Longrightarrow> run db = Some r \<Longrightarrow> log_ok r (events db) \<Longrightarrow> getRunStep sid db = Some s
      \<Longrightarrow> s_step_id s = sid \<Longrightarrow> s_status s \<in> from
      \<Longrightarrow> (attempt_open (s_status s) \<longrightarrow> closing_env sid s db r)
      \<Longrightarrow> \<exists>s' db'. transit sid now db = Inr (s', db') \<and> s_status s' = target"
    and "\<And>db now sid s r. now \<noteq> 0 \<Longrightarrow> run db = Some r \<Longrightarrow> getRunStep sid db = Some s \<Longrightarrow> s_status s \<notin> from
      \<Longrightarrow> \<exists>claim. transit sid now db = Inl (transitionError (Some sid) (StepSt (s_status s)) (StepSt target)
            ConflictWrongStatus claim (s_claim_id s))"
    and moves: "\<And>sid now db. refines_step sid (transit sid now db) db"
  shows "status_transition transit from target"
proof
  fix db :: rundb and now :: time and sid :: step_id and s :: step_row
  assume h: "db_inv db" "now \<noteq> 0" "getRunStep sid db = Some s"
  obtain r where r: "run db = Some r" "log_ok r (events db)" using h(1) by (rule db_inv_run_log)
  { assume st: "s_status s \<in> from"
    have "attempt_open (s_status s) \<longrightarrow> closing_env sid s db r"
      using closing_envI [OF h(1,3)] r(1) by (metis closing_env_def option.inject)
    with st h r getRunStep_id [OF h(3)] assms(1) obtain s' db' where
      ret: "transit sid now db = Inr (s', db')" "s_status s' = target" by blast
    then obtain old where "getRunStep sid db = Some old" "step_move old s' db db'"
      using moves [of sid now db] by (auto simp: refines_step_def)
    then have "steps_to {sid} target db db'"
      using step_move_steps_to [OF h(1), of old s' db'] ret(2) getRunStep_id [of sid db old] by auto
    with ret show "\<exists>s' db'. transit sid now db = Inr (s', db') \<and> steps_to {sid} target db db'" by blast }
  { assume "s_status s \<notin> from"
    with assms(2) h r show "\<exists>claim. transit sid now db = Inl (transitionError (Some sid) (StepSt (s_status s)) (StepSt target)
            ConflictWrongStatus claim (s_claim_id s))" by blast }
qed

interpretation cancel: status_transition "\<lambda>sid. CancelStep sid (Some why)"
  "{StepStatusPending, StepStatusReady, StepStatusRetrying}" StepStatusCancelled
  for why
  by (rule status_transitionI)
     (simp_all add: CancelStep_refines, auto simp: CancelStep_def fence_simps attempt_open_def stepConflict_def)

interpretation requeue: status_transition "\<lambda>sid. RequeueStep sid"
  "{StepStatusDeadLettered}" StepStatusReady
  by (rule status_transitionI)
     (simp_all add: RequeueStep_refines, auto simp: RequeueStep_def fence_simps attempt_open_def stepConflict_def)

interpretation revive: status_transition "\<lambda>sid. ReviveStep sid (Some why)"
  "{StepStatusCancelled}" StepStatusPending
  for why
  by (rule status_transitionI)
     (simp_all add: ReviveStep_refines, auto simp: ReviveStep_def fence_simps attempt_open_def stepConflict_def)

interpretation poison: status_transition "\<lambda>sid. PoisonDeadLetterStep sid err payload"
  "{StepStatusPending, StepStatusReady, StepStatusRunning, StepStatusRetrying}" StepStatusDeadLettered
  for err payload
  by (rule status_transitionI)
     (simp_all add: PoisonDeadLetterStep_refines, auto simp: PoisonDeadLetterStep_def fence_simps attempt_open_def stepConflict_def)

interpretation approve: status_transition "\<lambda>sid. SucceedAwaitingHumanStep sid out"
  "{StepStatusAwaitingHuman}" StepStatusSucceeded
  for out
  by (rule status_transitionI)
     (simp_all add: SucceedAwaitingHumanStep_refines, auto simp: SucceedAwaitingHumanStep_def fence_simps attempt_open_def stepConflict_def)

interpretation reject: status_transition "\<lambda>sid. DeadLetterAwaitingHumanStep sid err"
  "{StepStatusAwaitingHuman}" StepStatusDeadLettered
  for err
  by (rule status_transitionI)
     (simp_all add: DeadLetterAwaitingHumanStep_refines, auto simp: DeadLetterAwaitingHumanStep_def fence_simps attempt_open_def stepConflict_def)

text \<open>Cancelling a parked step also cancels its pending approval.\<close>

lemma steps_to_same:
  assumes "steps_to K st db db1" and "db_inv db2" and "steps db2 = steps db1" and "edges db2 = edges db1"
    and "outbox db2 = outbox db1" and "same_state db1 db2"
  shows "steps_to K st db db2"
  using assms(1) assms(2-5) same_state_trans [OF _ assms(6), of db] getRunStep_cong [OF assms(3)]
  by (simp add: steps_to_def)

lemma same_state_log_event: "run db = Some r \<Longrightarrow> same_state db (log_event p (db\<lparr>approvals := aps\<rparr>))"
  by (simp add: same_state_def run_log_event same_run_state_def same_run_identity_def)

lemma CancelAwaitingHumanStep_steps_to:
  assumes "db_inv db" and "now \<noteq> 0" and "getRunStep sid db = Some s" and "s_status s = StepStatusAwaitingHuman"
  shows "\<exists>s' db'. CancelAwaitingHumanStep sid (Some why) now db = Inr (s', db') \<and> steps_to {sid} StepStatusCancelled db db'"
proof -
  obtain r where env: "closing_env sid s db r"
    using assms(1,3) by (rule closing_envI) (simp add: attempt_open_def assms(4))
  let ?s = "s\<lparr>s_status := StepStatusCancelled, s_next_attempt_at := None, s_finished_at := Some now, s_updated_at := now\<rparr>"
  let ?db3 = "db\<lparr>steps := replace_row s_step_id sid ?s (steps db),
    attempts := closed_attempts ?s AttemptOutcomeCancelled None None None None now (attempts db),
    run := Some (add_delta (no_delta\<lparr>d_cancelled := 1\<rparr>) r)\<rparr>"
  let ?db4 = "log_event (EvStepCancelled sid why) ?db3"
  have "cancelAwaitingHumanRunStep sid now db = Some (?s, db\<lparr>steps := replace_row s_step_id sid ?s (steps db)\<rparr>)"
    "finishAttempt ?s AttemptOutcomeCancelled None None None None now
       (db\<lparr>steps := replace_row s_step_id sid ?s (steps db)\<rparr>) = Inr (?db3\<lparr>run := run db\<rparr>)"
    "bumpCounters (no_delta\<lparr>d_cancelled := 1\<rparr>) (?db3\<lparr>run := run db\<rparr>) = Inr ?db3"
    "appendEvent (EvStepCancelled sid why) ?db3 = Inr ?db4"
    using env assms(4) by (simp_all add: fence_simps)
  note parts = this
  have moved: "steps_to {sid} StepStatusCancelled db ?db4"
    using CancelAwaitingHumanStep_release [OF parts(1) _ parts(2-4)] env step_move_steps_to [OF assms(1)]
    by (fastforce simp: closing_env_def)
  have inv4: "db_inv ?db4" using moved by (simp add: steps_to_def)
  show ?thesis
  proof (cases "cancelPendingApprovalByStep sid now ?db4")
    case None
    with parts moved env assms(2) show ?thesis
      by (simp add: CancelAwaitingHumanStep_def transitionQueries_def lockRun_def lockRun_q_def closing_env_def)
  next
    case (Some res)
    then obtain ap db5 where c: "cancelPendingApprovalByStep sid now ?db4 = Some (ap, db5)" by (cases res) auto
    obtain aps where db5: "db5 = ?db4\<lparr>approvals := aps\<rparr>"
      using c by (auto simp: cancelPendingApprovalByStep_def cas_approval_def split: option.splits)
    obtain r4 where r4: "run ?db4 = Some r4" "log_ok r4 (events ?db4)" using inv4 by (rule db_inv_run_log)
    let ?db6 = "log_event (EvApprovalCancelled (ap_id ap) sid why) db5"
    have app: "appendEvent (EvApprovalCancelled (ap_id ap) sid why) db5 = Inr ?db6"
      using r4 by (intro appendEvent_total [of _ r4]) (simp_all add: db5)
    have ret: "CancelAwaitingHumanStep sid (Some why) now db = Inr (?s, ?db6)"
      using parts c app env assms(2)
      by (simp add: CancelAwaitingHumanStep_def transitionQueries_def lockRun_def lockRun_q_def closing_env_def)
    have "db_inv ?db6"
      using db_inv.refines_keeps [OF CancelAwaitingHumanStep_refines ret] assms(1) by simp
    moreover have "same_state ?db4 ?db6"
      unfolding db5 using r4(1) by (rule same_state_log_event)
    ultimately have "steps_to {sid} StepStatusCancelled db ?db6"
      by (intro steps_to_same [OF moved]) (simp_all add: db5)
    with ret show ?thesis by blast
  qed
qed

interpretation cancel_awaiting: status_transition "\<lambda>sid. CancelAwaitingHumanStep sid (Some why)"
  "{StepStatusAwaitingHuman}" StepStatusCancelled
  for why
proof
  fix db :: rundb and now :: time and sid :: step_id and s :: step_row
  assume h: "db_inv db" "now \<noteq> 0" "getRunStep sid db = Some s"
  { assume "s_status s \<in> {StepStatusAwaitingHuman}"
    with h show "\<exists>s' db'. CancelAwaitingHumanStep sid (Some why) now db = Inr (s', db')
        \<and> steps_to {sid} StepStatusCancelled db db'" using CancelAwaitingHumanStep_steps_to by simp }
  { obtain r where "run db = Some r" using h(1) by (rule db_inv_run_log)
    moreover assume "s_status s \<notin> {StepStatusAwaitingHuman}"
    ultimately show "\<exists>claim. CancelAwaitingHumanStep sid (Some why) now db = Inl (transitionError (Some sid)
        (StepSt (s_status s)) (StepSt StepStatusCancelled) ConflictWrongStatus claim (s_claim_id s))"
      using h by (auto simp: CancelAwaitingHumanStep_def fence_simps stepConflict_def) }
qed

section \<open>The history of a run is append-only\<close>

definition final_status :: "step_status \<Rightarrow> bool" where
  "final_status st \<longleftrightarrow> st = StepStatusSucceeded \<or> st = StepStatusSkipped \<or> st = StepStatusCollected"

definition keeps_final_steps :: "rundb \<Rightarrow> rundb \<Rightarrow> bool" where
  "keeps_final_steps db db' \<longleftrightarrow> (\<forall>sid s. getRunStep sid db = Some s \<longrightarrow> final_status (s_status s) \<longrightarrow>
     (\<exists>s'. getRunStep sid db' = Some s' \<and> s_status s' = s_status s \<and> s_output s' = s_output s
        \<and> s_error s' = s_error s \<and> s_attempt_count s' = s_attempt_count s))"

definition keeps_closed_attempts :: "rundb \<Rightarrow> rundb \<Rightarrow> bool" where
  "keeps_closed_attempts db db' \<longleftrightarrow> (\<forall>a \<in> set (attempts db). at_outcome a \<noteq> None \<longrightarrow> a \<in> set (attempts db'))"

definition keeps_final_run :: "rundb \<Rightarrow> rundb \<Rightarrow> bool" where
  "keeps_final_run db db' \<longleftrightarrow> (\<forall>r. run db = Some r \<longrightarrow> r_status r = RunStatusSucceeded \<or> r_status r = RunStatusCancelled
     \<longrightarrow> (\<exists>r'. run db' = Some r' \<and> r_status r' = r_status r \<and> r_finished_at r' = r_finished_at r))"

definition extends_history :: "rundb \<Rightarrow> rundb \<Rightarrow> bool" where
  "extends_history db db' \<longleftrightarrow> prefix (events db) (events db') \<and> prefix (dead_letters db) (dead_letters db')
     \<and> keeps_closed_attempts db db' \<and> keeps_final_steps db db' \<and> keeps_final_run db db'"

lemma extends_history_refl: "extends_history db db"
  by (simp add: extends_history_def keeps_closed_attempts_def keeps_final_steps_def keeps_final_run_def)

lemma extends_history_trans:
  assumes "extends_history a b" and "extends_history b c"
  shows "extends_history a c"
proof -
  have "keeps_final_steps a c"
    unfolding keeps_final_steps_def
  proof (intro allI impI)
    fix sid s
    assume "getRunStep sid a = Some s" "final_status (s_status s)"
    moreover from this assms(1) obtain s1 where "getRunStep sid b = Some s1" "s_status s1 = s_status s"
      "s_output s1 = s_output s" "s_error s1 = s_error s" "s_attempt_count s1 = s_attempt_count s"
      unfolding extends_history_def keeps_final_steps_def by blast
    moreover from calculation assms(2) obtain s2 where "getRunStep sid c = Some s2" "s_status s2 = s_status s1"
      "s_output s2 = s_output s1" "s_error s2 = s_error s1" "s_attempt_count s2 = s_attempt_count s1"
      unfolding extends_history_def keeps_final_steps_def by metis
    ultimately show "\<exists>s'. getRunStep sid c = Some s' \<and> s_status s' = s_status s \<and> s_output s' = s_output s
        \<and> s_error s' = s_error s \<and> s_attempt_count s' = s_attempt_count s" by auto
  qed
  moreover have "keeps_final_run a c"
    using assms unfolding extends_history_def keeps_final_run_def by metis
  moreover have "keeps_closed_attempts a c"
    using assms unfolding extends_history_def keeps_closed_attempts_def by blast
  ultimately show ?thesis using assms unfolding extends_history_def by (metis prefix_order.trans)
qed

lemma attempts_move_closed:
  assumes "db_inv db" and "getRunStep (s_step_id old) db = Some old"
    and "attempts_move old new (attempts db) (attempts db')"
  shows "keeps_closed_attempts db db'"
  unfolding keeps_closed_attempts_def
proof (intro ballI impI)
  fix a assume a: "a \<in> set (attempts db)" "at_outcome a \<noteq> None"
  have ok: "attempts_ok (attempts db) old"
    using assms(1) getRunStep_in_steps [OF assms(2)] by (simp add: db_inv_def steps_inv_def)
  show "a \<in> set (attempts db')"
  proof (cases "s_status new \<noteq> StepStatusRunning \<and> attempt_open (s_status old) \<and> \<not> attempt_open (s_status new)")
    case True
    then obtain f where map: "attempts db' = map (\<lambda>b. if at_step_id b = s_step_id old \<and> at_attempt_no b = s_attempt_count old
        then f b else b) (attempts db)"
      using assms(3) by (auto simp: attempts_move_def closes_attempt_def)
    have "\<not> (at_step_id a = s_step_id old \<and> at_attempt_no a = s_attempt_count old)"
      using ok True a by (auto simp: attempts_ok_def attempts_of_def)
    with a(1) show ?thesis unfolding map by force
  next
    case False
    with assms(3) a(1) show ?thesis by (auto simp: attempts_move_def opens_attempt_def split: if_splits)
  qed
qed

lemma log_move_prefix: "log_move db db' \<Longrightarrow> prefix (events db) (events db')"
  by (auto simp: log_move_def)

lemma step_move_history:
  assumes inv: "db_inv db" and move: "step_move old new db db'"
  shows "extends_history db db'"
proof -
  have get: "getRunStep (s_step_id old) db = Some old" and row: "row_move old new"
    and steps: "steps db' = replace_row s_step_id (s_step_id old) new (steps db)"
    using move by (simp_all add: step_move_def)
  have id: "s_step_id new = s_step_id old" using row by (simp add: row_move_def same_step_identity_def)
  have "\<not> final_status (s_status old)" using row by (auto simp: row_move_def step_edge_def final_status_def)
  then have "keeps_final_steps db db'"
    using getRunStep_replace [OF get id steps] get by (auto simp: keeps_final_steps_def)
  moreover have "prefix (dead_letters db) (dead_letters db')"
    using move by (auto simp: step_move_def dead_letters_move_def split: if_splits)
  moreover have "keeps_final_run db db'"
    using move by (auto simp: step_move_def keeps_final_run_def same_run_state_def)
  moreover have "keeps_closed_attempts db db'" "prefix (events db) (events db')"
    using move attempts_move_closed [OF inv get, of new db'] log_move_prefix by (simp_all add: step_move_def)
  ultimately show ?thesis by (simp add: extends_history_def)
qed

lemma edge_move_history:
  assumes "edge_move e res db db'"
  shows "extends_history db db'"
proof -
  obtain old now where old: "getRunStep (e_to_step e) db = Some old" and db': "db' =
      db\<lparr>edges := replace_row e_ordinal (e_ordinal e) (e\<lparr>e_resolution := res\<rparr>) (edges db),
         steps := replace_row s_step_id (e_to_step e) (count_edge (res = EdgeResolutionFired) now old) (steps db)\<rparr>"
    using assms unfolding edge_move_def by blast
  have "getRunStep sid db' = (if sid = e_to_step e then Some (count_edge (res = EdgeResolutionFired) now old)
      else getRunStep sid db)" for sid
    by (rule getRunStep_replace [OF old]) (simp_all add: db' getRunStep_id [OF old])
  then have "keeps_final_steps db db'" using old by (simp add: keeps_final_steps_def)
  then show ?thesis by (simp add: extends_history_def keeps_closed_attempts_def keeps_final_run_def db')
qed

lemma store_move_history:
  assumes "db_inv db" and "store_move db db'"
  shows "extends_history db db'"
  using assms(2)
proof cases
  case (run)
  then have "keeps_final_run db db'"
    by (auto simp: run_move_def keeps_final_run_def run_edge_def)
  with run show ?thesis using getRunStep_cong [of db' db] log_move_prefix
    by (auto simp: extends_history_def run_move_def keeps_closed_attempts_def keeps_final_steps_def)
next
  case (side)
  then have "keeps_final_run db db'" "prefix (events db) (events db')"
    using log_move_prefix by (auto simp: side_move_def keeps_final_run_def same_run_state_def)
  with side show ?thesis using getRunStep_cong [of db' db]
    by (auto simp: extends_history_def side_move_def keeps_closed_attempts_def keeps_final_steps_def)
qed (use step_move_history [OF assms(1)] edge_move_history in auto)

lemma store_moves_history: "rtranclp store_move db db' \<Longrightarrow> db_inv db \<Longrightarrow> extends_history db db'"
proof (induction rule: rtranclp_induct)
  case (step mid db')
  then show ?case
    using store_move_history [OF db_inv.moves_keep [OF step.hyps(1)]] extends_history_trans by blast
qed (rule extends_history_refl)

text \<open>
  C12.  Histories are append-only.  Whatever transitions run, in whatever order, the event log
  and the dead letters of a run only grow at the end, a closed attempt is never rewritten, a
  step that succeeded, was skipped or was collected keeps its status, output, error and attempt
  count, and a succeeded or cancelled run stays so.
\<close>

theorem histories_append_only:
  assumes "db_inv db" and "rtranclp store_op db db'"
  shows "extends_history db db'"
  using store_moves_history [OF store_ops_moves [OF assms(2)] assms(1)] .

theorem histories_append_only_witness:
  "extends_history sample_db (db_after (ClaimStep ''a'' ''w1'' [] 200 7 sample_db) sample_db)"
  using histories_append_only [OF sample_db_inv r_into_rtranclp [where r = store_op, OF sample_claim]] .

definition fenced :: "step_status \<Rightarrow> step_id \<Rightarrow> uuid \<Rightarrow> uuid \<Rightarrow> (step_row \<times> rundb) result \<Rightarrow> bool" where
  "fenced target sid c cur res \<longleftrightarrow> res = Inl (transitionError (Some sid) (StepSt StepStatusRunning) (StepSt target)
     ConflictClaimMismatch (Some c) (Some cur))"


text \<open>The sample run with its first step claimed under claim 7.\<close>

definition sample_running :: rundb where
  "sample_running = db_after (ClaimStep ''a'' ''w1'' [] 200 7 sample_db) sample_db"

lemma sample_running_inv: "db_inv sample_running"
  unfolding sample_running_def using db_inv.moves_keep [OF store_op_moves [OF sample_claim] sample_db_inv] .


end
