(* ===== verification/Engine_Fanout.thy ===== *)
theory Engine_Fanout
  imports Store_Progress
begin

text \<open>
  The readiness fan-out of \<^verbatim>\<open>internal/engine/complete.go\<close>: the verdicts on the out-edges of a
  finished step (\<open>planEdges\<close>, \<open>allSkippedVerdicts\<close>) and the work list that resolves them
  and chases their consequences (\<open>fanOut\<close>), inside the completion transaction.

  A \<^verbatim>\<open>when\<close> predicate is compiled and evaluated by the CEL library; its evaluation on the step's
  output and the run's parameters is the argument \<open>pred\<close>, an error standing for a
  compile error, an evaluation error or a result that is no boolean.  The output is the
  decoded value: the transaction has stored it in a JSON column before it plans the edges.
\<close>

section \<open>Verdicts\<close>

record edge_verdict =
  vd_ordinal :: int
  vd_fired :: bool

type_synonym predicate = "string \<Rightarrow> raw \<Rightarrow> raw \<Rightarrow> bool result"

fun plan_edges_from :: "predicate \<Rightarrow> bool \<Rightarrow> raw \<Rightarrow> raw \<Rightarrow> bool \<Rightarrow> edge_row list \<Rightarrow> edge_verdict list result" where
  "plan_edges_from pred isBranch out params matched [] = Inr []"
| "plan_edges_from pred isBranch out params matched (e # es) =
     (if e_edge_type e \<noteq> EdgeTypeNormal then plan_edges_from pred isBranch out params matched es
      else
        andThen (case e_when_expr e of
                   None \<Rightarrow> Inr (\<not> isBranch \<or> \<not> matched)
                 | Some w \<Rightarrow> if isBranch \<and> matched then Inr False else pred w out params) (\<lambda>fired.
        andThen (plan_edges_from pred isBranch out params (matched \<or> fired \<and> isBranch) es) (\<lambda>vs.
        Inr (\<lparr>vd_ordinal = e_ordinal e, vd_fired = fired\<rparr> # vs))))"

definition planEdges :: "predicate \<Rightarrow> step_type \<Rightarrow> edge_row list \<Rightarrow> raw \<Rightarrow> raw \<Rightarrow> edge_verdict list result" where
  "planEdges pred stepType es out params = plan_edges_from pred (stepType = StepBranch) out params False es"

definition allSkippedVerdicts :: "edge_row list \<Rightarrow> edge_verdict list" where
  "allSkippedVerdicts es =
     map (\<lambda>e. \<lparr>vd_ordinal = e_ordinal e, vd_fired = False\<rparr>) (filter (\<lambda>e. e_edge_type e = EdgeTypeNormal) es)"

definition isJoinAny :: "step_row \<Rightarrow> bool result" where
  "isJoinAny step =
     (if s_step_type step \<noteq> StepJoin then Inr False
      else case s_config step of
             UndecodableConfig \<Rightarrow> Inl (ErrDecode (s_step_id step))
           | JoinConfig mode \<Rightarrow> Inr (mode = Some JoinAny)
           | _ \<Rightarrow> Inr False)"

section \<open>The work list\<close>

record terminal_source =
  ts_step_id :: step_id
  ts_verdicts :: "edge_verdict list"

record fan_out_result =
  fo_readied :: "step_id list"
  fo_skipped :: "step_id list"

text \<open>One verdict: the body of the inner loop.  A resolved edge always carries its target's row.\<close>

definition fan_verdict :: "time \<Rightarrow> edge_verdict \<Rightarrow> fan_out_result \<times> terminal_source list \<times> rundb
    \<Rightarrow> (fan_out_result \<times> terminal_source list \<times> rundb) result" where
  "fan_verdict now v st = (case st of (res, work, db) \<Rightarrow>
     andThen (ResolveEdge (vd_ordinal v) (vd_fired v) now db) (\<lambda>(r, db1).
     case re_to_step r of
       None \<Rightarrow> Inr (res, work, db1)
     | Some target \<Rightarrow>
         if \<not> re_resolved r \<or> s_status target \<noteq> StepStatusPending then Inr (res, work, db1)
         else
           andThen (isJoinAny target) (\<lambda>joinAny.
           if s_fired_deps target \<ge> 1 \<and> (s_remaining_deps target = 0 \<or> joinAny)
           then andThen (ReadyStep (s_step_id target) joinAny now db1) (\<lambda>(_, db2).
                Inr (res\<lparr>fo_readied := fo_readied res @ [s_step_id target]\<rparr>, work, db2))
           else if s_remaining_deps target = 0 \<and> s_fired_deps target = 0
           then andThen (SkipStep (s_step_id target) now db1) (\<lambda>(_, db2).
                Inr (res\<lparr>fo_skipped := fo_skipped res @ [s_step_id target]\<rparr>,
                     work @ [\<lparr>ts_step_id = s_step_id target,
                              ts_verdicts = allSkippedVerdicts (listRunEdgesFromStep (s_step_id target) db2)\<rparr>],
                     db2))
           else Inr (res, work, db1))))"

fun fan_verdicts :: "time \<Rightarrow> edge_verdict list \<Rightarrow> fan_out_result \<times> terminal_source list \<times> rundb
    \<Rightarrow> (fan_out_result \<times> terminal_source list \<times> rundb) result" where
  "fan_verdicts now [] st = Inr st"
| "fan_verdicts now (v # vs) st = andThen (fan_verdict now v st) (fan_verdicts now vs)"

text \<open>
  The outer loop ends because every source it appends is a step that has just left
  \<^verbatim>\<open>pending\<close>: the pending steps and the queued sources together decrease.
\<close>

definition pending_ids :: "rundb \<Rightarrow> step_id set" where
  "pending_ids db = {sid. \<exists>s. getRunStep sid db = Some s \<and> s_status s = StepStatusPending}"

lemma finite_pending_ids: "finite (pending_ids db)"
  by (rule finite_subset [of _ "s_step_id ` set (steps db)"])
     (auto simp: pending_ids_def dest: getRunStep_in_steps getRunStep_id)

lemma pending_ids_cong: "steps db' = steps db \<Longrightarrow> pending_ids db' = pending_ids db"
  by (simp add: pending_ids_def getRunStep_def)

lemma pending_ids_leave:
  assumes "getRunStep sid db = Some old" and "s_status old = StepStatusPending"
    and "s_step_id new = sid" and "s_status new \<noteq> StepStatusPending"
    and "steps db' = replace_row s_step_id sid new (steps db)"
  shows "card (pending_ids db') < card (pending_ids db)"
proof -
  have "pending_ids db' = pending_ids db - {sid}"
    using getRunStep_replace [OF assms(1,3,5)] assms(4) by (auto simp: pending_ids_def)
  moreover have "sid \<in> pending_ids db" using assms(1,2) by (auto simp: pending_ids_def)
  ultimately show ?thesis by (metis card_Diff1_less finite_pending_ids)
qed

lemma ReadyStep_inv:
  assumes "ReadyStep sid joinAny now db = Inr (x, db')"
  shows "\<exists>old. getRunStep sid db = Some old \<and> s_status old = StepStatusPending \<and> s_fired_deps old \<ge> 1
    \<and> (s_remaining_deps old = 0 \<or> joinAny) \<and> x = old\<lparr>s_status := StepStatusReady, s_updated_at := now\<rparr>
    \<and> db' = log_event (EvStepReady sid) (db\<lparr>steps := replace_row s_step_id sid x (steps db)\<rparr>)"
  using assms by (auto simp: ReadyStep_def plumbing_eq_Inr readyRunStep_def cas_step_eq_Some split: option.splits)

lemma SkipStep_inv:
  assumes "SkipStep sid now db = Inr (x, db')"
  shows "\<exists>old r. getRunStep sid db = Some old \<and> run db = Some r \<and> s_status old = StepStatusPending
    \<and> s_remaining_deps old = 0 \<and> s_fired_deps old = 0 \<and> x = old\<lparr>s_status := StepStatusSkipped, s_updated_at := now\<rparr>
    \<and> db' = log_event (EvStepSkipped sid) (db\<lparr>steps := replace_row s_step_id sid x (steps db),
              run := Some (add_delta (no_delta\<lparr>d_skipped := 1\<rparr>) r)\<rparr>)"
  using assms by (auto simp: SkipStep_def plumbing_eq_Inr skipRunStep_def cas_step_eq_Some split: option.splits)

lemma ReadyStep_pending:
  assumes "ReadyStep sid joinAny now db = Inr (x, db')"
  shows "card (pending_ids db') < card (pending_ids db)"
proof -
  from ReadyStep_inv [OF assms] obtain old where "getRunStep sid db = Some old" "s_status old = StepStatusPending"
    "x = old\<lparr>s_status := StepStatusReady, s_updated_at := now\<rparr>"
    "steps db' = replace_row s_step_id sid x (steps db)" by auto
  then show ?thesis by (rule_tac pending_ids_leave [where sid = sid]) (simp_all add: getRunStep_id)
qed

lemma SkipStep_pending:
  assumes "SkipStep sid now db = Inr (x, db')"
  shows "card (pending_ids db') < card (pending_ids db)"
proof -
  from SkipStep_inv [OF assms] obtain old where "getRunStep sid db = Some old" "s_status old = StepStatusPending"
    "x = old\<lparr>s_status := StepStatusSkipped, s_updated_at := now\<rparr>"
    "steps db' = replace_row s_step_id sid x (steps db)" by auto
  then show ?thesis by (rule_tac pending_ids_leave [where sid = sid]) (simp_all add: getRunStep_id)
qed

lemma ResolveEdge_pending:
  assumes "ResolveEdge ord fired now db = Inr (x, db')"
  shows "pending_ids db' = pending_ids db"
proof -
  from assms consider (same) "db' = db"
    | (resolved) e t db1 where "resolveRunEdge ord (if fired then EdgeResolutionFired else EdgeResolutionSkipped) db = Some (e, db1)"
        "applyEdgeResolution (e_to_step e) (if fired then 1 else 0) now db1 = Some (t, db')"
    by (auto simp: ResolveEdge_def plumbing_eq_Inr resolveEdgeNoop_def Let_def
        split: option.splits prod.splits if_splits)
  then show ?thesis
  proof cases
    case resolved
    have db1: "steps db1 = steps db" using resolved(1) by (auto simp: resolveRunEdge_def split: option.splits if_splits)
    from resolved(2) obtain old where old: "getRunStep (e_to_step e) db1 = Some old"
      and t: "t = old\<lparr>s_remaining_deps := s_remaining_deps old - 1,
              s_fired_deps := s_fired_deps old + (if fired then 1 else 0), s_updated_at := now\<rparr>"
      and db': "steps db' = replace_row s_step_id (e_to_step e) t (steps db1)"
      unfolding applyEdgeResolution_def cas_step_eq_Some by auto
    have "s_step_id t = e_to_step e" "s_status t = s_status old" using getRunStep_id [OF old] by (simp_all add: t)
    with getRunStep_replace [OF old _ db'] old show ?thesis by (auto simp: pending_ids_def getRunStep_cong [OF db1])
  qed simp
qed

lemma fan_verdict_measure:
  assumes "fan_verdict now v (res, work, db) = Inr (res', work', db')"
  shows "length work' + card (pending_ids db') \<le> length work + card (pending_ids db)"
  using assms
  by (auto simp: fan_verdict_def andThen_eq_Inr split: option.splits prod.splits if_splits
      dest!: ResolveEdge_pending ReadyStep_pending SkipStep_pending)

lemma fan_verdicts_measure:
  "fan_verdicts now vs (res, work, db) = Inr (res', work', db') \<Longrightarrow>
     length work' + card (pending_ids db') \<le> length work + card (pending_ids db)"
proof (induction vs arbitrary: res work db)
  case (Cons v vs)
  then obtain r1 w1 db1 where "fan_verdict now v (res, work, db) = Inr (r1, w1, db1)"
    "fan_verdicts now vs (r1, w1, db1) = Inr (res', work', db')" by (auto simp: andThen_eq_Inr)
  with Cons.IH [of r1 w1 db1] fan_verdict_measure show ?case by fastforce
qed simp

function fan_loop :: "time \<Rightarrow> fan_out_result \<Rightarrow> terminal_source list \<Rightarrow> rundb \<Rightarrow> (fan_out_result \<times> rundb) result" where
  "fan_loop now res [] db = Inr (res, db)"
| "fan_loop now res (src # work) db =
     andThen (fan_verdicts now (ts_verdicts src) (res, work, db)) (\<lambda>(res', work', db').
     fan_loop now res' work' db')"
  by pat_completeness auto
termination
  by (relation "measure (\<lambda>(now, res, work, db). length work + card (pending_ids db))")
     (auto dest!: fan_verdicts_measure)

definition fanOut :: "time \<Rightarrow> terminal_source \<Rightarrow> rundb \<Rightarrow> (fan_out_result \<times> rundb) result" where
  "fanOut now seed db = fan_loop now \<lparr>fo_readied = [], fo_skipped = []\<rparr> [seed] db"

end
