(* ===== verification/Engine_Flow.thy ===== *)
theory Engine_Flow
  imports Engine_Fanout
begin

text \<open>
  What the fan-out establishes.  Between transactions a run that is not being cancelled is
  \<open>quiet\<close>, no pending step satisfies a readiness or skip guard, and its edges follow
  its steps: a normal edge is resolved exactly when its source has settled.  After a step
  settles, the fan-out of its out-edges terminates without error and restores both.
\<close>

section \<open>The engine's invariant on the graph\<close>

definition settled_status :: "step_status \<Rightarrow> bool" where
  "settled_status st \<longleftrightarrow> st = StepStatusSucceeded \<or> st = StepStatusSkipped \<or> st = StepStatusCollected"

definition status_of :: "rundb \<Rightarrow> step_id \<Rightarrow> step_status option" where
  "status_of db sid = map_option s_status (getRunStep sid db)"

definition settled_source :: "rundb \<Rightarrow> step_id \<Rightarrow> bool" where
  "settled_source db sid = (case status_of db sid of None \<Rightarrow> False | Some st \<Rightarrow> settled_status st)"

definition joins_any :: "step_row \<Rightarrow> bool" where
  "joins_any s \<longleftrightarrow> s_step_type s = StepJoin \<and> s_config s = JoinConfig (Some JoinAny)"

definition ready_guard :: "step_row \<Rightarrow> bool" where
  "ready_guard s \<longleftrightarrow> s_fired_deps s \<ge> 1 \<and> (s_remaining_deps s = 0 \<or> joins_any s)"

definition skip_guard :: "step_row \<Rightarrow> bool" where
  "skip_guard s \<longleftrightarrow> s_remaining_deps s = 0 \<and> s_fired_deps s = 0"

definition wants_move :: "step_row \<Rightarrow> bool" where
  "wants_move s \<longleftrightarrow> s_status s = StepStatusPending \<and> (ready_guard s \<or> skip_guard s)"

definition quiet :: "rundb \<Rightarrow> bool" where
  "quiet db \<longleftrightarrow> (\<forall>s \<in> set (steps db). \<not> wants_move s)"

definition configs_decode :: "rundb \<Rightarrow> bool" where
  "configs_decode db \<longleftrightarrow> (\<forall>s \<in> set (steps db). s_step_type s = StepJoin \<longrightarrow> s_config s \<noteq> UndecodableConfig)"

text \<open>The edges with an ordinal in \<open>T\<close> are still to be resolved.\<close>

definition follows :: "rundb \<Rightarrow> int set \<Rightarrow> edge_row \<Rightarrow> bool" where
  "follows db T e \<longleftrightarrow> (e_edge_type e = EdgeTypeNormal \<longrightarrow>
     (e_resolution e \<noteq> EdgeResolutionUnresolved \<longleftrightarrow> settled_source db (e_from_step e) \<and> e_ordinal e \<notin> T)
   \<and> (status_of db (e_from_step e) = Some StepStatusSkipped \<longrightarrow> e_resolution e \<noteq> EdgeResolutionFired))"

definition flows :: "rundb \<Rightarrow> int set \<Rightarrow> bool" where
  "flows db T \<longleftrightarrow> (\<forall>e \<in> set (edges db). follows db T e)"

lemma isJoinAny_eq:
  "s_step_type s = StepJoin \<longrightarrow> s_config s \<noteq> UndecodableConfig \<Longrightarrow> isJoinAny s = Inr (joins_any s)"
  by (auto simp: isJoinAny_def joins_any_def split: step_config.splits)

lemma quietD: "quiet db \<Longrightarrow> getRunStep sid db = Some s \<Longrightarrow> \<not> wants_move s"
  unfolding quiet_def using getRunStep_in_steps by blast

lemma quietI: "db_inv db \<Longrightarrow> (\<And>sid s. getRunStep sid db = Some s \<Longrightarrow> \<not> wants_move s) \<Longrightarrow> quiet db"
  unfolding quiet_def using in_steps_iff by blast

lemma configs_decodeD: "configs_decode db \<Longrightarrow> getRunStep sid db = Some s \<Longrightarrow> isJoinAny s = Inr (joins_any s)"
  unfolding configs_decode_def using getRunStep_in_steps isJoinAny_eq by blast

lemma configs_decodeI:
  "db_inv db \<Longrightarrow> (\<And>sid s. getRunStep sid db = Some s \<Longrightarrow> s_step_type s = StepJoin \<longrightarrow> s_config s \<noteq> UndecodableConfig)
     \<Longrightarrow> configs_decode db"
  unfolding configs_decode_def using in_steps_iff by blast

lemma flowsD: "flows db T \<Longrightarrow> getRunEdge k db = Some e \<Longrightarrow> follows db T e"
  unfolding flows_def by (auto simp: getRunEdge_def dest: edge_rows.row_at_SomeD)

lemma flowsI: "db_inv db \<Longrightarrow> (\<And>k e. getRunEdge k db = Some e \<Longrightarrow> follows db T e) \<Longrightarrow> flows db T"
  unfolding flows_def using in_edges_iff by blast

section \<open>One verdict\<close>

text \<open>The state of the two loops: \<open>todo\<close> are the verdicts still queued, all sources taken together.\<close>

definition fan_inv :: "edge_verdict list \<Rightarrow> rundb \<Rightarrow> bool" where
  "fan_inv todo db \<longleftrightarrow> db_inv db \<and> configs_decode db \<and> quiet db \<and> flows db (vd_ordinal ` set todo)
     \<and> distinct (map vd_ordinal todo)
     \<and> (\<forall>v \<in> set todo. \<exists>e. getRunEdge (vd_ordinal v) db = Some e \<and> e_edge_type e = EdgeTypeNormal
          \<and> settled_source db (e_from_step e)
          \<and> (status_of db (e_from_step e) = Some StepStatusSkipped \<longrightarrow> \<not> vd_fired v))"

text \<open>The tables after the edge of a verdict has been resolved.\<close>

definition resolved_db :: "edge_verdict \<Rightarrow> time \<Rightarrow> edge_row \<Rightarrow> step_row \<Rightarrow> rundb \<Rightarrow> rundb" where
  "resolved_db v now e t db =
     db\<lparr>edges := replace_row e_ordinal (vd_ordinal v) (e\<lparr>e_resolution := resolution_of (vd_fired v)\<rparr>) (edges db),
        steps := replace_row s_step_id (e_to_step e) (count_edge (vd_fired v) now t) (steps db)\<rparr>"

definition moved_db :: "step_status \<Rightarrow> time \<Rightarrow> step_row \<Rightarrow> rundb \<Rightarrow> rundb" where
  "moved_db st now t db = log_event (if st = StepStatusReady then EvStepReady (s_step_id t) else EvStepSkipped (s_step_id t))
     (db\<lparr>steps := replace_row s_step_id (s_step_id t) (t\<lparr>s_status := st, s_updated_at := now\<rparr>) (steps db),
         run := (if st = StepStatusReady then run db
                 else map_option (add_delta (no_delta\<lparr>d_skipped := 1\<rparr>)) (run db))\<rparr>)"

lemma resolved_db_reads:
  assumes "getRunEdge (vd_ordinal v) db = Some e" and "getRunStep (e_to_step e) db = Some t"
  shows "getRunEdge k (resolved_db v now e t db) =
      (if k = vd_ordinal v then Some (e\<lparr>e_resolution := resolution_of (vd_fired v)\<rparr>) else getRunEdge k db)"
    and "getRunStep sid (resolved_db v now e t db) =
      (if sid = e_to_step e then Some (count_edge (vd_fired v) now t) else getRunStep sid db)"
    and "status_of (resolved_db v now e t db) = status_of db"
proof -
  let ?db = "resolved_db v now e t db"
  show "getRunEdge k ?db =
      (if k = vd_ordinal v then Some (e\<lparr>e_resolution := resolution_of (vd_fired v)\<rparr>) else getRunEdge k db)" for k
    by (rule getRunEdge_replace [OF assms(1)]) (use getRunEdge_ordinal [OF assms(1)] in \<open>simp_all add: resolved_db_def\<close>)
  have step: "getRunStep sid ?db =
      (if sid = e_to_step e then Some (count_edge (vd_fired v) now t) else getRunStep sid db)" for sid
    by (rule getRunStep_replace [OF assms(2)]) (use getRunStep_id [OF assms(2)] in \<open>simp_all add: resolved_db_def\<close>)
  then show "getRunStep sid ?db =
      (if sid = e_to_step e then Some (count_edge (vd_fired v) now t) else getRunStep sid db)" .
  show "status_of ?db = status_of db" using assms(2) by (auto simp: status_of_def step fun_eq_iff)
qed

lemma moved_db_reads:
  assumes "getRunStep (s_step_id t) db = Some t"
  shows "getRunEdge k (moved_db st now t db) = getRunEdge k db"
    and "getRunStep sid (moved_db st now t db) =
      (if sid = s_step_id t then Some (t\<lparr>s_status := st, s_updated_at := now\<rparr>) else getRunStep sid db)"
    and "status_of (moved_db st now t db) = (status_of db)(s_step_id t := Some st)"
    and "edges (moved_db st now t db) = edges db"
proof -
  let ?db = "moved_db st now t db"
  show edges: "edges (moved_db st now t db) = edges db" by (simp add: moved_db_def)
  then show "getRunEdge k ?db = getRunEdge k db" by (rule getRunEdge_cong)
  have step: "getRunStep sid ?db =
      (if sid = s_step_id t then Some (t\<lparr>s_status := st, s_updated_at := now\<rparr>) else getRunStep sid db)" for sid
    by (rule getRunStep_replace [OF assms]) (simp_all add: moved_db_def)
  then show "getRunStep sid ?db =
      (if sid = s_step_id t then Some (t\<lparr>s_status := st, s_updated_at := now\<rparr>) else getRunStep sid db)" .
  show "status_of ?db = (status_of db)(s_step_id t := Some st)" by (auto simp: status_of_def step fun_eq_iff)
qed

lemma resolved_db_inv:
  assumes "db_inv db" and "getRunEdge (vd_ordinal v) db = Some e" and "e_edge_type e = EdgeTypeNormal"
    and "e_resolution e = EdgeResolutionUnresolved" and "getRunStep (e_to_step e) db = Some t"
  shows "db_inv (resolved_db v now e t db)"
proof (rule db_inv_edge [OF assms(1)])
  have k: "e_ordinal e = vd_ordinal v" by (rule getRunEdge_ordinal [OF assms(2)])
  have n: "s_fired_deps t + (if vd_fired v then 1 else 0)
      = s_fired_deps t + (if resolution_of (vd_fired v) = EdgeResolutionFired then 1 else 0)" by simp
  show "edge_move e (resolution_of (vd_fired v)) db (resolved_db v now e t db)"
    unfolding edge_move_def resolved_db_def k n
    using assms(2-5) unresolved_counts [OF assms] by (intro conjI exI [of _ t] exI [of _ now]) simp_all
qed

lemma moved_db_total:
  assumes "db_inv db" and "now \<noteq> 0" and "getRunStep (s_step_id t) db = Some t" and "s_status t = StepStatusPending"
  shows "ready_guard t \<Longrightarrow> ReadyStep (s_step_id t) (joins_any t) now db =
      Inr (t\<lparr>s_status := StepStatusReady, s_updated_at := now\<rparr>, moved_db StepStatusReady now t db)"
    and "skip_guard t \<Longrightarrow> SkipStep (s_step_id t) now db =
      Inr (t\<lparr>s_status := StepStatusSkipped, s_updated_at := now\<rparr>, moved_db StepStatusSkipped now t db)"
proof -
  assume "ready_guard t"
  then show "ReadyStep (s_step_id t) (joins_any t) now db =
      Inr (t\<lparr>s_status := StepStatusReady, s_updated_at := now\<rparr>, moved_db StepStatusReady now t db)"
    using ReadyStep_total [OF assms] by (simp add: ready_guard_def moved_db_def)
next
  obtain r where r: "run db = Some r" using db_inv_run_log [OF assms(1)] .
  assume "skip_guard t"
  then show "SkipStep (s_step_id t) now db =
      Inr (t\<lparr>s_status := StepStatusSkipped, s_updated_at := now\<rparr>, moved_db StepStatusSkipped now t db)"
    using SkipStep_total [OF assms _ _ r] by (simp add: skip_guard_def moved_db_def r)
qed

lemma moved_db_inv:
  assumes "db_inv db" and "now \<noteq> 0" and "getRunStep (s_step_id t) db = Some t" and "s_status t = StepStatusPending"
    and "st = StepStatusReady \<and> ready_guard t \<or> st = StepStatusSkipped \<and> skip_guard t"
  shows "db_inv (moved_db st now t db)"
  using assms(5)
proof
  assume st: "st = StepStatusReady \<and> ready_guard t"
  show ?thesis
    using db_inv.moves_keep [OF store_op_moves [OF store_op.ReadyStep [OF moved_db_total(1) [OF assms(1-4)]]]]
      assms(1) st by blast
next
  assume st: "st = StepStatusSkipped \<and> skip_guard t"
  show ?thesis
    using db_inv.moves_keep [OF store_op_moves [OF store_op.SkipStep [OF moved_db_total(2) [OF assms(1-4)]]]]
      assms(1) st by blast
qed

text \<open>The body of the inner loop in closed form: the edge resolves, and its target moves when a guard holds.\<close>

lemma fan_verdict_eq:
  assumes inv: "db_inv db" "configs_decode db" and now: "now \<noteq> 0"
    and e: "getRunEdge (vd_ordinal v) db = Some e" "e_edge_type e = EdgeTypeNormal"
      "e_resolution e = EdgeResolutionUnresolved" "getRunStep (e_to_step e) db = Some t"
    and t': "t' = count_edge (vd_fired v) now t"
  shows "fan_verdict now v (res, work, db) =
    (let db1 = resolved_db v now e t db in
     if s_status t = StepStatusPending \<and> ready_guard t'
     then Inr (res\<lparr>fo_readied := fo_readied res @ [e_to_step e]\<rparr>, work, moved_db StepStatusReady now t' db1)
     else if s_status t = StepStatusPending \<and> skip_guard t'
     then Inr (res\<lparr>fo_skipped := fo_skipped res @ [e_to_step e]\<rparr>,
               work @ [\<lparr>ts_step_id = e_to_step e, ts_verdicts = allSkippedVerdicts (listRunEdgesFromStep (e_to_step e) db1)\<rparr>],
               moved_db StepStatusSkipped now t' db1)
     else Inr (res, work, db1))"
proof -
  let ?db1 = "resolved_db v now e t db"
  have resolve: "ResolveEdge (vd_ordinal v) (vd_fired v) now db =
      Inr (\<lparr>re_resolved = True, re_edge = e\<lparr>e_resolution := resolution_of (vd_fired v)\<rparr>, re_to_step = Some t'\<rparr>, ?db1)"
    using ResolveEdge_total [OF inv(1) now e] by (simp add: resolved_db_def t')
  have t: "s_step_id t' = e_to_step e" "s_status t' = s_status t"
    using getRunStep_id [OF e(4)] by (simp_all add: t')
  have t1: "getRunStep (s_step_id t') ?db1 = Some t'" using resolved_db_reads(2) [OF e(1,4)] unfolding t(1) by (simp add: t')
  have join: "isJoinAny t' = Inr (joins_any t')"
    using inv(2) getRunStep_in_steps [OF e(4)] by (intro isJoinAny_eq) (simp add: configs_decode_def t')
  have list: "listRunEdgesFromStep (e_to_step e) (moved_db st now t' ?db1) = listRunEdgesFromStep (e_to_step e) ?db1" for st
    by (simp add: listRunEdgesFromStep_def moved_db_reads(4) [OF t1])
  have ready: "1 \<le> s_fired_deps t' \<and> (s_remaining_deps t' = 0 \<or> joins_any t') \<longleftrightarrow> ready_guard t'"
    and skip: "s_remaining_deps t' = 0 \<and> s_fired_deps t' = 0 \<longleftrightarrow> skip_guard t'"
    by (simp_all add: ready_guard_def skip_guard_def)
  note moves = moved_db_total [OF resolved_db_inv [OF inv(1) e] now t1]
  show ?thesis
    unfolding fan_verdict_def prod.case resolve andThen_simps resolve_edge_result.simps option.case join ready skip Let_def
    using moves by (simp add: t list split del: if_split cong: if_cong) (simp add: t list)
qed

lemma allSkipped_ordinals:
  assumes "db_inv db"
  shows "k \<in> vd_ordinal ` set (allSkippedVerdicts (listRunEdgesFromStep sid db)) \<longleftrightarrow>
      (\<exists>e. getRunEdge k db = Some e \<and> e_from_step e = sid \<and> e_edge_type e = EdgeTypeNormal)"
    and "v \<in> set (allSkippedVerdicts (listRunEdgesFromStep sid db)) \<Longrightarrow> \<not> vd_fired v"
    and "distinct (map vd_ordinal (allSkippedVerdicts (listRunEdgesFromStep sid db)))"
proof -
  have "vd_ordinal ` set (allSkippedVerdicts (listRunEdgesFromStep sid db)) =
      e_ordinal ` {e \<in> set (edges db). e_from_step e = sid \<and> e_edge_type e = EdgeTypeNormal}"
    by (auto simp: allSkippedVerdicts_def listRunEdgesFromStep_def image_iff)
  then show "k \<in> vd_ordinal ` set (allSkippedVerdicts (listRunEdgesFromStep sid db)) \<longleftrightarrow>
      (\<exists>e. getRunEdge k db = Some e \<and> e_from_step e = sid \<and> e_edge_type e = EdgeTypeNormal)"
    using in_edges_iff [OF assms] getRunEdge_ordinal [of k db] by auto
  show "v \<in> set (allSkippedVerdicts (listRunEdgesFromStep sid db)) \<Longrightarrow> \<not> vd_fired v"
    by (auto simp: allSkippedVerdicts_def)
  have "distinct (map e_ordinal (edges db))" using assms by (simp add: db_inv_def edges_ok_def)
  then show "distinct (map vd_ordinal (allSkippedVerdicts (listRunEdgesFromStep sid db)))"
    by (simp add: allSkippedVerdicts_def listRunEdgesFromStep_def o_def distinct_map inj_on_def)
qed

lemma settled_source_cong: "status_of db' = status_of db \<Longrightarrow> settled_source db' = settled_source db"
  by (simp add: settled_source_def fun_eq_iff)

text \<open>The edge at the head of the queue is unresolved and its target exists.\<close>

lemma fan_inv_head:
  assumes "fan_inv (v # todo) db"
  obtains e t where "getRunEdge (vd_ordinal v) db = Some e" and "e_edge_type e = EdgeTypeNormal"
    and "e_resolution e = EdgeResolutionUnresolved" and "getRunStep (e_to_step e) db = Some t"
    and "settled_source db (e_from_step e)"
    and "status_of db (e_from_step e) = Some StepStatusSkipped \<longrightarrow> \<not> vd_fired v"
proof -
  have inv: "db_inv db" "flows db (vd_ordinal ` set (v # todo))" using assms by (simp_all add: fan_inv_def)
  from assms obtain e where e: "getRunEdge (vd_ordinal v) db = Some e" "e_edge_type e = EdgeTypeNormal"
    "settled_source db (e_from_step e)" "status_of db (e_from_step e) = Some StepStatusSkipped \<longrightarrow> \<not> vd_fired v"
    unfolding fan_inv_def by auto
  obtain t where t: "getRunStep (e_to_step e) db = Some t" using edge_ends(2) [OF inv(1) e(1)] by blast
  have "follows db (vd_ordinal ` set (v # todo)) e" by (rule flowsD [OF inv(2) e(1)])
  then have "e_resolution e = EdgeResolutionUnresolved"
    using e(2) getRunEdge_ordinal [OF e(1)] by (simp add: follows_def)
  with e t show thesis by (rule_tac that)
qed

lemma resolved_db_flows:
  assumes "fan_inv (v # todo) db" and "getRunEdge (vd_ordinal v) db = Some e" and "getRunStep (e_to_step e) db = Some t"
    and "e_edge_type e = EdgeTypeNormal" and "e_resolution e = EdgeResolutionUnresolved"
  shows "flows (resolved_db v now e t db) (vd_ordinal ` set todo)"
proof (rule flowsI)
  let ?db1 = "resolved_db v now e t db"
  have inv: "db_inv db" "flows db (vd_ordinal ` set (v # todo))" "vd_ordinal v \<notin> vd_ordinal ` set todo"
    using assms(1) by (auto simp: fan_inv_def)
  have head: "settled_source db (e_from_step e)" "status_of db (e_from_step e) = Some StepStatusSkipped \<longrightarrow> \<not> vd_fired v"
    using assms(2) fan_inv_head [OF assms(1)] by (metis option.inject)+
  note reads = resolved_db_reads [OF assms(2,3)]
  have settled: "settled_source ?db1 = settled_source db" by (rule settled_source_cong [OF reads(3)])
  show "db_inv ?db1" by (rule resolved_db_inv [OF inv(1) assms(2,4,5,3)])
  show "follows ?db1 (vd_ordinal ` set todo) x" if x: "getRunEdge k ?db1 = Some x" for k x
  proof (cases "k = vd_ordinal v")
    case True
    with x have "x = e\<lparr>e_resolution := resolution_of (vd_fired v)\<rparr>" by (simp add: reads(1))
    then show ?thesis
      using head inv(3) getRunEdge_ordinal [OF assms(2)] by (simp add: follows_def settled reads(3))
  next
    case False
    with x have "getRunEdge k db = Some x" by (simp add: reads(1))
    with False flowsD [OF inv(2)] show ?thesis
      using getRunEdge_ordinal by (fastforce simp: follows_def settled reads(3))
  qed
qed

lemma configs_decode_same:
  assumes "db_inv db'" and "configs_decode db"
    and "\<And>sid s'. getRunStep sid db' = Some s' \<Longrightarrow> \<exists>s. getRunStep sid db = Some s \<and> s_step_type s' = s_step_type s \<and> s_config s' = s_config s"
  shows "configs_decode db'"
proof (rule configs_decodeI [OF assms(1)])
  fix sid s' assume "getRunStep sid db' = Some s'"
  from assms(3) [OF this] obtain s where "getRunStep sid db = Some s" "s_step_type s' = s_step_type s" "s_config s' = s_config s"
    by blast
  with assms(2) getRunStep_in_steps show "s_step_type s' = StepJoin \<longrightarrow> s_config s' \<noteq> UndecodableConfig"
    unfolding configs_decode_def by metis
qed

lemma resolved_db_todo:
  assumes "fan_inv (v # todo) db" and "getRunEdge (vd_ordinal v) db = Some e" and "getRunStep (e_to_step e) db = Some t"
    and "w \<in> set todo"
  shows "\<exists>x. getRunEdge (vd_ordinal w) (resolved_db v now e t db) = Some x \<and> e_edge_type x = EdgeTypeNormal
      \<and> settled_source (resolved_db v now e t db) (e_from_step x)
      \<and> (status_of (resolved_db v now e t db) (e_from_step x) = Some StepStatusSkipped \<longrightarrow> \<not> vd_fired w)"
proof -
  note reads = resolved_db_reads [OF assms(2,3)]
  have "vd_ordinal v \<notin> vd_ordinal ` set todo" using assms(1) by (simp add: fan_inv_def)
  then have "vd_ordinal w \<noteq> vd_ordinal v" using assms(4) by (metis image_eqI)
  with assms(1,4) show ?thesis
    unfolding reads(1,3) settled_source_cong [OF reads(3)] by (simp add: fan_inv_def)
qed

section \<open>The loops keep the invariant\<close>

lemma fan_inv_still:
  assumes fan: "fan_inv (v # todo) db" and e: "getRunEdge (vd_ordinal v) db = Some e" "getRunStep (e_to_step e) db = Some t"
    "e_edge_type e = EdgeTypeNormal" "e_resolution e = EdgeResolutionUnresolved"
    and still: "\<not> wants_move (count_edge (vd_fired v) now t)"
  shows "fan_inv todo (resolved_db v now e t db)"
proof -
  let ?db1 = "resolved_db v now e t db"
  have inv: "db_inv db" "configs_decode db" "quiet db" "distinct (map vd_ordinal todo)" using fan by (simp_all add: fan_inv_def)
  note reads = resolved_db_reads [OF e(1,2)]
  have inv1: "db_inv ?db1" by (rule resolved_db_inv [OF inv(1) e(1,3,4,2)])
  moreover have "configs_decode ?db1"
    by (rule configs_decode_same [OF inv1 inv(2)]) (auto simp: reads(2) e(2) split: if_splits)
  moreover have "quiet ?db1"
    by (rule quietI [OF inv1]) (use still quietD [OF inv(3)] in \<open>auto simp: reads(2) split: if_splits\<close>)
  moreover have "flows ?db1 (vd_ordinal ` set todo)" by (rule resolved_db_flows [OF fan e(1-4)])
  ultimately show ?thesis using inv(4) resolved_db_todo [OF fan e(1,2)] by (simp add: fan_inv_def)
qed

lemma fan_inv_ready:
  assumes fan: "fan_inv (v # todo) db" and e: "getRunEdge (vd_ordinal v) db = Some e" "getRunStep (e_to_step e) db = Some t"
    "e_edge_type e = EdgeTypeNormal" "e_resolution e = EdgeResolutionUnresolved" and now: "now \<noteq> 0"
    and guard: "s_status t = StepStatusPending" "t' = count_edge (vd_fired v) now t" "ready_guard t'"
  shows "fan_inv todo (moved_db StepStatusReady now t' (resolved_db v now e t db))"
proof -
  let ?db1 = "resolved_db v now e t db" and ?db2 = "moved_db StepStatusReady now t' (resolved_db v now e t db)"
  have inv: "db_inv db" "configs_decode db" "quiet db" "distinct (map vd_ordinal todo)" using fan by (simp_all add: fan_inv_def)
  note reads = resolved_db_reads [OF e(1,2)]
  have sid: "s_step_id t' = e_to_step e" "s_status t' = StepStatusPending"
    using getRunStep_id [OF e(2)] guard(1,2) by simp_all
  have t1: "getRunStep (s_step_id t') ?db1 = Some t'" unfolding sid by (simp add: reads(2) guard(2))
  note reads2 = moved_db_reads [OF t1]
  have inv1: "db_inv ?db1" by (rule resolved_db_inv [OF inv(1) e(1,3,4,2)])
  have inv2: "db_inv ?db2" by (rule moved_db_inv [OF inv1 now t1 sid(2)]) (simp add: guard(3))
  have pend: "status_of db (e_to_step e) = Some StepStatusPending" using e(2) guard(1) by (simp add: status_of_def)
  have st: "status_of ?db2 = (status_of db)(e_to_step e := Some StepStatusReady)" by (simp add: reads2(3) sid reads(3))
  have settled: "settled_source ?db2 = settled_source ?db1"
    using pend by (auto simp: settled_source_def st reads(3) fun_eq_iff settled_status_def)
  have fl: "flows ?db1 (vd_ordinal ` set todo)" by (rule resolved_db_flows [OF fan e(1-4)])
  have cfg: "s_step_type t' = s_step_type t" "s_config t' = s_config t" by (simp_all add: guard(2))
  have steps2: "getRunStep i ?db2 = (if i = e_to_step e
      then Some (t'\<lparr>s_status := StepStatusReady, s_updated_at := now\<rparr>) else getRunStep i db)" for i
    by (simp add: reads2(2) reads(2) sid(1))
  have "configs_decode ?db2"
    by (rule configs_decode_same [OF inv2 inv(2)]) (auto simp: steps2 e(2) cfg split: if_splits)
  moreover have "quiet ?db2"
    by (rule quietI [OF inv2]) (use quietD [OF inv(3)] in \<open>auto simp: steps2 wants_move_def split: if_splits\<close>)
  moreover have "flows ?db2 (vd_ordinal ` set todo)"
    by (rule flowsI [OF inv2]) (use flowsD [OF fl] in \<open>auto simp: reads2(1) follows_def settled st reads(3) split: if_splits\<close>)
  moreover have "\<exists>x. getRunEdge (vd_ordinal w) ?db2 = Some x \<and> e_edge_type x = EdgeTypeNormal
      \<and> settled_source ?db2 (e_from_step x) \<and> (status_of ?db2 (e_from_step x) = Some StepStatusSkipped \<longrightarrow> \<not> vd_fired w)"
    if "w \<in> set todo" for w
    using resolved_db_todo [OF fan e(1,2) that, of now] unfolding reads2(1) settled by (auto simp: st reads(3))
  ultimately show ?thesis using inv2 inv(4) by (simp add: fan_inv_def)
qed

lemma fan_inv_skip:
  assumes fan: "fan_inv (v # todo) db" and e: "getRunEdge (vd_ordinal v) db = Some e" "getRunStep (e_to_step e) db = Some t"
    "e_edge_type e = EdgeTypeNormal" "e_resolution e = EdgeResolutionUnresolved" and now: "now \<noteq> 0"
    and guard: "s_status t = StepStatusPending" "t' = count_edge (vd_fired v) now t" "skip_guard t'"
  shows "fan_inv (todo @ allSkippedVerdicts (listRunEdgesFromStep (e_to_step e) (resolved_db v now e t db)))
      (moved_db StepStatusSkipped now t' (resolved_db v now e t db))"
proof -
  let ?db1 = "resolved_db v now e t db" and ?db2 = "moved_db StepStatusSkipped now t' (resolved_db v now e t db)"
  let ?new = "allSkippedVerdicts (listRunEdgesFromStep (e_to_step e) ?db1)"
  have inv: "db_inv db" "configs_decode db" "quiet db" "distinct (map vd_ordinal todo)" using fan by (simp_all add: fan_inv_def)
  note reads = resolved_db_reads [OF e(1,2)]
  have sid: "s_step_id t' = e_to_step e" "s_status t' = StepStatusPending"
    using getRunStep_id [OF e(2)] guard(1,2) by simp_all
  have t1: "getRunStep (s_step_id t') ?db1 = Some t'" unfolding sid by (simp add: reads(2) guard(2))
  note reads2 = moved_db_reads [OF t1]
  have inv1: "db_inv ?db1" by (rule resolved_db_inv [OF inv(1) e(1,3,4,2)])
  have inv2: "db_inv ?db2" by (rule moved_db_inv [OF inv1 now t1 sid(2)]) (simp add: guard(3))
  have pend: "status_of db (e_to_step e) = Some StepStatusPending" using e(2) guard(1) by (simp add: status_of_def)
  have st: "status_of ?db2 = (status_of db)(e_to_step e := Some StepStatusSkipped)" by (simp add: reads2(3) sid reads(3))
  have settled: "settled_source ?db2 i \<longleftrightarrow> settled_source ?db1 i \<or> i = e_to_step e" for i
    by (auto simp: settled_source_def st reads(3) settled_status_def)
  have pend1: "\<not> settled_source ?db1 (e_to_step e)"
    using pend by (simp add: settled_source_def reads(3) settled_status_def)
  note ords = allSkipped_ordinals [OF inv1, where sid = "e_to_step e"]
  have fl: "flows ?db1 (vd_ordinal ` set todo)" by (rule resolved_db_flows [OF fan e(1-4)])
  have cfg: "s_step_type t' = s_step_type t" "s_config t' = s_config t" by (simp_all add: guard(2))
  have steps2: "getRunStep i ?db2 = (if i = e_to_step e
      then Some (t'\<lparr>s_status := StepStatusSkipped, s_updated_at := now\<rparr>) else getRunStep i db)" for i
    by (simp add: reads2(2) reads(2) sid(1))
  have "configs_decode ?db2"
    by (rule configs_decode_same [OF inv2 inv(2)]) (auto simp: steps2 e(2) cfg split: if_splits)
  moreover have "quiet ?db2"
    by (rule quietI [OF inv2]) (use quietD [OF inv(3)] in \<open>auto simp: steps2 wants_move_def split: if_splits\<close>)
  moreover have "flows ?db2 (vd_ordinal ` set (todo @ ?new))"
  proof (rule flowsI [OF inv2])
    fix k x assume x: "getRunEdge k ?db2 = Some x"
    then have x1: "getRunEdge k ?db1 = Some x" by (simp add: reads2(1))
    have "k \<in> vd_ordinal ` set ?new \<longleftrightarrow> e_from_step x = e_to_step e \<and> e_edge_type x = EdgeTypeNormal"
      using ords(1) x1 by auto
    then show "follows ?db2 (vd_ordinal ` set (todo @ ?new)) x"
      using flowsD [OF fl x1] getRunEdge_ordinal [OF x1] pend1
      by (auto simp: follows_def settled st reads(3) split: if_splits)
  qed
  moreover have "\<exists>x. getRunEdge (vd_ordinal w) ?db2 = Some x \<and> e_edge_type x = EdgeTypeNormal
      \<and> settled_source ?db2 (e_from_step x) \<and> (status_of ?db2 (e_from_step x) = Some StepStatusSkipped \<longrightarrow> \<not> vd_fired w)"
    if "w \<in> set (todo @ ?new)" for w
  proof (cases "w \<in> set ?new")
    case True
    then have "vd_ordinal w \<in> vd_ordinal ` set ?new" by blast
    with True ords(1,2) show ?thesis unfolding reads2(1) settled by blast
  next
    case False
    with that have "w \<in> set todo" by simp
    from resolved_db_todo [OF fan e(1,2) this, of now] obtain x where x: "getRunEdge (vd_ordinal w) ?db1 = Some x"
      "e_edge_type x = EdgeTypeNormal" "settled_source ?db1 (e_from_step x)"
      "status_of ?db1 (e_from_step x) = Some StepStatusSkipped \<longrightarrow> \<not> vd_fired w" by blast
    then have "e_from_step x \<noteq> e_to_step e" using pend1 by metis
    with x show ?thesis unfolding reads2(1) settled st by (simp add: reads(3))
  qed
  moreover have "distinct (map vd_ordinal (todo @ ?new))"
  proof -
    have "vd_ordinal w \<notin> vd_ordinal ` set ?new" if "w \<in> set todo" for w
      using resolved_db_todo [OF fan e(1,2) that, of now] ords(1) pend1 by auto
    then show ?thesis using inv(4) ords(3) by auto
  qed
  ultimately show ?thesis using inv2 by (simp add: fan_inv_def)
qed

section \<open>What changed since the fan-out began\<close>

definition fan_statuses :: "rundb \<Rightarrow> fan_out_result \<Rightarrow> rundb \<Rightarrow> bool" where
  "fan_statuses db0 res db \<longleftrightarrow>
     distinct (fo_readied res @ fo_skipped res)
   \<and> (\<forall>sid. status_of db sid = (if sid \<in> set (fo_readied res) then Some StepStatusReady
        else if sid \<in> set (fo_skipped res) then Some StepStatusSkipped else status_of db0 sid))
   \<and> (\<forall>sid \<in> set (fo_readied res) \<union> set (fo_skipped res). status_of db0 sid = Some StepStatusPending)
   \<and> (\<forall>sid \<in> set (fo_readied res). \<exists>s. getRunStep sid db = Some s \<and> ready_guard s)
   \<and> (\<forall>sid \<in> set (fo_skipped res). \<exists>s. getRunStep sid db = Some s \<and> skip_guard s)"

definition fan_edges :: "rundb \<Rightarrow> edge_verdict list \<Rightarrow> edge_verdict list \<Rightarrow> rundb \<Rightarrow> bool" where
  "fan_edges db0 vs todo db \<longleftrightarrow>
     (\<forall>k e. getRunEdge k db = Some e \<longrightarrow> (\<exists>e0. getRunEdge k db0 = Some e0
        \<and> e = e0\<lparr>e_resolution := e_resolution e\<rparr> \<and> (e_resolution e0 \<noteq> EdgeResolutionUnresolved \<longrightarrow> e = e0)))
   \<and> (\<forall>v \<in> set vs. v \<in> set todo \<or> (\<exists>e. getRunEdge (vd_ordinal v) db = Some e
        \<and> e_resolution e = resolution_of (vd_fired v)))"

text \<open>One verdict, as a change of what the tables say.\<close>

definition fan_step :: "edge_verdict \<Rightarrow> rundb \<Rightarrow> fan_out_result \<Rightarrow> rundb \<Rightarrow> fan_out_result \<Rightarrow> bool" where
  "fan_step v db res db' res' \<longleftrightarrow> (\<exists>e t t'. getRunEdge (vd_ordinal v) db = Some e
     \<and> e_resolution e = EdgeResolutionUnresolved \<and> getRunStep (e_to_step e) db = Some t
     \<and> (\<forall>k. getRunEdge k db' =
          (if k = vd_ordinal v then Some (e\<lparr>e_resolution := resolution_of (vd_fired v)\<rparr>) else getRunEdge k db))
     \<and> (\<forall>sid. getRunStep sid db' = (if sid = e_to_step e then Some t' else getRunStep sid db))
     \<and> s_remaining_deps t > 0
     \<and> s_remaining_deps t' = s_remaining_deps t - 1 \<and> s_fired_deps t' \<ge> s_fired_deps t
     \<and> s_step_type t' = s_step_type t \<and> s_config t' = s_config t
     \<and> same_state db db'
     \<and> (s_status t' = s_status t \<and> res' = res
        \<or> s_status t = StepStatusPending \<and> s_status t' = StepStatusReady \<and> ready_guard t'
          \<and> res' = res\<lparr>fo_readied := fo_readied res @ [e_to_step e]\<rparr>
        \<or> s_status t = StepStatusPending \<and> s_status t' = StepStatusSkipped \<and> skip_guard t'
          \<and> res' = res\<lparr>fo_skipped := fo_skipped res @ [e_to_step e]\<rparr>))"

lemma same_state_resolved: "db_inv db \<Longrightarrow> same_state db (resolved_db v now e t db)"
  by (auto elim!: db_inv_run_log simp: same_state_def same_run_state_def same_run_identity_def resolved_db_def)

lemma same_state_moved: "db_inv db \<Longrightarrow> same_state db (moved_db st now t db)"
  by (auto elim!: db_inv_run_log simp: same_state_def same_run_state_def same_run_identity_def moved_db_def
      run_log_event add_delta_def)

lemma fan_verdict_ok:
  assumes fan: "fan_inv (v # vs @ concat (map ts_verdicts work)) db" and now: "now \<noteq> 0"
  shows "\<exists>res' work' db'. fan_verdict now v (res, work, db) = Inr (res', work', db')
    \<and> fan_inv (vs @ concat (map ts_verdicts work')) db' \<and> fan_step v db res db' res'"
proof -
  let ?rest = "vs @ concat (map ts_verdicts work)"
  have inv: "db_inv db" "configs_decode db" using fan by (simp_all add: fan_inv_def)
  from fan_inv_head [OF fan] obtain e t where e: "getRunEdge (vd_ordinal v) db = Some e" "e_edge_type e = EdgeTypeNormal"
    "e_resolution e = EdgeResolutionUnresolved" "getRunStep (e_to_step e) db = Some t" by blast
  define t' where "t' = count_edge (vd_fired v) now t"
  let ?db1 = "resolved_db v now e t db"
  note eq = fan_verdict_eq [OF inv now e t'_def, of res work, unfolded Let_def]
  note reads = resolved_db_reads [OF e(1,4)]
  have inv1: "db_inv ?db1" by (rule resolved_db_inv [OF inv(1) e])
  have pos: "s_remaining_deps t > 0" by (rule unresolved_counts [OF inv(1) e])
  have t': "s_step_id t' = e_to_step e" "s_status t' = s_status t" "s_remaining_deps t' = s_remaining_deps t - 1"
    "s_fired_deps t' \<ge> s_fired_deps t" "s_step_type t' = s_step_type t" "s_config t' = s_config t"
    using getRunStep_id [OF e(4)] by (simp_all add: t'_def)
  have t1: "getRunStep (s_step_id t') ?db1 = Some t'" unfolding t'(1) by (simp add: reads(2) t'_def)
  note reads2 = moved_db_reads [OF t1]
  have steps2: "getRunStep i (moved_db st now t' ?db1) =
      (if i = e_to_step e then Some (t'\<lparr>s_status := st, s_updated_at := now\<rparr>) else getRunStep i db)" for i st
    by (simp add: reads2(2) reads(2) t'(1))
  have state: "same_state db ?db1" "same_state db (moved_db st now t' ?db1)" for st
    using same_state_resolved [OF inv(1)] same_state_trans [OF same_state_resolved [OF inv(1)] same_state_moved [OF inv1]]
    by blast+
  have guards: "ready_guard (t'\<lparr>s_status := st, s_updated_at := now\<rparr>) = ready_guard t'"
    "skip_guard (t'\<lparr>s_status := st, s_updated_at := now\<rparr>) = skip_guard t'" for st
    by (simp_all add: ready_guard_def skip_guard_def joins_any_def)
  consider (ready) "s_status t = StepStatusPending" "ready_guard t'"
    | (skip) "s_status t = StepStatusPending" "\<not> ready_guard t'" "skip_guard t'"
    | (still) "\<not> wants_move t'"
    by (auto simp: wants_move_def t'(2))
  then show ?thesis
  proof cases
    case ready
    have "fan_step v db res (moved_db StepStatusReady now t' ?db1) (res\<lparr>fo_readied := fo_readied res @ [e_to_step e]\<rparr>)"
      unfolding fan_step_def using ready
      by (intro exI [of _ e] exI [of _ t] exI [of _ "t'\<lparr>s_status := StepStatusReady, s_updated_at := now\<rparr>"])
         (simp add: e pos reads2(1) reads(1) steps2 t' state guards)
    moreover have "fan_inv ?rest (moved_db StepStatusReady now t' ?db1)"
      by (rule fan_inv_ready [OF fan e(1,4,2,3) now ready(1) t'_def ready(2)])
    ultimately show ?thesis unfolding eq using ready by simp
  next
    case skip
    have "fan_step v db res (moved_db StepStatusSkipped now t' ?db1) (res\<lparr>fo_skipped := fo_skipped res @ [e_to_step e]\<rparr>)"
      unfolding fan_step_def using skip
      by (intro exI [of _ e] exI [of _ t] exI [of _ "t'\<lparr>s_status := StepStatusSkipped, s_updated_at := now\<rparr>"])
         (simp add: e pos reads2(1) reads(1) steps2 t' state guards)
    moreover have "fan_inv (?rest @ allSkippedVerdicts (listRunEdgesFromStep (e_to_step e) ?db1)) (moved_db StepStatusSkipped now t' ?db1)"
      by (rule fan_inv_skip [OF fan e(1,4,2,3) now skip(1) t'_def skip(3)])
    ultimately show ?thesis unfolding eq using skip by simp
  next
    case still
    have "fan_step v db res ?db1 res"
      unfolding fan_step_def
      by (intro exI [of _ e] exI [of _ t] exI [of _ t']) (simp add: e pos reads(1,2) t' state t'_def)
    moreover have "fan_inv ?rest ?db1" by (rule fan_inv_still [OF fan e(1,4,2,3)]) (use still t'_def in simp)
    ultimately show ?thesis unfolding eq using still by (auto simp: wants_move_def t'(2))
  qed
qed

lemma fan_statuses_step:
  assumes st: "fan_statuses db0 res db" and step: "fan_step v db res db' res'"
  shows "fan_statuses db0 res' db'"
proof -
  from step obtain e :: edge_row and t t' :: step_row where t: "getRunStep (e_to_step e) db = Some t"
    and reads: "\<And>sid. getRunStep sid db' = (if sid = e_to_step e then Some t' else getRunStep sid db)"
    and deps: "s_remaining_deps t > 0" "s_remaining_deps t' = s_remaining_deps t - 1" "s_fired_deps t' \<ge> s_fired_deps t"
    and cfg: "s_step_type t' = s_step_type t" "s_config t' = s_config t"
    and move: "s_status t' = s_status t \<and> res' = res
        \<or> s_status t = StepStatusPending \<and> s_status t' = StepStatusReady \<and> ready_guard t'
          \<and> res' = res\<lparr>fo_readied := fo_readied res @ [e_to_step e]\<rparr>
        \<or> s_status t = StepStatusPending \<and> s_status t' = StepStatusSkipped \<and> skip_guard t'
          \<and> res' = res\<lparr>fo_skipped := fo_skipped res @ [e_to_step e]\<rparr>"
    unfolding fan_step_def by blast
  have status: "status_of db' = (status_of db)(e_to_step e := Some (s_status t'))"
    by (auto simp: status_of_def reads fun_eq_iff)
  have old: "status_of db (e_to_step e) = Some (s_status t)" by (simp add: status_of_def t)
  have guard: "ready_guard t \<Longrightarrow> ready_guard t'" "\<not> skip_guard t"
    using deps cfg by (auto simp: ready_guard_def skip_guard_def joins_any_def)
  have kept: "\<forall>sid \<in> set (fo_readied res). \<exists>s. getRunStep sid db' = Some s \<and> ready_guard s"
    "\<forall>sid \<in> set (fo_skipped res). \<exists>s. getRunStep sid db' = Some s \<and> skip_guard s"
    using st guard t unfolding fan_statuses_def reads by fastforce+
  from move show ?thesis
  proof (elim disjE)
    assume "s_status t' = s_status t \<and> res' = res"
    then have "status_of db' = status_of db" "res' = res" using status old by auto
    with st kept show ?thesis by (simp add: fan_statuses_def)
  next
    assume m: "s_status t = StepStatusPending \<and> s_status t' = StepStatusReady \<and> ready_guard t'
        \<and> res' = res\<lparr>fo_readied := fo_readied res @ [e_to_step e]\<rparr>"
    then have fresh: "e_to_step e \<notin> set (fo_readied res)" "e_to_step e \<notin> set (fo_skipped res)"
        "status_of db0 (e_to_step e) = Some StepStatusPending"
      using st old unfolding fan_statuses_def by (auto split: if_splits)
    with st kept m show ?thesis unfolding fan_statuses_def status by (auto simp: reads)
  next
    assume m: "s_status t = StepStatusPending \<and> s_status t' = StepStatusSkipped \<and> skip_guard t'
        \<and> res' = res\<lparr>fo_skipped := fo_skipped res @ [e_to_step e]\<rparr>"
    then have fresh: "e_to_step e \<notin> set (fo_readied res)" "e_to_step e \<notin> set (fo_skipped res)"
        "status_of db0 (e_to_step e) = Some StepStatusPending"
      using st old unfolding fan_statuses_def by (auto split: if_splits)
    with st kept m show ?thesis unfolding fan_statuses_def status by (auto simp: reads)
  qed
qed

lemma fan_edges_step:
  assumes ed: "fan_edges db0 vs (v # todo) db" and step: "fan_step v db res db' res'"
  shows "fan_edges db0 vs todo db'"
proof -
  from step obtain e where e: "getRunEdge (vd_ordinal v) db = Some e" "e_resolution e = EdgeResolutionUnresolved"
    and reads: "\<And>k. getRunEdge k db' =
        (if k = vd_ordinal v then Some (e\<lparr>e_resolution := resolution_of (vd_fired v)\<rparr>) else getRunEdge k db)"
    unfolding fan_step_def by blast
  obtain e0 where e0: "getRunEdge (vd_ordinal v) db0 = Some e0" "e = e0\<lparr>e_resolution := e_resolution e\<rparr>"
    "e_resolution e0 \<noteq> EdgeResolutionUnresolved \<longrightarrow> e = e0"
    using ed e(1) unfolding fan_edges_def by blast
  then have "e_resolution e0 = EdgeResolutionUnresolved" using e(2) by fastforce
  moreover have "e\<lparr>e_resolution := r\<rparr> = e0\<lparr>e_resolution := r\<rparr>" for r
    using e0(2) by (metis edge_row.update_convs(8) edge_row.surjective)
  moreover have "x \<in> set todo \<or> (\<exists>y. getRunEdge (vd_ordinal x) db' = Some y \<and> e_resolution y = resolution_of (vd_fired x))"
    if "x \<in> set vs" for x
  proof (cases "x = v")
    case True
    then show ?thesis by (simp add: reads)
  next
    case False
    then show ?thesis using ed that e unfolding fan_edges_def reads by (auto split: if_splits)
  qed
  ultimately show ?thesis using ed e0(1) unfolding fan_edges_def reads by (auto split: if_splits)
qed

lemma fan_edges_mono: "fan_edges db0 vs todo db \<Longrightarrow> set todo \<subseteq> set todo' \<Longrightarrow> fan_edges db0 vs todo' db"
  unfolding fan_edges_def by blast

text \<open>The state of the fan-out relative to its start.\<close>

definition fan_state :: "rundb \<Rightarrow> edge_verdict list \<Rightarrow> edge_verdict list \<Rightarrow> fan_out_result \<Rightarrow> rundb \<Rightarrow> bool" where
  "fan_state db0 vs todo res db \<longleftrightarrow> fan_inv todo db \<and> fan_statuses db0 res db \<and> fan_edges db0 vs todo db \<and> same_state db0 db"

lemma fan_verdict_state:
  assumes "fan_state db0 vs0 (v # vs @ concat (map ts_verdicts work)) res db" and "now \<noteq> 0"
  shows "\<exists>res' work' db'. fan_verdict now v (res, work, db) = Inr (res', work', db')
    \<and> fan_state db0 vs0 (vs @ concat (map ts_verdicts work')) res' db'"
proof -
  have fan: "fan_inv (v # vs @ concat (map ts_verdicts work)) db" using assms(1) by (simp add: fan_state_def)
  from fan_verdict_ok [OF fan assms(2), of res] obtain res' work' db' where
    eq: "fan_verdict now v (res, work, db) = Inr (res', work', db')"
    and inv: "fan_inv (vs @ concat (map ts_verdicts work')) db'" and step: "fan_step v db res db' res'" by blast
  have "\<exists>new. work' = work @ new"
    using eq by (auto simp: fan_verdict_def andThen_eq_Inr split: option.splits prod.splits if_splits)
  then have sub: "set (vs @ concat (map ts_verdicts work)) \<subseteq> set (vs @ concat (map ts_verdicts work'))" by auto
  have "fan_edges db0 vs0 (vs @ concat (map ts_verdicts work)) db'"
    using assms(1) by (intro fan_edges_step [OF _ step]) (simp add: fan_state_def)
  from fan_edges_mono [OF this sub] have edges: "fan_edges db0 vs0 (vs @ concat (map ts_verdicts work')) db'" .
  have "same_state db0 db'"
    using assms(1) step same_state_trans unfolding fan_state_def fan_step_def by blast
  then show ?thesis
    using eq inv edges fan_statuses_step [OF _ step] assms(1) unfolding fan_state_def by blast
qed

lemma fan_verdicts_state:
  assumes "fan_state db0 vs0 (vs @ concat (map ts_verdicts work)) res db" and "now \<noteq> 0"
  shows "\<exists>res' work' db'. fan_verdicts now vs (res, work, db) = Inr (res', work', db')
    \<and> fan_state db0 vs0 (concat (map ts_verdicts work')) res' db'"
  using assms(1)
proof (induction vs arbitrary: res work db)
  case (Cons v vs)
  from fan_verdict_state [of db0 vs0 v vs work res db now] Cons.prems assms(2)
  obtain res' work' db' where "fan_verdict now v (res, work, db) = Inr (res', work', db')"
    "fan_state db0 vs0 (vs @ concat (map ts_verdicts work')) res' db'" by auto
  with Cons.IH [of work' res' db'] show ?case by simp
qed simp

lemma fan_loop_state:
  assumes "now \<noteq> 0" and "fan_state db0 vs0 (concat (map ts_verdicts work)) res db"
  shows "\<exists>res' db'. fan_loop now res work db = Inr (res', db') \<and> fan_state db0 vs0 [] res' db'"
  using assms
proof (induction now res work db rule: fan_loop.induct)
  case (2 now res src work db)
  from fan_verdicts_state [of db0 vs0 "ts_verdicts src" work res db now] 2(2,3)
  obtain res' work' db' where eq: "fan_verdicts now (ts_verdicts src) (res, work, db) = Inr (res', work', db')"
    and st: "fan_state db0 vs0 (concat (map ts_verdicts work')) res' db'" by auto
  from 2(1) [OF eq refl refl 2(2) st] show ?case by (simp add: eq)
qed simp

lemma fanOut_ok:
  assumes inv: "db_inv db" "configs_decode db" "quiet db" and now: "now \<noteq> 0"
    and src: "settled_source db src" "status_of db src \<noteq> Some StepStatusSkipped"
    and vs: "map vd_ordinal vs = map e_ordinal (filter (\<lambda>e. e_edge_type e = EdgeTypeNormal) (listRunEdgesFromStep src db))"
    and flows: "flows db (vd_ordinal ` set vs)"
  shows "\<exists>res db'. fanOut now \<lparr>ts_step_id = src, ts_verdicts = vs\<rparr> db = Inr (res, db')
    \<and> db_inv db' \<and> configs_decode db' \<and> quiet db' \<and> flows db' {}
    \<and> fan_edges db vs [] db' \<and> fan_statuses db res db' \<and> same_state db db'
    \<and> (\<forall>sid s. status_of db sid = Some StepStatusPending \<longrightarrow> getRunStep sid db' = Some s \<longrightarrow>
         s_status s = (if ready_guard s then StepStatusReady
                       else if skip_guard s then StepStatusSkipped else StepStatusPending))"
proof -
  let ?res0 = "\<lparr>fo_readied = [], fo_skipped = []\<rparr> :: fan_out_result"
  have "distinct (map vd_ordinal vs)"
    unfolding vs using inv(1) by (simp add: db_inv_def edges_ok_def listRunEdgesFromStep_def distinct_map inj_on_def)
  moreover have "\<exists>e. getRunEdge (vd_ordinal v) db = Some e \<and> e_edge_type e = EdgeTypeNormal
      \<and> settled_source db (e_from_step e) \<and> (status_of db (e_from_step e) = Some StepStatusSkipped \<longrightarrow> \<not> vd_fired v)"
    if "v \<in> set vs" for v
  proof -
    have "vd_ordinal v \<in> set (map vd_ordinal vs)" using that by simp
    then obtain e where "e \<in> set (edges db)" "e_from_step e = src" "e_edge_type e = EdgeTypeNormal" "vd_ordinal v = e_ordinal e"
      unfolding vs by (auto simp: listRunEdgesFromStep_def)
    with src in_edges_iff [OF inv(1)] show ?thesis by metis
  qed
  ultimately have "fan_state db vs vs ?res0 db"
    using inv flows same_state_refl by (simp add: fan_state_def fan_inv_def fan_statuses_def fan_edges_def)
  then obtain res db' where run: "fan_loop now ?res0 [\<lparr>ts_step_id = src, ts_verdicts = vs\<rparr>] db = Inr (res, db')"
    and st: "fan_state db vs [] res db'"
    using fan_loop_state [OF now, of db vs "[\<lparr>ts_step_id = src, ts_verdicts = vs\<rparr>]" ?res0 db] by auto
  have fixp: "s_status s = (if ready_guard s then StepStatusReady
        else if skip_guard s then StepStatusSkipped else StepStatusPending)"
    if "status_of db sid = Some StepStatusPending" "getRunStep sid db' = Some s" for sid s
  proof -
    have stat: "fan_statuses db res db'" "quiet db'" using st by (simp_all add: fan_state_def fan_inv_def)
    have "status_of db' sid = (if sid \<in> set (fo_readied res) then Some StepStatusReady
        else if sid \<in> set (fo_skipped res) then Some StepStatusSkipped else status_of db sid)"
      using stat(1) unfolding fan_statuses_def by blast
    then have "s_status s = (if sid \<in> set (fo_readied res) then StepStatusReady
        else if sid \<in> set (fo_skipped res) then StepStatusSkipped else StepStatusPending)"
      using that by (simp add: status_of_def split: if_splits)
    moreover have "\<not> (ready_guard s \<and> skip_guard s)" by (auto simp: ready_guard_def skip_guard_def)
    moreover have "sid \<in> set (fo_readied res) \<Longrightarrow> ready_guard s" "sid \<in> set (fo_skipped res) \<Longrightarrow> skip_guard s"
      using stat(1) that(2) unfolding fan_statuses_def by fastforce+
    ultimately show ?thesis using quietD [OF stat(2) that(2)] by (auto simp: wants_move_def)
  qed
  show ?thesis using run st fixp unfolding fanOut_def fan_state_def fan_inv_def by auto
qed

section \<open>Routing\<close>

text \<open>What a normal edge says by itself: it fires when it has no predicate or a true one.\<close>

definition edge_matches :: "predicate \<Rightarrow> raw \<Rightarrow> raw \<Rightarrow> edge_row \<Rightarrow> bool result" where
  "edge_matches pred out params e = (case e_when_expr e of None \<Rightarrow> Inr True | Some w \<Rightarrow> pred w out params)"

abbreviation normal_edges :: "edge_row list \<Rightarrow> edge_row list" where
  "normal_edges es \<equiv> filter (\<lambda>e. e_edge_type e = EdgeTypeNormal) es"

text \<open>
  The verdicts on a list of normal edges, given whether an earlier edge of a branch matched:
  after the first match of a branch every edge is skipped without evaluating its predicate.
\<close>

fun routed :: "predicate \<Rightarrow> bool \<Rightarrow> raw \<Rightarrow> raw \<Rightarrow> bool \<Rightarrow> edge_row list \<Rightarrow> edge_verdict list \<Rightarrow> bool" where
  "routed pred isBranch out params matched [] vs \<longleftrightarrow> vs = []"
| "routed pred isBranch out params matched (e # es) [] \<longleftrightarrow> False"
| "routed pred isBranch out params matched (e # es) (v # vs) \<longleftrightarrow>
     vd_ordinal v = e_ordinal e
   \<and> (if isBranch \<and> matched then \<not> vd_fired v else edge_matches pred out params e = Inr (vd_fired v))
   \<and> routed pred isBranch out params (matched \<or> vd_fired v \<and> isBranch) es vs"

lemma plan_edges_from_routed:
  "plan_edges_from pred b out params m es = Inr vs \<longleftrightarrow> routed pred b out params m (normal_edges es) vs"
proof (induction es arbitrary: m vs)
  case (Cons e es)
  show ?case
  proof (cases "e_edge_type e = EdgeTypeNormal")
    case False
    then show ?thesis using Cons by simp
  next
    case True
    show ?thesis
    proof (cases vs)
      case Nil
      then show ?thesis using True by (auto simp: andThen_eq_Inr)
    next
      case (Cons v ws)
      have "v = \<lparr>vd_ordinal = k, vd_fired = f\<rparr> \<longleftrightarrow> vd_ordinal v = k \<and> vd_fired v = f" for k f by (cases v) auto
      with True Cons Cons.IH show ?thesis
        by (cases "e_when_expr e") (auto simp: andThen_eq_Inr edge_matches_def)
    qed
  qed
qed auto

lemma routed_nth:
  "routed pred b out params m es vs \<longleftrightarrow> map vd_ordinal vs = map e_ordinal es
     \<and> (\<forall>i < length vs. if b \<and> (m \<or> (\<exists>j < i. vd_fired (vs ! j))) then \<not> vd_fired (vs ! i)
          else edge_matches pred out params (es ! i) = Inr (vd_fired (vs ! i)))"
proof (induction pred b out params m es vs rule: routed.induct)
  case (3 pred b out params m e es v vs)
  have "(\<exists>j < Suc i. vd_fired ((v # vs) ! j)) \<longleftrightarrow> vd_fired v \<or> (\<exists>j < i. vd_fired (vs ! j))" for i
    by (auto simp: less_Suc_eq_0_disj)
  then show ?case using 3 by (simp add: All_less_Suc2) (auto split: if_splits)
qed auto

text \<open>
  C21.  Routing.  The verdicts on a succeeded step's normal out-edges, loop edges left out, in
  ordinal order.  A step that is no branch fires exactly the edges without a predicate or
  with a true one.  A branch fires exactly its first matching edge, an edge without a
  predicate matching always, and does not evaluate the predicates after it.  The plan is
  refused exactly when a predicate that has to be evaluated fails.
\<close>

theorem planEdges_routes:
  "planEdges pred stepType es out params = Inr vs \<longleftrightarrow>
     map vd_ordinal vs = map e_ordinal (normal_edges es)
   \<and> (\<forall>i < length vs. if stepType = StepBranch \<and> (\<exists>j < i. vd_fired (vs ! j)) then \<not> vd_fired (vs ! i)
        else edge_matches pred out params (normal_edges es ! i) = Inr (vd_fired (vs ! i)))"
  by (simp add: planEdges_def plan_edges_from_routed routed_nth)

theorem planEdges_routes_witness:
  "planEdges (\<lambda>w out params. Inr (w = ''yes'')) StepBranch
     [sample_edge\<lparr>e_when_expr := Some ''no''\<rparr>, sample_edge\<lparr>e_ordinal := 1, e_when_expr := Some ''yes''\<rparr>,
      sample_edge\<lparr>e_ordinal := 2\<rparr>] None None =
   Inr [\<lparr>vd_ordinal = 0, vd_fired = False\<rparr>, \<lparr>vd_ordinal = 1, vd_fired = True\<rparr>, \<lparr>vd_ordinal = 2, vd_fired = False\<rparr>]"
  by (subst planEdges_routes) code_simp


text \<open>The diamond run after its first step succeeded.\<close>

definition diamond_run :: rundb where
  "diamond_run = db_after (map_sum (\<lambda>_. ErrZeroNow) id (CreateRun_tx diamond plain_args)) empty_db"

definition diamond_a_done :: rundb where
  "diamond_a_done =
     (let db1 = db_after (ClaimStep ''a'' ''w1'' [] 200 7 diamond_run) diamond_run
      in db_after (SucceedStep ''a'' 7 None None None None 300 db1) db1)"


end
