(* ===== verification/Engine_Control.thy ===== *)
theory Engine_Control
  imports Engine_Flow
begin

text \<open>
  Run rollups, the failure policy and the run-level controls:
  \<^verbatim>\<open>internal/engine/complete.go\<close> (\<open>attemptRunRollup\<close>), \<^verbatim>\<open>deadletter.go\<close> (the write-off plan, the
  disposition of a dead-lettered step, the poison handler's transaction, requeue) and
  \<^verbatim>\<open>runctl.go\<close> (cancel, the cancelling-run heal, park, unpark, set budget).  Each definition is
  the body of one transaction, or a part several transactions share; it runs on the tables
  \<open>withTx\<close> hands it.
\<close>

section \<open>Rollups\<close>

definition attemptCancelRollup :: "time \<Rightarrow> rundb \<Rightarrow> (run_row option \<times> rundb) result" where
  "attemptCancelRollup now db =
     (case CancelRunRollup now db of
        Inr (rn, db') \<Rightarrow> Inr (Some rn, db')
      | Inl (ErrTransition te) \<Rightarrow> Inr (None, db)
      | Inl e \<Rightarrow> Inl e)"

definition attemptRunRollup :: "time \<Rightarrow> rundb \<Rightarrow> (run_row option \<times> rundb) result" where
  "attemptRunRollup now db =
     (case SucceedRun now db of
        Inr (rn, db') \<Rightarrow> Inr (Some rn, db')
      | Inl (ErrTransition te) \<Rightarrow>
          (case FailRunRollup now db of
             Inr (rn, db') \<Rightarrow> Inr (Some rn, db')
           | Inl (ErrTransition te') \<Rightarrow> attemptCancelRollup now db
           | Inl e \<Rightarrow> Inl e)
      | Inl e \<Rightarrow> Inl e)"

section \<open>The write-off plan\<close>

definition source_blocked :: "step_row list \<Rightarrow> step_id \<Rightarrow> bool" where
  "source_blocked ss sid \<longleftrightarrow> list_ex (\<lambda>s. s_step_id s = sid
     \<and> s_status s \<in> {StepStatusDeadLettered, StepStatusCancelled, StepStatusFailed}) ss"

definition unresolvedIn :: "edge_row list \<Rightarrow> step_id \<Rightarrow> edge_row list" where
  "unresolvedIn es sid = filter (\<lambda>e. e_edge_type e = EdgeTypeNormal
     \<and> e_resolution e = EdgeResolutionUnresolved \<and> e_to_step e = sid) es"

text \<open>Whether a step can no longer become ready, the steps of \<open>marks\<close> being written off already.\<close>

definition impossible :: "step_row list \<Rightarrow> edge_row list \<Rightarrow> step_id list \<Rightarrow> step_row \<Rightarrow> bool result" where
  "impossible ss es marks st =
     (let inc = unresolvedIn es (s_step_id st);
          blocked = filter (\<lambda>e. source_blocked ss (e_from_step e) \<or> e_from_step e \<in> set marks) inc;
          live = filter (\<lambda>e. \<not> (source_blocked ss (e_from_step e) \<or> e_from_step e \<in> set marks)) inc
      in andThen (isJoinAny st) (\<lambda>joinAny.
         Inr (if joinAny then s_fired_deps st = 0 \<and> inc \<noteq> [] \<and> live = [] else blocked \<noteq> [])))"

text \<open>One pass over the steps; the write-off list doubles as the set of marked steps.\<close>

fun write_off_pass :: "step_row list \<Rightarrow> edge_row list \<Rightarrow> step_row list \<Rightarrow> step_id list \<Rightarrow> step_id list result" where
  "write_off_pass ss es [] marks = Inr marks"
| "write_off_pass ss es (st # sts) marks =
     (if s_status st \<noteq> StepStatusPending \<or> s_step_id st \<in> set marks then write_off_pass ss es sts marks
      else andThen (impossible ss es marks st) (\<lambda>imp.
           write_off_pass ss es sts (if imp then marks @ [s_step_id st] else marks)))"

lemma write_off_pass_extends:
  "write_off_pass ss es sts marks = Inr marks' \<Longrightarrow> \<exists>new. marks' = marks @ new \<and> distinct new
     \<and> set new \<inter> set marks = {} \<and> set new \<subseteq> s_step_id ` {s \<in> set sts. s_status s = StepStatusPending}"
proof (induction sts arbitrary: marks)
  case (Cons st sts)
  show ?case
  proof (cases "s_status st \<noteq> StepStatusPending \<or> s_step_id st \<in> set marks")
    case True
    with Cons.prems have "write_off_pass ss es sts marks = Inr marks'" by (auto split: if_splits)
    from Cons.IH [OF this] obtain new where "marks' = marks @ new" "distinct new" "set new \<inter> set marks = {}"
      "set new \<subseteq> s_step_id ` {s \<in> set sts. s_status s = StepStatusPending}" by blast
    moreover have "s_step_id ` {s \<in> set sts. s_status s = StepStatusPending}
      \<subseteq> s_step_id ` {s \<in> set (st # sts). s_status s = StepStatusPending}" by auto
    ultimately show ?thesis by blast
  next
    case False
    with Cons.prems obtain imp where
      "write_off_pass ss es sts (if imp then marks @ [s_step_id st] else marks) = Inr marks'"
      by (auto simp: andThen_eq_Inr)
    from Cons.IH [OF this] obtain new where "marks' = (if imp then marks @ [s_step_id st] else marks) @ new"
      "distinct new" "set new \<inter> set (if imp then marks @ [s_step_id st] else marks) = {}"
      "set new \<subseteq> s_step_id ` {s \<in> set sts. s_status s = StepStatusPending}" by blast
    with False show ?thesis by (intro exI [of _ "(if imp then [s_step_id st] else []) @ new"]) (auto split: if_splits)
  qed
qed simp

function write_off_loop :: "step_row list \<Rightarrow> edge_row list \<Rightarrow> step_id list \<Rightarrow> step_id list result" where
  "write_off_loop ss es marks =
     andThen (write_off_pass ss es ss marks) (\<lambda>marks'.
     if length marks' = length marks then Inr marks else write_off_loop ss es marks')"
  by pat_completeness auto
termination
proof (relation "measure (\<lambda>(ss, es, marks). card (s_step_id ` set ss - set marks))")
  fix ss es marks marks'
  assume pass: "write_off_pass ss es ss marks = Inr marks'" and longer: "length marks' \<noteq> length marks"
  from write_off_pass_extends [OF pass] obtain new where new: "marks' = marks @ new" "set new \<inter> set marks = {}"
    "set new \<subseteq> s_step_id ` set ss" by blast
  with longer obtain x where "x \<in> set new" by (cases new) auto
  with new have "s_step_id ` set ss - set marks' \<subset> s_step_id ` set ss - set marks" by auto
  then show "((ss, es, marks'), (ss, es, marks)) \<in> measure (\<lambda>(ss, es, marks). card (s_step_id ` set ss - set marks))"
    by (simp add: psubset_card_mono)
qed simp

definition planWriteOff :: "step_row list \<Rightarrow> edge_row list \<Rightarrow> step_id list result" where
  "planWriteOff ss es = write_off_loop ss es []"

section \<open>The failure policy\<close>

definition cancel_steps :: "cancel_reason \<Rightarrow> time \<Rightarrow> step_id list \<Rightarrow> rundb \<Rightarrow> (step_row list \<times> rundb) result" where
  "cancel_steps why now = for_each (\<lambda>sid. CancelStep sid (Some why) now)"

definition deadLetterDisposition :: "failure_policy \<Rightarrow> time \<Rightarrow> rundb \<Rightarrow> ((step_id list \<times> bool) \<times> rundb) result" where
  "deadLetterDisposition onFailure now db =
     (if onFailure \<noteq> ContinueIndependentBranches
      then (case FailRun now db of
              Inr (_, db') \<Rightarrow> Inr (([], True), db')
            | Inl (ErrTransition te) \<Rightarrow> Inr (([], False), db)
            | Inl e \<Rightarrow> Inl e)
      else
        andThen (planWriteOff (listRunSteps db) (listRunEdges db)) (\<lambda>writeOff.
        andThen (cancel_steps CancelReasonUpstreamDeadLettered now writeOff db) (\<lambda>(_, db1).
        case FailRunRollup now db1 of
          Inr (_, db2) \<Rightarrow> Inr ((writeOff, True), db2)
        | Inl (ErrTransition te) \<Rightarrow> Inr ((writeOff, False), db1)
        | Inl e \<Rightarrow> Inl e)))"

text \<open>
  The poison handler's transaction.  \<open>onFailure\<close> is the run's immutable policy, read
  before the transaction.
\<close>

definition poison_tx :: "failure_policy \<Rightarrow> step_id \<Rightarrow> raw \<Rightarrow> raw \<Rightarrow> time \<Rightarrow> rundb
    \<Rightarrow> ((step_id list \<times> bool \<times> run_row option) \<times> rundb) result" where
  "poison_tx onFailure sid summary payload now db =
     andThen (PoisonDeadLetterStep sid summary payload now db) (\<lambda>(_, db1).
     andThen (deadLetterDisposition onFailure now db1) (\<lambda>((cancelled, runFailed), db2).
     if runFailed then Inr ((cancelled, runFailed, None), db2)
     else andThen (attemptCancelRollup now db2) (\<lambda>(finalized, db3).
          Inr ((cancelled, runFailed, finalized), db3))))"

section \<open>Cancel, park and unpark\<close>

record cancel_result =
  cx_run :: run_row
  cx_cancelled :: "step_id list"
  cx_finalized :: bool

text \<open>
  The sweep over the rows read after the run turned cancelling: claimless steps are
  cancelled, parked ones with their approval, all others are left alone.
\<close>

definition swept :: "step_row \<Rightarrow> bool" where
  "swept st \<longleftrightarrow> s_status st \<in> {StepStatusPending, StepStatusReady, StepStatusRetrying, StepStatusAwaitingHuman}"

definition cancel_swept :: "time \<Rightarrow> step_row \<Rightarrow> rundb \<Rightarrow> (step_id \<times> rundb) result" where
  "cancel_swept now st db =
     andThen (if s_status st = StepStatusAwaitingHuman
              then CancelAwaitingHumanStep (s_step_id st) (Some CancelReasonRunCancelled) now db
              else CancelStep (s_step_id st) (Some CancelReasonRunCancelled) now db)
       (\<lambda>(_, db1). Inr (s_step_id st, db1))"

definition cancelRunTx :: "run_cancel_reason option \<Rightarrow> time \<Rightarrow> rundb \<Rightarrow> (cancel_result \<times> rundb) result" where
  "cancelRunTx reason now db =
     andThen (CancelRun reason now db) (\<lambda>(rn, db1).
     andThen (for_each (cancel_swept now) (filter swept (listRunSteps db1)) db1) (\<lambda>(sids, db2).
     andThen (attemptCancelRollup now db2) (\<lambda>(finalized, db3).
     Inr (\<lparr>cx_run = rn, cx_cancelled = sids, cx_finalized = finalized \<noteq> None\<rparr>, db3))))"

definition healCancellingStep :: "step_id \<Rightarrow> uuid \<Rightarrow> time \<Rightarrow> rundb \<Rightarrow> (unit \<times> rundb) result" where
  "healCancellingStep sid c now db =
     andThen (TakeoverStep sid c now db) (\<lambda>(_, db1).
     andThen (CancelStep sid (Some CancelReasonRunCancelled) now db1) (\<lambda>(_, db2).
     andThen (attemptCancelRollup now db2) (\<lambda>(_, db3). Inr ((), db3))))"

definition dispatch_ready :: "outbox_reason \<Rightarrow> rundb \<Rightarrow> step_id list \<times> rundb" where
  "dispatch_ready why db =
     (let toDispatch = listReadyStepsWithoutOutbox db
      in (toDispatch, fold (\<lambda>sid. createOutboxTask sid why no_trace) toDispatch db))"

definition unpark_tx :: "time \<Rightarrow> rundb \<Rightarrow> ((run_row \<times> step_id list) \<times> rundb) result" where
  "unpark_tx now db =
     andThen (UnparkRun now db) (\<lambda>(rn, db1).
     let (sids, db2) = dispatch_ready OutboxReasonUnpark db1 in Inr ((rn, sids), db2))"

section \<open>Requeue\<close>

record requeue_result =
  rq_step :: step_row
  rq_run_resumed :: bool
  rq_revived :: "step_id list"
  rq_dispatched :: "step_id list"

definition revive_steps :: "time \<Rightarrow> step_id list \<Rightarrow> rundb \<Rightarrow> (step_row list \<times> rundb) result" where
  "revive_steps now = for_each (\<lambda>sid. ReviveStep sid (Some OutboxReasonDLQRequeue) now)"

definition as_if_pending :: "step_row \<Rightarrow> step_row" where
  "as_if_pending st = (if s_status st = StepStatusCancelled then st\<lparr>s_status := StepStatusPending\<rparr> else st)"

definition requeue_revive :: "time \<Rightarrow> rundb \<Rightarrow> (step_id list \<times> rundb) result" where
  "requeue_revive now db =
     (let ss = listRunSteps db in
      if \<not> list_ex (\<lambda>s. s_status s = StepStatusCancelled) ss then Inr ([], db)
      else andThen (planWriteOff (map as_if_pending ss) (listRunEdges db)) (\<lambda>still.
           let sids = map s_step_id (filter (\<lambda>s. s_status s = StepStatusCancelled \<and> s_step_id s \<notin> set still) ss)
           in andThen (revive_steps now sids db) (\<lambda>(_, db1). Inr (sids, db1))))"

definition requeue_tx :: "step_id \<Rightarrow> time \<Rightarrow> rundb \<Rightarrow> (requeue_result \<times> rundb) result" where
  "requeue_tx sid now db =
     andThen (RequeueStep sid now db) (\<lambda>(step, db1).
     case getRun db1 of None \<Rightarrow> Inl (ErrNotFound ''run'') | Some rn \<Rightarrow>
     if r_status rn = RunStatusCancelling \<or> r_status rn = RunStatusCancelled
     then Inl (ErrRunNotRequeueable (r_status rn))
     else
       andThen (if r_status rn = RunStatusFailed
                then andThen (ResumeRun now db1) (\<lambda>(_, db2). Inr (True, db2))
                else Inr (False, db1)) (\<lambda>(resumed, db2).
       andThen (requeue_revive now db2) (\<lambda>(revived, db3).
       let (sids, db4) = dispatch_ready OutboxReasonDLQRequeue db3
       in Inr (\<lparr>rq_step = step, rq_run_resumed = resumed, rq_revived = revived, rq_dispatched = sids\<rparr>, db4))))"

section \<open>The write-off plan is a least fixed point\<close>

declare write_off_loop.simps [simp del]

text \<open>
  The steps that can no longer become ready, as the comment of \<open>planWriteOff\<close> describes them:
  the least set closed under the two rules.
\<close>

inductive cut_off :: "step_row list \<Rightarrow> edge_row list \<Rightarrow> step_id \<Rightarrow> bool" for ss es where
  all: "st \<in> set ss \<Longrightarrow> s_status st = StepStatusPending \<Longrightarrow> \<not> joins_any st
    \<Longrightarrow> e \<in> set (unresolvedIn es (s_step_id st)) \<Longrightarrow> source_blocked ss (e_from_step e) \<or> cut_off ss es (e_from_step e)
    \<Longrightarrow> cut_off ss es (s_step_id st)"
| any: "st \<in> set ss \<Longrightarrow> s_status st = StepStatusPending \<Longrightarrow> joins_any st \<Longrightarrow> s_fired_deps st = 0
    \<Longrightarrow> unresolvedIn es (s_step_id st) \<noteq> []
    \<Longrightarrow> \<forall>e \<in> set (unresolvedIn es (s_step_id st)). source_blocked ss (e_from_step e) \<or> cut_off ss es (e_from_step e)
    \<Longrightarrow> cut_off ss es (s_step_id st)"

definition config_ok :: "step_row \<Rightarrow> bool" where
  "config_ok s \<longleftrightarrow> (s_step_type s = StepJoin \<longrightarrow> s_config s \<noteq> UndecodableConfig)"

lemma impossible_eq:
  "config_ok st \<Longrightarrow> impossible ss es marks st = Inr (
     if joins_any st then s_fired_deps st = 0 \<and> unresolvedIn es (s_step_id st) \<noteq> []
         \<and> (\<forall>e \<in> set (unresolvedIn es (s_step_id st)). source_blocked ss (e_from_step e) \<or> e_from_step e \<in> set marks)
     else \<exists>e \<in> set (unresolvedIn es (s_step_id st)). source_blocked ss (e_from_step e) \<or> e_from_step e \<in> set marks)"
  by (auto simp: impossible_def config_ok_def Let_def isJoinAny_eq filter_empty_conv)

lemma impossible_error: "\<not> config_ok st \<Longrightarrow> impossible ss es marks st = Inl (ErrDecode (s_step_id st))"
  by (auto simp: impossible_def config_ok_def Let_def isJoinAny_def)

lemma impossible_cut_off:
  assumes "impossible ss es marks st = Inr True" and "st \<in> set ss" and "s_status st = StepStatusPending"
    and "config_ok st" and "\<And>sid. sid \<in> set marks \<Longrightarrow> cut_off ss es sid"
  shows "cut_off ss es (s_step_id st)"
proof (cases "joins_any st")
  case True
  with assms show ?thesis by (intro cut_off.any) (auto simp: impossible_eq)
next
  case False
  with assms obtain e where "e \<in> set (unresolvedIn es (s_step_id st))"
    "source_blocked ss (e_from_step e) \<or> cut_off ss es (e_from_step e)" by (auto simp: impossible_eq)
  with False assms(2,3) show ?thesis by (intro cut_off.all)
qed

lemma write_off_pass_total:
  "list_all config_ok (filter (\<lambda>s. s_status s = StepStatusPending) sts) \<Longrightarrow> \<exists>marks'. write_off_pass ss es sts marks = Inr marks'"
  by (induction sts arbitrary: marks) (auto simp: impossible_eq split: if_splits)

lemma write_off_pass_sound:
  "write_off_pass ss es sts marks = Inr marks' \<Longrightarrow> set sts \<subseteq> set ss
     \<Longrightarrow> list_all config_ok (filter (\<lambda>s. s_status s = StepStatusPending) sts)
     \<Longrightarrow> (\<And>sid. sid \<in> set marks \<Longrightarrow> cut_off ss es sid) \<Longrightarrow> sid \<in> set marks' \<Longrightarrow> cut_off ss es sid"
proof (induction sts arbitrary: marks)
  case (Cons st sts)
  show ?case
  proof (cases "s_status st \<noteq> StepStatusPending \<or> s_step_id st \<in> set marks")
    case True
    with Cons.prems have "write_off_pass ss es sts marks = Inr marks'" by (auto split: if_splits)
    moreover have "list_all config_ok (filter (\<lambda>s. s_status s = StepStatusPending) sts)"
      using Cons.prems(3) by (auto split: if_splits)
    ultimately show ?thesis using Cons.IH [of marks] Cons.prems(2,4,5) by auto
  next
    case False
    with Cons.prems obtain imp where imp: "impossible ss es marks st = Inr imp"
      "write_off_pass ss es sts (if imp then marks @ [s_step_id st] else marks) = Inr marks'"
      by (auto simp: andThen_eq_Inr)
    have "cut_off ss es x" if "x \<in> set (if imp then marks @ [s_step_id st] else marks)" for x
      using that imp(1) impossible_cut_off [of ss es marks st] False Cons.prems(2,3,4) by (auto split: if_splits)
    with Cons.IH [OF imp(2)] Cons.prems(2,3,5) False show ?thesis by auto
  qed
qed simp

text \<open>A pass that marks nothing has reached the fixed point.\<close>

lemma write_off_pass_fixed:
  "write_off_pass ss es sts marks = Inr marks \<Longrightarrow> st \<in> set sts \<Longrightarrow> s_status st = StepStatusPending
     \<Longrightarrow> s_step_id st \<in> set marks \<or> impossible ss es marks st = Inr False"
proof (induction sts arbitrary: marks)
  case (Cons x sts)
  show ?case
  proof (cases "s_status x \<noteq> StepStatusPending \<or> s_step_id x \<in> set marks")
    case True
    with Cons show ?thesis by (auto split: if_splits)
  next
    case False
    with Cons.prems obtain imp where imp: "impossible ss es marks x = Inr imp"
      "write_off_pass ss es sts (if imp then marks @ [s_step_id x] else marks) = Inr marks"
      by (auto simp: andThen_eq_Inr)
    from write_off_pass_extends [OF imp(2)] have "\<not> imp" by (cases imp) auto
    with imp Cons.IH [of marks] Cons.prems show ?thesis by auto
  qed
qed simp

lemma write_off_pass_error:
  "write_off_pass ss es sts marks = Inl e \<Longrightarrow> \<exists>st \<in> set sts. s_status st = StepStatusPending \<and> \<not> config_ok st
     \<and> e = ErrDecode (s_step_id st)"
proof (induction sts arbitrary: marks)
  case (Cons x sts)
  show ?case
  proof (cases "s_status x \<noteq> StepStatusPending \<or> s_step_id x \<in> set marks \<or> config_ok x")
    case True
    with Cons.prems obtain marks2 where "write_off_pass ss es sts marks2 = Inl e"
      by (auto simp: impossible_eq split: if_splits)
    with Cons.IH show ?thesis by auto
  next
    case False
    with Cons.prems show ?thesis by (auto simp: impossible_error)
  qed
qed simp

lemma write_off_loop_eq:
  assumes "list_all config_ok (filter (\<lambda>s. s_status s = StepStatusPending) ss)"
    and "\<And>sid. sid \<in> set marks \<Longrightarrow> cut_off ss es sid" and "distinct marks"
  shows "\<exists>w. write_off_loop ss es marks = Inr w \<and> distinct w \<and> (\<forall>sid. sid \<in> set w \<longleftrightarrow> cut_off ss es sid)"
  using assms
proof (induction ss es marks rule: write_off_loop.induct)
  case (1 ss es marks)
  from write_off_pass_total [OF 1(2)] obtain marks' where pass: "write_off_pass ss es ss marks = Inr marks'" by blast
  from write_off_pass_extends [OF pass] obtain new where new: "marks' = marks @ new" "distinct new"
    "set new \<inter> set marks = {}" by blast
  have sound: "cut_off ss es sid" if "sid \<in> set marks'" for sid
    using write_off_pass_sound [OF pass _ 1(2,3)] that by auto
  show ?case
  proof (cases "length marks' = length marks")
    case False
    then have "write_off_loop ss es marks = write_off_loop ss es marks'"
      using pass by (subst write_off_loop.simps) simp
    moreover have "distinct marks'" using new "1.prems"(3) by auto
    ultimately show ?thesis using "1.IH" [OF pass False "1.prems"(1)] sound by simp
  next
    case True
    with new have [simp]: "marks' = marks" by simp
    have loop: "write_off_loop ss es marks = Inr marks" using pass by (subst write_off_loop.simps) simp
    have "sid \<in> set marks" if "cut_off ss es sid" for sid
      using that
    proof (induction rule: cut_off.induct)
      case (all st e)
      with "1.prems"(1) write_off_pass_fixed [of ss es ss marks st] pass show ?case
        by (auto simp: impossible_eq list_all_iff)
    next
      case (any st)
      with "1.prems"(1) write_off_pass_fixed [of ss es ss marks st] pass show ?case
        by (auto simp: impossible_eq list_all_iff)
    qed
    with loop "1.prems"(2,3) show ?thesis by blast
  qed
qed

lemma planWriteOff_ok:
  "list_all config_ok (filter (\<lambda>s. s_status s = StepStatusPending) ss)
     \<Longrightarrow> \<exists>w. planWriteOff ss es = Inr w \<and> distinct w \<and> (\<forall>sid. sid \<in> set w \<longleftrightarrow> cut_off ss es sid)"
  unfolding planWriteOff_def by (rule write_off_loop_eq) auto

end
