(* ===== verification/Engine_Rollup.thy ===== *)
theory Engine_Rollup
  imports Engine_Control
begin

text \<open>
  What the run-level transactions achieve: the rollups decide from the run's counters what
  the step rows say, a cancel leaves only running steps unsettled and finalizes the run when
  there are none, and the write-off plan is the least fixed point its comment describes.
\<close>

section \<open>Rollups read the step rows\<close>

definition terminal_step :: "step_status \<Rightarrow> bool" where
  "terminal_step st \<longleftrightarrow> st \<in> {StepStatusSucceeded, StepStatusDeadLettered, StepStatusSkipped,
     StepStatusCancelled, StepStatusCollected}"

definition all_terminal :: "rundb \<Rightarrow> bool" where
  "all_terminal db \<longleftrightarrow> (\<forall>s \<in> set (steps db). terminal_step (s_status s))"

text \<open>The status a run with these step statuses rolls up to, if any.\<close>

definition rollup_status :: "run_status \<Rightarrow> step_status list \<Rightarrow> run_status option" where
  "rollup_status st sts =
     (if st = RunStatusRunning \<or> st = RunStatusParked
      then if list_all final_status sts then Some RunStatusSucceeded
           else if list_all terminal_step sts \<and> StepStatusDeadLettered \<in> set sts then Some RunStatusFailed
           else None
      else if st = RunStatusCancelling \<and> list_all terminal_step sts then Some RunStatusCancelled
      else None)"

lemma status_counts_terminal:
  "status_count StepStatusSucceeded ss + status_count StepStatusDeadLettered ss + status_count StepStatusSkipped ss
     + status_count StepStatusCancelled ss + status_count StepStatusCollected ss
   = int (length (filter (\<lambda>s. terminal_step (s_status s)) ss))"
  by (induction ss) (simp_all add: status_count_def terminal_step_def)

lemma status_counts_final:
  "status_count StepStatusSucceeded ss + status_count StepStatusSkipped ss + status_count StepStatusCollected ss
   = int (length (filter (\<lambda>s. final_status (s_status s)) ss))"
  by (induction ss) (simp_all add: status_count_def final_status_def)

lemma length_filter_all: "length (filter P xs) = length xs \<longleftrightarrow> list_all P xs"
  by (metis filter_True length_filter_less list_all_iff nat_neq_iff)

lemma list_all_map_status: "list_all (\<lambda>s. P (s_status s)) ss = list_all P (map s_status ss)"
  by (simp add: list_all_iff)

lemma counters_rollup:
  assumes "counters_ok r ss"
  shows "steps_settled r = r_steps_total r \<longleftrightarrow> list_all terminal_step (map s_status ss)"
    and "r_steps_succeeded r + r_steps_skipped r + r_steps_collected r = r_steps_total r
         \<longleftrightarrow> list_all final_status (map s_status ss)"
    and "1 \<le> r_steps_failed r \<longleftrightarrow> StepStatusDeadLettered \<in> set (map s_status ss)"
    and "0 \<le> r_steps_failed r"
proof -
  have "steps_settled r = int (length (filter (\<lambda>s. terminal_step (s_status s)) ss))"
    using assms status_counts_terminal [of ss] by (simp add: counters_ok_def)
  then show "steps_settled r = r_steps_total r \<longleftrightarrow> list_all terminal_step (map s_status ss)"
    using assms length_filter_all [of "\<lambda>s. terminal_step (s_status s)" ss]
    by (simp only: counters_ok_def of_nat_eq_iff list_all_map_status)
  have "r_steps_succeeded r + r_steps_skipped r + r_steps_collected r = int (length (filter (\<lambda>s. final_status (s_status s)) ss))"
    using assms status_counts_final [of ss] by (simp add: counters_ok_def)
  then show "r_steps_succeeded r + r_steps_skipped r + r_steps_collected r = r_steps_total r
         \<longleftrightarrow> list_all final_status (map s_status ss)"
    using assms length_filter_all [of "\<lambda>s. final_status (s_status s)" ss]
    by (simp only: counters_ok_def of_nat_eq_iff list_all_map_status)
  have failed: "r_steps_failed r = int (length (filter (\<lambda>s. s_status s = StepStatusDeadLettered) ss))"
    using assms by (simp add: counters_ok_def status_count_def)
  show "1 \<le> r_steps_failed r \<longleftrightarrow> StepStatusDeadLettered \<in> set (map s_status ss)"
  proof
    assume "1 \<le> r_steps_failed r"
    then have "filter (\<lambda>s. s_status s = StepStatusDeadLettered) ss \<noteq> []" unfolding failed by auto
    then show "StepStatusDeadLettered \<in> set (map s_status ss)" by (force simp: filter_empty_conv)
  next
    assume "StepStatusDeadLettered \<in> set (map s_status ss)"
    then have "filter (\<lambda>s. s_status s = StepStatusDeadLettered) ss \<noteq> []" by (force simp: filter_empty_conv)
    then show "1 \<le> r_steps_failed r" unfolding failed by (simp add: Suc_leI)
  qed
  show "0 \<le> r_steps_failed r" unfolding failed by simp
qed

definition finished :: "run_status \<Rightarrow> time \<Rightarrow> run_row \<Rightarrow> run_row" where
  "finished st now r = (if st = RunStatusCancelled then r\<lparr>r_status := st, r_finished_at := Some now\<rparr>
     else r\<lparr>r_status := st, r_park_reason := None, r_finished_at := Some now\<rparr>)"

definition finish_event :: "run_status \<Rightarrow> event_payload" where
  "finish_event st = (if st = RunStatusSucceeded then EvRunSucceeded
     else if st = RunStatusFailed then EvRunFailed else EvRunCancelled)"

definition finished_db :: "run_status \<Rightarrow> time \<Rightarrow> run_row \<Rightarrow> rundb \<Rightarrow> rundb" where
  "finished_db st now r db = log_event (finish_event st) (db\<lparr>run := Some (finished st now r)\<rparr>)"

lemmas run_plumbing = transitionQueries_def lockRun_def lockRun_q_def run_queries cas_run_def appendEvent_total
  runConflict_def getRun_def transitionError_def finished_def finish_event_def finished_db_def

lemma log_ok_status [simp]:
  "log_ok (r\<lparr>r_status := st\<rparr>) es = log_ok r es" "log_ok (r\<lparr>r_finished_at := t\<rparr>) es = log_ok r es"
  "log_ok (r\<lparr>r_park_reason := p\<rparr>) es = log_ok r es" "log_ok (r\<lparr>r_cancel_reason := cr\<rparr>) es = log_ok r es"
  by (simp_all add: log_ok_def)

lemma run_rollups:
  assumes "now \<noteq> 0" and "run db = Some r" and "log_ok r (events db)"
  shows "SucceedRun now db = (if live_run r \<and> r_steps_failed r = 0
        \<and> r_steps_succeeded r + r_steps_skipped r + r_steps_collected r = r_steps_total r
      then Inr (finished RunStatusSucceeded now r, finished_db RunStatusSucceeded now r db)
      else Inl (runConflict RunStatusRunning RunStatusSucceeded db))"
    and "FailRun now db = (if live_run r \<and> 1 \<le> r_steps_failed r
      then Inr (finished RunStatusFailed now r, finished_db RunStatusFailed now r db)
      else Inl (runConflict RunStatusRunning RunStatusFailed db))"
    and "FailRunRollup now db = (if live_run r \<and> 1 \<le> r_steps_failed r \<and> steps_settled r = r_steps_total r
      then Inr (finished RunStatusFailed now r, finished_db RunStatusFailed now r db)
      else Inl (runConflict RunStatusRunning RunStatusFailed db))"
    and "CancelRunRollup now db = (if r_status r = RunStatusCancelling \<and> steps_settled r = r_steps_total r
      then Inr (finished RunStatusCancelled now r, finished_db RunStatusCancelled now r db)
      else Inl (runConflict RunStatusCancelling RunStatusCancelled db))"
  using assms by (simp_all add: SucceedRun_def FailRun_def FailRunRollup_def CancelRunRollup_def run_plumbing)

lemma runConflict_typed: "run db = Some r \<Longrightarrow> \<exists>te. runConflict a b db = ErrTransition te"
  by (simp add: runConflict_def getRun_def transitionError_def)

lemma attemptCancelRollup_eq:
  assumes "db_inv db" and "now \<noteq> 0" and "run db = Some r"
  shows "attemptCancelRollup now db =
    (if r_status r = RunStatusCancelling \<and> list_all terminal_step (map s_status (steps db))
     then Inr (Some (finished RunStatusCancelled now r), finished_db RunStatusCancelled now r db) else Inr (None, db))"
proof -
  have ok: "counters_ok r (steps db)" "log_ok r (events db)" using assms(1,3) by (simp_all add: db_inv_def run_inv_def)
  obtain te where "runConflict RunStatusCancelling RunStatusCancelled db = ErrTransition te"
    using runConflict_typed [OF assms(3)] by blast
  then show ?thesis
    unfolding attemptCancelRollup_def run_rollups(4) [OF assms(2,3) ok(2)] counters_rollup(1) [OF ok(1)] by simp
qed

lemma attemptRunRollup_eq:
  assumes "db_inv db" and "now \<noteq> 0" and "run db = Some r"
  shows "attemptRunRollup now db =
    (case rollup_status (r_status r) (map s_status (steps db)) of
       None \<Rightarrow> Inr (None, db)
     | Some st \<Rightarrow> Inr (Some (finished st now r), finished_db st now r db))"
proof -
  have ok: "counters_ok r (steps db)" "log_ok r (events db)" using assms(1,3) by (simp_all add: db_inv_def run_inv_def)
  obtain te te' where conflict: "runConflict RunStatusRunning RunStatusSucceeded db = ErrTransition te"
    "runConflict RunStatusRunning RunStatusFailed db = ErrTransition te'"
    using runConflict_typed [OF assms(3)] by meson
  have "r_steps_failed r = 0 \<longleftrightarrow> StepStatusDeadLettered \<notin> set (map s_status (steps db))"
    using counters_rollup(3,4) [OF ok(1)] by linarith
  moreover have "StepStatusDeadLettered \<notin> set (map s_status (steps db))" if "list_all final_status (map s_status (steps db))"
    using that by (auto simp: list_all_iff final_status_def)
  ultimately show ?thesis
    unfolding attemptRunRollup_def run_rollups [OF assms(2,3) ok(2)] counters_rollup(1-3) [OF ok(1)]
      attemptCancelRollup_eq [OF assms]
    by (auto simp: rollup_status_def conflict)
qed

section \<open>Cancelling a run\<close>

lemma status_of_cong: "steps db' = steps db \<Longrightarrow> status_of db' = status_of db"
  by (simp add: status_of_def getRunStep_def fun_eq_iff)

lemma finished_db_frame [simp]:
  "steps (finished_db st now r db) = steps db" "edges (finished_db st now r db) = edges db"
  "outbox (finished_db st now r db) = outbox db" "dead_letters (finished_db st now r db) = dead_letters db"
  by (simp_all add: finished_db_def)

lemma in_steps_status:
  assumes "db_inv db"
  shows "st \<in> set (map s_status (steps db)) \<longleftrightarrow> (\<exists>sid. status_of db sid = Some st)"
proof
  assume "st \<in> set (map s_status (steps db))"
  then obtain s :: step_row where "s \<in> set (steps db)" "s_status s = st" by auto
  then have "status_of db (s_step_id s) = Some st" using in_steps_iff [OF assms] by (simp add: status_of_def)
  then show "\<exists>sid. status_of db sid = Some st" by blast
next
  assume "\<exists>sid. status_of db sid = Some st"
  then show "st \<in> set (map s_status (steps db))" using getRunStep_in_steps by (fastforce simp: status_of_def)
qed

lemma all_steps_status:
  assumes "db_inv db"
  shows "list_all P (map s_status (steps db)) \<longleftrightarrow> (\<forall>sid st. status_of db sid = Some st \<longrightarrow> P st)"
  unfolding list_all_iff using in_steps_status [OF assms] by blast

lemma steps_to_status:
  assumes "steps_to K st db db'"
  shows "status_of db' sid = (if sid \<in> K then Some st else status_of db sid)"
  using assms by (auto simp: steps_to_def status_of_def moved_row_def)

lemma db_step_status:
  assumes "db_inv db" and "status_of db sid = Some st"
  shows "st \<noteq> StepStatusFailed"
  using assms getRunStep_in_steps by (fastforce simp: status_of_def db_inv_def steps_inv_def step_row_ok_def)

lemma CancelRun_total:
  assumes "now \<noteq> 0" and "run db = Some r" and "log_ok r (events db)" and "live_run r"
  shows "CancelRun (Some why) now db =
    (let r' = r\<lparr>r_status := RunStatusCancelling, r_cancel_reason := Some why, r_park_reason := None\<rparr>
     in Inr (r', log_event (EvRunCancelling why) (db\<lparr>run := Some r'\<rparr>)))"
  using assms by (simp add: CancelRun_def run_plumbing Let_def)

lemma sweep_steps:
  assumes "db_inv db" and "now \<noteq> 0"
  shows "\<exists>sids db'. for_each (cancel_swept now) (filter swept (steps db)) db = Inr (sids, db')
    \<and> steps_to (s_step_id ` set (filter swept (steps db))) StepStatusCancelled db db'"
proof (rule for_each_steps_to)
  fix st :: step_row and mid
  assume st: "st \<in> set (filter swept (steps db))" and mid: "db_inv mid"
    and same: "getRunStep (s_step_id st) mid = getRunStep (s_step_id st) db"
  have get: "getRunStep (s_step_id st) mid = Some st" using st same in_steps_iff [OF assms(1)] by auto
  show "\<exists>y db'. cancel_swept now st mid = Inr (y, db') \<and> steps_to {s_step_id st} StepStatusCancelled mid db'"
  proof (cases "s_status st = StepStatusAwaitingHuman")
    case True
    then show ?thesis using cancel_awaiting.transits [OF mid assms(2) get, of CancelReasonRunCancelled]
      by (auto simp: cancel_swept_def)
  next
    case False
    with st have "s_status st \<in> {StepStatusPending, StepStatusReady, StepStatusRetrying}" by (auto simp: swept_def)
    then show ?thesis using cancel.transits [OF mid assms(2) get, of CancelReasonRunCancelled] False
      by (auto simp: cancel_swept_def)
  qed
next
  show "distinct (map s_step_id (filter swept (steps db)))"
    using assms(1) by (simp add: db_inv_def steps_inv_def distinct_map_filter)
qed (rule assms(1))

text \<open>The rows the loop reports, in the order of the loop.\<close>

lemma for_each_ids:
  "for_each (cancel_swept now) sts db = Inr (sids, db') \<Longrightarrow> sids = map s_step_id sts"
  by (induction sts arbitrary: db sids) (auto simp: cancel_swept_def andThen_eq_Inr)

definition after_cancel :: "step_status \<Rightarrow> step_status" where
  "after_cancel st = (if st \<in> {StepStatusPending, StepStatusReady, StepStatusRetrying, StepStatusAwaitingHuman}
     then StepStatusCancelled else st)"

lemma swept_ids:
  assumes "db_inv db"
  shows "sid \<in> s_step_id ` set (filter swept (steps db)) \<longleftrightarrow>
    (\<exists>st \<in> {StepStatusPending, StepStatusReady, StepStatusRetrying, StepStatusAwaitingHuman}. status_of db sid = Some st)"
proof
  assume "sid \<in> s_step_id ` set (filter swept (steps db))"
  then obtain s :: step_row where "s \<in> set (steps db)" "swept s" "s_step_id s = sid" by auto
  then show "\<exists>st \<in> {StepStatusPending, StepStatusReady, StepStatusRetrying, StepStatusAwaitingHuman}. status_of db sid = Some st"
    using in_steps_iff [OF assms] by (auto simp: status_of_def swept_def)
next
  assume "\<exists>st \<in> {StepStatusPending, StepStatusReady, StepStatusRetrying, StepStatusAwaitingHuman}. status_of db sid = Some st"
  then obtain s where "getRunStep sid db = Some s" "swept s" by (auto simp: status_of_def swept_def)
  then show "sid \<in> s_step_id ` set (filter swept (steps db))"
    using getRunStep_in_steps [of sid db s] getRunStep_id [of sid db s] by force
qed

lemma cancelled_terminal:
  assumes "\<And>sid st. status_of db sid = Some st \<Longrightarrow> st \<noteq> StepStatusFailed"
  shows "(\<forall>sid st. map_option after_cancel (status_of db sid) = Some st \<longrightarrow> terminal_step st)
    \<longleftrightarrow> (\<forall>sid. status_of db sid \<noteq> Some StepStatusRunning)"
proof -
  have "terminal_step (after_cancel st) \<longleftrightarrow> st \<noteq> StepStatusRunning" if "st \<noteq> StepStatusFailed" for st
    using that by (cases st) (simp_all add: terminal_step_def after_cancel_def)
  then show ?thesis using assms unfolding map_option_eq_Some by metis
qed

lemma attemptCancelRollup_inv:
  assumes "db_inv db" and "attemptCancelRollup now db = Inr (x, db')"
  shows "db_inv db'"
  using assms db_inv.refines_keeps [OF refines_run_refines [OF CancelRunRollup_refines]]
  unfolding attemptCancelRollup_def by (auto split: sum.splits store_error.splits)

text \<open>
  C14.  Cancelling a run.  A running or parked run can always be cancelled.  In the same
  transaction every pending, ready, retrying or human-parked step is cancelled, the reported
  steps being exactly those, and no other step, no edge and no outbox row changes, so that
  only running steps are left unsettled; the run is cancelled when there is none and
  cancelling otherwise.
\<close>

theorem cancelRunTx_quiesces:
  assumes "db_inv db" and "now \<noteq> 0" and "run db = Some r" and "live_run r"
  shows "\<exists>res db' r'. cancelRunTx (Some why) now db = Inr (res, db') \<and> db_inv db'
    \<and> run db' = Some r' \<and> r_cancel_reason r' = Some why
    \<and> (\<forall>sid. status_of db' sid = map_option after_cancel (status_of db sid))
    \<and> cx_cancelled res = map s_step_id (filter swept (steps db))
    \<and> edges db' = edges db \<and> outbox db' = outbox db
    \<and> cx_finalized res = (\<forall>sid. status_of db sid \<noteq> Some StepStatusRunning)
    \<and> r_status r' = (if cx_finalized res then RunStatusCancelled else RunStatusCancelling)"
proof -
  define r1 where "r1 = r\<lparr>r_status := RunStatusCancelling, r_cancel_reason := Some why, r_park_reason := None\<rparr>"
  define db1 where "db1 = log_event (EvRunCancelling why) (db\<lparr>run := Some r1\<rparr>)"
  have log: "log_ok r (events db)" using assms(1,3) by (simp add: db_inv_def run_inv_def)
  have request: "CancelRun (Some why) now db = Inr (r1, db1)"
    using CancelRun_total [OF assms(2,3) log assms(4)] by (simp add: Let_def r1_def db1_def)
  have inv1: "db_inv db1" using db_inv.refines_keeps [OF refines_run_refines [OF CancelRun_refines] request assms(1)] .
  have frame1: "steps db1 = steps db" "edges db1 = edges db" "outbox db1 = outbox db" by (simp_all add: db1_def)
  from sweep_steps [OF inv1 assms(2)] obtain sids db2 where
    sweep: "for_each (cancel_swept now) (filter swept (steps db1)) db1 = Inr (sids, db2)"
    and to: "steps_to (s_step_id ` set (filter swept (steps db))) StepStatusCancelled db1 db2"
    unfolding frame1 by blast
  have inv2: "db_inv db2" and frame2: "edges db2 = edges db" "outbox db2 = outbox db"
    using to frame1 by (simp_all add: steps_to_def)
  obtain r2 where r2: "run db2 = Some r2" "r_status r2 = RunStatusCancelling" "r_cancel_reason r2 = Some why"
    using to by (auto simp: steps_to_def same_state_def db1_def run_log_event same_run_state_def r1_def)
  have status1: "status_of db1 = status_of db" by (rule status_of_cong [OF frame1(1)])
  have status2: "status_of db2 sid = map_option after_cancel (status_of db sid)" for sid
    using steps_to_status [OF to, of sid] swept_ids [OF assms(1), of sid]
    by (cases "status_of db sid") (auto simp: status1 after_cancel_def)
  have done_iff: "list_all terminal_step (map s_status (steps db2)) \<longleftrightarrow> (\<forall>sid. status_of db sid \<noteq> Some StepStatusRunning)"
    unfolding all_steps_status [OF inv2] status2 using db_step_status [OF assms(1)] by (rule cancelled_terminal)
  let ?fin = "\<forall>sid. status_of db sid \<noteq> Some StepStatusRunning"
  let ?db3 = "if ?fin then finished_db RunStatusCancelled now r2 db2 else db2"
  have roll: "attemptCancelRollup now db2 = Inr (if ?fin then Some (finished RunStatusCancelled now r2) else None, ?db3)"
    using attemptCancelRollup_eq [OF inv2 assms(2) r2(1)] r2(2) by (simp add: done_iff)
  have tx: "cancelRunTx (Some why) now db = Inr (\<lparr>cx_run = r1, cx_cancelled = sids, cx_finalized = ?fin\<rparr>, ?db3)"
    unfolding cancelRunTx_def request by (simp add: listRunSteps_def sweep roll)
  have "db_inv ?db3" using attemptCancelRollup_inv [OF inv2 roll] .
  moreover have "status_of ?db3 = status_of db2" by (rule status_of_cong) simp
  moreover have "\<exists>r'. run ?db3 = Some r' \<and> r_cancel_reason r' = Some why
      \<and> r_status r' = (if ?fin then RunStatusCancelled else RunStatusCancelling)"
    using r2 by (simp add: finished_db_def run_log_event finished_def)
  moreover have "edges ?db3 = edges db" "outbox ?db3 = outbox db" using frame2 by simp_all
  moreover have "sids = map s_step_id (filter swept (steps db))" using for_each_ids [OF sweep] by (simp add: frame1)
  ultimately show ?thesis unfolding tx using status2 by auto
qed

theorem cancelRunTx_quiesces_witness:
  "\<exists>res db'. cancelRunTx (Some RunCancelReasonManual) 300 sample_running = Inr (res, db')
     \<and> \<not> cx_finalized res \<and> status_of db' ''a'' = Some StepStatusRunning \<and> status_of db' ''b'' = Some StepStatusCancelled"
proof -
  have run: "run sample_running = Some (the (run sample_running))" "live_run (the (run sample_running))"
    and st: "status_of sample_running ''a'' = Some StepStatusRunning" "status_of sample_running ''b'' = Some StepStatusPending"
    by code_simp+
  obtain res db' where "cancelRunTx (Some RunCancelReasonManual) 300 sample_running = Inr (res, db')"
    "\<And>sid. status_of db' sid = map_option after_cancel (status_of sample_running sid)"
    "cx_finalized res = (\<forall>sid. status_of sample_running sid \<noteq> Some StepStatusRunning)"
    using cancelRunTx_quiesces [OF sample_running_inv _ run, of 300 RunCancelReasonManual] by auto
  with st show ?thesis by (auto simp: after_cancel_def)
qed

section \<open>Rollups\<close>

text \<open>
  C10.  The rollups.  A completion attempts three guarded updates over the run's counters; the
  run ends as the step rows say: succeeded when every step of a running or parked run is
  succeeded, skipped or collected, failed when every step is settled and one is
  dead-lettered, cancelled when every step of a cancelling run is settled, and unchanged
  otherwise.
\<close>

theorem attemptRunRollup_decides:
  assumes "db_inv db" and "now \<noteq> 0" and "run db = Some r"
  shows "\<exists>x db' r'. attemptRunRollup now db = Inr (x, db') \<and> db_inv db' \<and> run db' = Some r' \<and> steps db' = steps db
    \<and> (case rollup_status (r_status r) (map s_status (steps db)) of
         None \<Rightarrow> x = None \<and> db' = db
       | Some st \<Rightarrow> x = Some (finished st now r) \<and> r_status r' = st \<and> r_finished_at r' = Some now)"
proof (cases "rollup_status (r_status r) (map s_status (steps db))")
  case None
  with attemptRunRollup_eq [OF assms] assms(1,3) show ?thesis by simp
next
  case (Some st)
  have eq: "attemptRunRollup now db = Inr (Some (finished st now r), finished_db st now r db)"
    using attemptRunRollup_eq [OF assms] Some by simp
  have "rtranclp store_move db (finished_db st now r db)"
    using eq SucceedRun_refines [of now db] FailRunRollup_refines [of now db] CancelRunRollup_refines [of now db]
    unfolding attemptRunRollup_def attemptCancelRollup_def
    by (auto split: sum.splits store_error.splits dest!: refines_run_refines refinesD)
  then have "db_inv (finished_db st now r db)" using db_inv.moves_keep assms(1) by blast
  with eq Some show ?thesis by (simp add: finished_db_def run_log_event finished_def)
qed

theorem attemptRunRollup_decides_witness:
  "\<exists>db'. attemptRunRollup 300 sample_running = Inr (None, db')"
proof -
  have run: "run sample_running = Some (the (run sample_running))"
    and none: "rollup_status (r_status (the (run sample_running))) (map s_status (steps sample_running)) = None"
    by code_simp+
  show ?thesis using attemptRunRollup_decides [OF sample_running_inv _ run, of 300] by (auto simp: none)
qed

section \<open>The write-off plan\<close>

lemma write_off_pass_bad:
  assumes "st \<in> set sts" and "s_status st = StepStatusPending" and "\<not> config_ok st" and "s_step_id st \<notin> set marks"
    and "distinct (map s_step_id sts)"
  shows "\<exists>e. write_off_pass ss es sts marks = Inl e"
  using assms
proof (induction sts arbitrary: marks)
  case (Cons x sts)
  show ?case
  proof (cases "x = st")
    case True
    with Cons.prems show ?thesis by (simp add: impossible_error)
  next
    case False
    with Cons.prems have other: "st \<in> set sts" "s_step_id x \<noteq> s_step_id st" by auto
    then have rest: "\<exists>e. write_off_pass ss es sts m = Inl e" if "s_step_id st \<notin> set m" for m
      using Cons.IH [OF _ Cons.prems(2,3) that] Cons.prems(5) by simp
    show ?thesis
    proof (cases "impossible ss es marks x")
      case (Inl e)
      then show ?thesis using rest [OF Cons.prems(4)] by auto
    next
      case (Inr imp)
      then show ?thesis using rest [of "if imp then marks @ [s_step_id x] else marks"] rest [OF Cons.prems(4)]
          other(2) Cons.prems(4) by (auto split: if_splits)
    qed
  qed
qed simp

lemma write_off_loop_bad: "write_off_pass ss es ss marks = Inl e \<Longrightarrow> write_off_loop ss es marks = Inl e"
  by (subst write_off_loop.simps) simp

text \<open>
  C13.  The write-off plan.  On rows with distinct step ids it terminates.  When the
  configuration of every pending step decodes it lists, each once, exactly the steps of the
  least set that contains a pending step with an unresolved normal in-edge from a blocked or
  written-off source, and a pending join-any step without a fired edge all of whose unresolved
  in-edges have such a source; otherwise it is the decode error of a pending step.
\<close>

theorem planWriteOff_least:
  assumes "distinct (map s_step_id ss)"
  shows "case planWriteOff ss es of
      Inr w \<Rightarrow> (\<forall>s \<in> set ss. s_status s = StepStatusPending \<longrightarrow> config_ok s)
               \<and> distinct w \<and> set w = {sid. cut_off ss es sid}
    | Inl err \<Rightarrow> \<exists>s \<in> set ss. s_status s = StepStatusPending \<and> \<not> config_ok s \<and> err = ErrDecode (s_step_id s)"
proof (cases "list_all config_ok (filter (\<lambda>s. s_status s = StepStatusPending) ss)")
  case True
  then show ?thesis using planWriteOff_ok [OF True, of es] by (auto simp: list_all_iff)
next
  case False
  then obtain st :: step_row where "st \<in> set ss" "s_status st = StepStatusPending" "\<not> config_ok st"
    by (auto simp: list_all_iff)
  from write_off_pass_bad [OF this, of "[]" ss es] assms obtain e where pass: "write_off_pass ss es ss [] = Inl e" by auto
  then have "planWriteOff ss es = Inl e" unfolding planWriteOff_def by (rule write_off_loop_bad)
  with write_off_pass_error [OF pass] show ?thesis by simp
qed

theorem planWriteOff_least_witness:
  "set (case planWriteOff [sample_step ''a'' StepStatusDeadLettered 0, sample_step ''b'' StepStatusPending 1] [sample_edge]
          of Inr w \<Rightarrow> w | Inl e \<Rightarrow> []) =
     {sid. cut_off [sample_step ''a'' StepStatusDeadLettered 0, sample_step ''b'' StepStatusPending 1] [sample_edge] sid}
   \<and> planWriteOff [sample_step ''a'' StepStatusDeadLettered 0, sample_step ''b'' StepStatusPending 1] [sample_edge] = Inr [''b'']"
proof -
  let ?ss = "[sample_step ''a'' StepStatusDeadLettered 0, sample_step ''b'' StepStatusPending 1]"
  have plan: "planWriteOff ?ss [sample_edge] = Inr [''b'']" and ids: "distinct (map s_step_id ?ss)" by code_simp+
  from planWriteOff_least [OF ids, of "[sample_edge]"] plan show ?thesis by simp
qed

end
