(* ===== verification/Engine_Progress.thy ===== *)
theory Engine_Progress
  imports Engine_Rollup
begin

text \<open>
  Runs do not get stuck.  The failure policy leaves no pending step that can never become
  ready; as long as that holds, a run whose steps are all idle has settled completely.  The
  fan-out keeps the condition for plain and join-all steps, and the last part is a run with a
  join-any step for which it does not.
\<close>

section \<open>The failure policy\<close>

definition no_cut_off :: "rundb \<Rightarrow> bool" where
  "no_cut_off db \<longleftrightarrow> (\<forall>sid. \<not> cut_off (steps db) (edges db) sid)"

lemma source_blocked_iff:
  assumes "db_inv db"
  shows "source_blocked (steps db) sid \<longleftrightarrow>
    (\<exists>st \<in> {StepStatusDeadLettered, StepStatusCancelled}. status_of db sid = Some st)"
proof
  assume "source_blocked (steps db) sid"
  then obtain s :: step_row where s: "s \<in> set (steps db)" "s_step_id s = sid"
    "s_status s \<in> {StepStatusDeadLettered, StepStatusCancelled, StepStatusFailed}"
    by (auto simp: source_blocked_def list_ex_iff)
  then have "status_of db sid = Some (s_status s)" using in_steps_iff [OF assms] by (auto simp: status_of_def)
  with s(3) db_step_status [OF assms] show "\<exists>st \<in> {StepStatusDeadLettered, StepStatusCancelled}. status_of db sid = Some st"
    by auto
next
  assume "\<exists>st \<in> {StepStatusDeadLettered, StepStatusCancelled}. status_of db sid = Some st"
  then obtain s where "getRunStep sid db = Some s" "s_status s \<in> {StepStatusDeadLettered, StepStatusCancelled}"
    by (auto simp: status_of_def)
  then show "source_blocked (steps db) sid"
    using getRunStep_in_steps [of sid db s] getRunStep_id [of sid db s] by (auto simp: source_blocked_def list_ex_iff)
qed

lemma cut_off_pending:
  assumes "db_inv db" and "cut_off (steps db) (edges db) sid"
  obtains s where "getRunStep sid db = Some s" and "s_status s = StepStatusPending"
  using assms(2) by cases (use in_steps_iff [OF assms(1)] that in auto)

lemma cut_off_all:
  assumes "db_inv db" and "getRunStep sid db = Some s" and "s_status s = StepStatusPending" and "\<not> joins_any s"
    and "e \<in> set (unresolvedIn (edges db) sid)"
    and "source_blocked (steps db) (e_from_step e) \<or> cut_off (steps db) (edges db) (e_from_step e)"
  shows "cut_off (steps db) (edges db) sid"
  using cut_off.all [of s "steps db" e "edges db"] assms(3-6) getRunStep_in_steps [OF assms(2)] getRunStep_id [OF assms(2)] by simp

lemma cut_off_any:
  assumes "db_inv db" and "getRunStep sid db = Some s" and "s_status s = StepStatusPending" and "joins_any s"
    and "s_fired_deps s = 0" and "unresolvedIn (edges db) sid \<noteq> []"
    and "\<And>e. e \<in> set (unresolvedIn (edges db) sid)
      \<Longrightarrow> source_blocked (steps db) (e_from_step e) \<or> cut_off (steps db) (edges db) (e_from_step e)"
  shows "cut_off (steps db) (edges db) sid"
  using cut_off.any [of s "steps db" "edges db"] assms(3-7) getRunStep_in_steps [OF assms(2)] getRunStep_id [OF assms(2)] by simp

text \<open>Once the cut-off steps are cancelled no further step is cut off.\<close>

lemma write_off_closes:
  assumes inv: "db_inv db" and to: "steps_to {sid. cut_off (steps db) (edges db) sid} StepStatusCancelled db db'"
  shows "no_cut_off db'"
proof -
  let ?W = "{sid. cut_off (steps db) (edges db) sid}"
  have inv': "db_inv db'" and edges: "edges db' = edges db" using to by (simp_all add: steps_to_def)
  have blocked: "source_blocked (steps db') x \<longleftrightarrow> source_blocked (steps db) x \<or> x \<in> ?W" for x
    unfolding source_blocked_iff [OF inv] source_blocked_iff [OF inv'] using steps_to_status [OF to, of x] by auto
  have same: "getRunStep (s_step_id s) db = Some s" "s_step_id s \<notin> ?W"
    if "s \<in> set (steps db')" "s_status s = StepStatusPending" for s
  proof -
    have get: "getRunStep (s_step_id s) db' = Some s" using that in_steps_iff [OF inv'] by simp
    then show out: "s_step_id s \<notin> ?W" using to that(2) by (auto simp: steps_to_def moved_row_def)
    with get to show "getRunStep (s_step_id s) db = Some s" by (simp add: steps_to_def)
  qed
  have False if "cut_off (steps db') (edges db') sid" for sid
    using that
  proof (induction rule: cut_off.induct)
    case (all st e)
    then have "source_blocked (steps db) (e_from_step e) \<or> cut_off (steps db) (edges db) (e_from_step e)"
      using blocked by auto
    with all same [of st] show ?case using cut_off_all [OF inv same(1) [of st]] by (auto simp: edges)
  next
    case (any st)
    then have "source_blocked (steps db) (e_from_step e) \<or> cut_off (steps db) (edges db) (e_from_step e)"
      if "e \<in> set (unresolvedIn (edges db) (s_step_id st))" for e using blocked that by (auto simp: edges)
    with any same [of st] show ?case using cut_off_any [OF inv same(1) [of st]] by (auto simp: edges)
  qed
  then show ?thesis by (auto simp: no_cut_off_def)
qed

lemma cancel_steps_to:
  assumes "db_inv db" and "now \<noteq> 0" and "distinct w" and "\<And>sid. sid \<in> set w \<Longrightarrow> status_of db sid = Some StepStatusPending"
  shows "\<exists>rows db'. cancel_steps why now w db = Inr (rows, db') \<and> steps_to (set w) StepStatusCancelled db db'"
proof -
  have "\<exists>rows db'. for_each (\<lambda>sid. CancelStep sid (Some why) now) w db = Inr (rows, db')
      \<and> steps_to ((\<lambda>x. x) ` set w) StepStatusCancelled db db'"
  proof (rule for_each_steps_to)
    fix sid mid
    assume "sid \<in> set w" and mid: "db_inv mid" "getRunStep sid mid = getRunStep sid db"
    with assms(4) obtain s where "getRunStep sid mid = Some s" "s_status s = StepStatusPending"
      by (auto simp: status_of_def)
    then show "\<exists>y db'. CancelStep sid (Some why) now mid = Inr (y, db') \<and> steps_to {sid} StepStatusCancelled mid db'"
      using cancel.transits [OF mid(1) assms(2)] by simp
  qed (use assms in auto)
  then show ?thesis by (simp add: cancel_steps_def)
qed

lemma configs_decode_config_ok:
  "configs_decode db \<Longrightarrow> list_all config_ok (filter P (steps db))"
  by (auto simp: configs_decode_def config_ok_def list_all_iff)

lemma deadLetterDisposition_continue:
  assumes "db_inv db" and "configs_decode db" and "now \<noteq> 0" and "run db = Some r"
  shows "\<exists>w db1 r1. planWriteOff (steps db) (edges db) = Inr w \<and> distinct w
    \<and> set w = {sid. cut_off (steps db) (edges db) sid} \<and> steps_to (set w) StepStatusCancelled db db1
    \<and> run db1 = Some r1 \<and> r_status r1 = r_status r
    \<and> deadLetterDisposition ContinueIndependentBranches now db =
       (if live_run r \<and> list_all terminal_step (map s_status (steps db1)) \<and> StepStatusDeadLettered \<in> set (map s_status (steps db1))
        then Inr ((w, True), finished_db RunStatusFailed now r1 db1) else Inr ((w, False), db1))"
proof -
  from planWriteOff_ok [OF configs_decode_config_ok [OF assms(2)], of "edges db"] obtain w where
    plan: "planWriteOff (steps db) (edges db) = Inr w" and w: "distinct w" "set w = {sid. cut_off (steps db) (edges db) sid}"
    by auto
  have "status_of db sid = Some StepStatusPending" if "sid \<in> set w" for sid
    using that w(2) cut_off_pending [OF assms(1), of sid] by (auto simp: status_of_def)
  from cancel_steps_to [OF assms(1,3) w(1) this] obtain rows db1 where
    cancel: "cancel_steps CancelReasonUpstreamDeadLettered now w db = Inr (rows, db1)"
    and to: "steps_to (set w) StepStatusCancelled db db1" by blast
  have inv1: "db_inv db1" using to by (simp add: steps_to_def)
  obtain r1 where r1: "run db1 = Some r1" "r_status r1 = r_status r"
    using to assms(4) by (auto simp: steps_to_def same_state_def same_run_state_def)
  have ok: "counters_ok r1 (steps db1)" "log_ok r1 (events db1)" using inv1 r1(1) by (simp_all add: db_inv_def run_inv_def)
  obtain te where "runConflict RunStatusRunning RunStatusFailed db1 = ErrTransition te"
    using runConflict_typed [OF r1(1)] by blast
  then have "deadLetterDisposition ContinueIndependentBranches now db =
       (if live_run r \<and> list_all terminal_step (map s_status (steps db1)) \<and> StepStatusDeadLettered \<in> set (map s_status (steps db1))
        then Inr ((w, True), finished_db RunStatusFailed now r1 db1) else Inr ((w, False), db1))"
    unfolding deadLetterDisposition_def
    using plan cancel run_rollups(3) [OF assms(3) r1(1) ok(2)] counters_rollup(1,3) [OF ok(1)] r1(2)
    by (auto simp: listRunSteps_def listRunEdges_def)
  with plan w to r1 show ?thesis by blast
qed

lemma FailRun_finishes:
  assumes "db_inv db" and "FailRun now db = Inr (x, db') \<or> FailRunRollup now db = Inr (x, db')"
  shows "db_inv db'"
  using assms db_inv.refines_keeps [OF refines_run_refines [OF FailRun_refines]]
    db_inv.refines_keeps [OF refines_run_refines [OF FailRunRollup_refines]] by blast

lemma finished_run: "\<exists>r'. run (finished_db st now r db) = Some r' \<and> r_status r' = st"
  by (simp add: finished_db_def run_log_event finished_def)

lemma deadLetterDisposition_fail_fast:
  assumes "db_inv db" and "now \<noteq> 0" and "run db = Some r" and "pol \<noteq> ContinueIndependentBranches"
  shows "deadLetterDisposition pol now db =
    (if live_run r \<and> StepStatusDeadLettered \<in> set (map s_status (steps db))
     then Inr (([], True), finished_db RunStatusFailed now r db) else Inr (([], False), db))"
proof -
  have ok: "counters_ok r (steps db)" "log_ok r (events db)" using assms(1,3) by (simp_all add: db_inv_def run_inv_def)
  obtain te where "runConflict RunStatusRunning RunStatusFailed db = ErrTransition te"
    using runConflict_typed [OF assms(3)] by blast
  then show ?thesis unfolding deadLetterDisposition_def
    using assms(4) run_rollups(2) [OF assms(2,3) ok(2)] counters_rollup(3) [OF ok(1)] by auto
qed

lemma finished_failed_inv:
  assumes "db_inv db" and "now \<noteq> 0" and "run db = Some r" and "live_run r"
    and "StepStatusDeadLettered \<in> set (map s_status (steps db))"
  shows "db_inv (finished_db RunStatusFailed now r db)"
proof -
  have ok: "counters_ok r (steps db)" "log_ok r (events db)" using assms(1,3) by (simp_all add: db_inv_def run_inv_def)
  have "FailRun now db = Inr (finished RunStatusFailed now r, finished_db RunStatusFailed now r db)"
    unfolding run_rollups(2) [OF assms(2,3) ok(2)] counters_rollup(3) [OF ok(1)] using assms(4,5) by simp
  then show ?thesis using FailRun_finishes [OF assms(1)] by blast
qed

text \<open>
  C9.  The failure policy.  Under \<open>continue_independent_branches\<close> the disposition of a
  dead-lettered step cancels exactly the pending steps that can no longer become ready, after
  which no such step is left, and fails the run when every step is then settled; under any
  other policy it cancels nothing and fails the run at once.  Either way no edge and no other
  step changes, and a run that is not running or parked keeps its status.
\<close>

theorem deadLetterDisposition_applies:
  assumes "db_inv db" and "configs_decode db" and "now \<noteq> 0" and "run db = Some r"
    and "\<exists>sid. status_of db sid = Some StepStatusDeadLettered"
  shows "\<exists>w f db' r'. deadLetterDisposition pol now db = Inr ((w, f), db') \<and> db_inv db' \<and> edges db' = edges db
    \<and> (\<forall>sid. status_of db' sid = (if sid \<in> set w then Some StepStatusCancelled else status_of db sid))
    \<and> run db' = Some r' \<and> r_status r' = (if f then RunStatusFailed else r_status r)
    \<and> (if pol = ContinueIndependentBranches
       then set w = {sid. cut_off (steps db) (edges db) sid} \<and> no_cut_off db' \<and> (f \<longleftrightarrow> live_run r \<and> all_terminal db')
       else w = [] \<and> (f \<longleftrightarrow> live_run r))"
proof (cases "pol = ContinueIndependentBranches")
  case False
  have dead: "StepStatusDeadLettered \<in> set (map s_status (steps db))" using assms(5) in_steps_status [OF assms(1)] by simp
  note disp = deadLetterDisposition_fail_fast [OF assms(1,3,4) False]
  show ?thesis
  proof (cases "live_run r")
    case True
    then show ?thesis using disp finished_failed_inv [OF assms(1,3,4) True dead] finished_run [of RunStatusFailed now r db] dead False
      by (intro exI [of _ "[]"] exI [of _ True] exI [of _ "finished_db RunStatusFailed now r db"])
         (simp add: status_of_cong [OF finished_db_frame(1)])
  next
    case no: False
    then show ?thesis using disp assms(1,4) dead False by (intro exI [of _ "[]"] exI [of _ False] exI [of _ db] exI [of _ r]) simp
  qed
next
  case True
  obtain w db1 r1 where w: "set w = {sid. cut_off (steps db) (edges db) sid}"
    and to: "steps_to (set w) StepStatusCancelled db db1" and r1: "run db1 = Some r1" "r_status r1 = r_status r"
    and disp: "deadLetterDisposition ContinueIndependentBranches now db =
       (if live_run r \<and> list_all terminal_step (map s_status (steps db1)) \<and> StepStatusDeadLettered \<in> set (map s_status (steps db1))
        then Inr ((w, True), finished_db RunStatusFailed now r1 db1) else Inr ((w, False), db1))"
    using deadLetterDisposition_continue [OF assms(1-4)] by blast
  have inv1: "db_inv db1" and edges: "edges db1 = edges db" using to by (simp_all add: steps_to_def)
  have closed: "no_cut_off db1" using write_off_closes [OF assms(1)] to unfolding w .
  obtain sid where sid: "status_of db sid = Some StepStatusDeadLettered" using assms(5) by blast
  have "sid \<notin> set w"
  proof
    assume "sid \<in> set w"
    then have "cut_off (steps db) (edges db) sid" unfolding w by simp
    then obtain s where "getRunStep sid db = Some s" "s_status s = StepStatusPending" by (rule cut_off_pending [OF assms(1)])
    with sid show False by (simp add: status_of_def)
  qed
  then have dead: "StepStatusDeadLettered \<in> set (map s_status (steps db1))"
    unfolding in_steps_status [OF inv1] using steps_to_status [OF to, of sid] sid by auto
  have settled: "list_all terminal_step (map s_status (steps db1)) \<longleftrightarrow> all_terminal db1"
    by (simp add: list_all_iff all_terminal_def)
  show ?thesis
  proof (cases "live_run r \<and> all_terminal db1")
    case True
    have "no_cut_off (finished_db RunStatusFailed now r1 db1)" "all_terminal (finished_db RunStatusFailed now r1 db1)"
      using closed True by (simp_all add: no_cut_off_def all_terminal_def)
    with True show ?thesis using disp dead settled \<open>pol = ContinueIndependentBranches\<close> w edges r1(2)
        finished_failed_inv [OF inv1 assms(3) r1(1) _ dead] finished_run [of RunStatusFailed now r1 db1]
        steps_to_status [OF to] status_of_cong [OF finished_db_frame(1), of RunStatusFailed now r1 db1]
      by (intro exI [of _ w] exI [of _ True] exI [of _ "finished_db RunStatusFailed now r1 db1"]) simp
  next
    case False
    then show ?thesis using disp dead settled \<open>pol = ContinueIndependentBranches\<close> w closed edges r1 inv1 steps_to_status [OF to]
      by (intro exI [of _ w] exI [of _ False] exI [of _ db1] exI [of _ r1]) simp
  qed
qed

text \<open>The sample run with its first step dead-lettered.\<close>

definition sample_dead :: rundb where
  "sample_dead = db_after (DeadLetterStep ''a'' 7 DeadLetterSourcePermanent (Some AttemptOutcomePermanent) None None None None
     300 sample_running) sample_running"

theorem deadLetterDisposition_applies_witness:
  "\<exists>w db' r'. deadLetterDisposition ContinueIndependentBranches 400 sample_dead = Inr ((w, True), db')
    \<and> set w = {sid. cut_off (steps sample_dead) (edges sample_dead) sid} \<and> run db' = Some r' \<and> r_status r' = RunStatusFailed"
proof -
  have inv: "db_inv sample_dead" and dec: "configs_decode sample_dead"
    and run: "run sample_dead = Some (the (run sample_dead))" by code_simp+
  have dead: "status_of sample_dead ''a'' = Some StepStatusDeadLettered" by code_simp
  have flag: "case deadLetterDisposition ContinueIndependentBranches 400 sample_dead of Inr ((w, f), db') \<Rightarrow> f | _ \<Rightarrow> False"
    by code_simp
  from dead have "\<exists>sid. status_of sample_dead sid = Some StepStatusDeadLettered" by blast
  from deadLetterDisposition_applies [OF inv dec _ run this, of 400 ContinueIndependentBranches] flag show ?thesis by auto
qed

end
