(* ===== verification/Engine_Complete.thy ===== *)
theory Engine_Complete
  imports Budget Backoff Blackboard Engine_Progress
begin

text \<open>
  The completion transactions of \<^verbatim>\<open>internal/engine\<close>: success, failure and throttle (\<^verbatim>\<open>complete.go\<close>), failed
  validation (\<^verbatim>\<open>validate.go\<close>), budget park (\<^verbatim>\<open>budget.go\<close>) and the park for a human (\<^verbatim>\<open>approval.go\<close>).

  A transaction runs on the tables of the run, its ledger and its blackboard, \<open>txdb\<close>.  What a handler
  prepares before its transaction is the argument record: the decoded plan, the priced rows, the
  planned writes, the encoded payloads.
\<close>

section \<open>Transactions over all tables\<close>

record txdb =
  tx_run :: rundb
  tx_ledger :: "cost_row list"
  tx_board :: "bb_entry list"

datatype tx_error = TxStore store_error | TxBoard board_error | TxExpand expand_error | TxPlanEdges store_error

definition on_run :: "(rundb \<Rightarrow> ('a \<times> rundb) result) \<Rightarrow> txdb \<Rightarrow> tx_error + 'a \<times> txdb" where
  "on_run f tx = (case f (tx_run tx) of Inl e \<Rightarrow> Inl (TxStore e) | Inr (x, db) \<Rightarrow> Inr (x, tx\<lparr>tx_run := db\<rparr>))"

definition charge_rows :: "cost_args option \<Rightarrow> cost_args list \<Rightarrow> txdb \<Rightarrow> tx_error + unit \<times> txdb" where
  "charge_rows costRow overheadRows tx =
     (case applyCostRows costRow overheadRows \<lparr>cs_run = tx_run tx, cs_ledger = tx_ledger tx\<rparr> of
        Inl e \<Rightarrow> Inl (TxStore e) | Inr cs \<Rightarrow> Inr ((), tx\<lparr>tx_run := cs_run cs, tx_ledger := cs_ledger cs\<rparr>))"

definition on_board :: "(boarddb \<Rightarrow> board_error + boarddb) \<Rightarrow> txdb \<Rightarrow> tx_error + unit \<times> txdb" where
  "on_board f tx = (case f \<lparr>bd_run = tx_run tx, bd_entries = tx_board tx\<rparr> of
     Inl e \<Rightarrow> Inl (TxBoard e) | Inr bd \<Rightarrow> Inr ((), tx\<lparr>tx_run := bd_run bd, tx_board := bd_entries bd\<rparr>))"

definition applyThreadAppend :: "step_row \<Rightarrow> json \<Rightarrow> token_counter \<Rightarrow> time \<Rightarrow> boarddb \<Rightarrow> board_error + boarddb" where
  "applyThreadAppend s msg counter now bd =
     andThen (NormalizeTags [TagThread]) (\<lambda>tags.
     andThen (map_sum BoardStore id (PutBlackboardEntry (write_args s counter now DefaultThreadKey msg tags) bd)) (\<lambda>(_, bd1).
     Inr bd1))"

definition lock_status :: "time \<Rightarrow> txdb \<Rightarrow> tx_error + run_status \<times> txdb" where
  "lock_status now tx = (case LockRunStatus now (tx_run tx) of Inl e \<Rightarrow> Inl (TxStore e) | Inr st \<Rightarrow> Inr (st, tx))"

definition dispatch_readied :: "trace_context \<Rightarrow> step_id list \<Rightarrow> txdb \<Rightarrow> txdb" where
  "dispatch_readied tr sids tx =
     tx\<lparr>tx_run := fold (\<lambda>sid. createOutboxTask sid OutboxReasonStepReady tr) sids (tx_run tx)\<rparr>"

datatype completion =
  SettledCancelled bool | Succeeded "expand_result option" fan_out_result bool | Retrying time | Collected fan_out_result bool
| DeadLettered dead_letter_source "step_id list" bool | SemanticRetrying int | Throttled time | BudgetParked | AwaitsHuman

text \<open>On a cancelling run a completion that is no success settles the step as cancelled.\<close>

definition settle_cancelled :: "step_id \<Rightarrow> uuid \<Rightarrow> raw \<Rightarrow> time \<Rightarrow> txdb \<Rightarrow> tx_error + completion \<times> txdb" where
  "settle_cancelled sid c err now tx =
     andThen (on_run (CancelRunningStep sid c (Some CancelReasonRunCancelled) err now) tx) (\<lambda>(_, tx1).
     andThen (on_run (attemptCancelRollup now) tx1) (\<lambda>(terminal, tx2).
     Inr (SettledCancelled (terminal \<noteq> None), tx2)))"

section \<open>Success\<close>

record success_args =
  su_step :: step_row
  su_claim :: uuid
  su_out :: raw
  su_usage :: raw
  su_verdict :: raw
  su_repair :: raw
  su_cost :: "cost_args option"
  su_overheads :: "cost_args list"
  su_writes :: "planned_write list"
  su_thread :: "json option"
  su_counter :: token_counter
  su_expand :: "expand_args option"
  su_exhausted :: "string option"
  su_no_progress :: "string option"
  su_params :: raw
  su_trace :: trace_context
  su_now :: time

definition fan_out_from :: "predicate \<Rightarrow> step_row \<Rightarrow> raw \<Rightarrow> raw \<Rightarrow> trace_context \<Rightarrow> time \<Rightarrow> txdb
    \<Rightarrow> tx_error + fan_out_result \<times> txdb" where
  "fan_out_from pred step out params tr now tx =
     andThen (map_sum TxPlanEdges id
       (planEdges pred (s_step_type step) (listRunEdgesFromStep (s_step_id step) (tx_run tx)) out params)) (\<lambda>vs.
     andThen (on_run (fanOut now \<lparr>ts_step_id = s_step_id step, ts_verdicts = vs\<rparr>) tx) (\<lambda>(fanned, tx1).
     Inr (fanned, dispatch_readied tr (fo_readied fanned) tx1)))"

text \<open>The part a cancelling run skips: expansion, loop records, fan-out and dispatch.\<close>

definition success_effects :: "predicate \<Rightarrow> (nat \<Rightarrow> dag_step \<Rightarrow> issue list) \<Rightarrow> (expansion_input \<Rightarrow> graph \<Rightarrow> issue list)
    \<Rightarrow> (string \<Rightarrow> expr_status) \<Rightarrow> success_args \<Rightarrow> txdb \<Rightarrow> tx_error + (expand_result option \<times> fan_out_result) \<times> txdb" where
  "success_effects pred stepIssues refIssues compile a tx =
     andThen (case su_expand a of None \<Rightarrow> Inr (None, tx)
       | Some args \<Rightarrow> (case ExpandRun stepIssues refIssues compile args (tx_run tx) of
           Inl e \<Rightarrow> Inl (TxExpand e) | Inr (res, db) \<Rightarrow> Inr (Some res, tx\<lparr>tx_run := db\<rparr>))) (\<lambda>(expanded, tx1).
     andThen (case su_exhausted a of None \<Rightarrow> Inr ((), tx1) | Some ev \<Rightarrow> on_run (RecordLoopExhausted ev (su_now a)) tx1) (\<lambda>(_, tx2).
     andThen (case su_no_progress a of None \<Rightarrow> Inr ((), tx2) | Some ev \<Rightarrow> on_run (RecordLoopNoProgress ev (su_now a)) tx2) (\<lambda>(_, tx3).
     andThen (fan_out_from pred (su_step a) (su_out a) (su_params a) (su_trace a) (su_now a) tx3) (\<lambda>(fanned, tx4).
     Inr ((expanded, fanned), tx4)))))"

definition success_tx :: "predicate \<Rightarrow> (nat \<Rightarrow> dag_step \<Rightarrow> issue list) \<Rightarrow> (expansion_input \<Rightarrow> graph \<Rightarrow> issue list)
    \<Rightarrow> (string \<Rightarrow> expr_status) \<Rightarrow> success_args \<Rightarrow> txdb \<Rightarrow> tx_error + completion \<times> txdb" where
  "success_tx pred stepIssues refIssues compile a tx =
     andThen (lock_status (su_now a) tx) (\<lambda>(status, tx0).
     andThen (on_run (SucceedStep (s_step_id (su_step a)) (su_claim a) (su_out a) (su_usage a) (su_verdict a) (su_repair a) (su_now a)) tx0)
       (\<lambda>(_, tx1).
     andThen (charge_rows (su_cost a) (su_overheads a) tx1) (\<lambda>(_, tx2).
     andThen (if su_writes a = [] then Inr ((), tx2)
              else on_board (applyBlackboardWrites (su_step a) (su_writes a) (su_counter a) (su_now a)) tx2) (\<lambda>(_, tx3).
     andThen (case su_thread a of None \<Rightarrow> Inr ((), tx3)
       | Some msg \<Rightarrow> on_board (applyThreadAppend (su_step a) msg (su_counter a) (su_now a)) tx3) (\<lambda>(_, tx4).
     andThen (if status = RunStatusCancelling then Inr ((None, \<lparr>fo_readied = [], fo_skipped = []\<rparr>), tx4)
              else success_effects pred stepIssues refIssues compile a tx4) (\<lambda>((expanded, fanned), tx5).
     andThen (on_run (attemptRunRollup (su_now a)) tx5) (\<lambda>(terminal, tx6).
     Inr (Succeeded expanded fanned (terminal \<noteq> None), tx6))))))))"

section \<open>Failure\<close>

datatype retry_route = RouteRetry time | RouteTerminal bool

text \<open>The retry decision; the flag of a terminal failure says that the attempts are used up.\<close>

definition failure_route :: "retry_policy_error + resolved_retry_policy \<Rightarrow> error_class \<Rightarrow> int \<Rightarrow> rat \<Rightarrow> time \<Rightarrow> retry_route" where
  "failure_route policy class prior draw now = (case policy of Inl _ \<Rightarrow> RouteTerminal False | Inr p \<Rightarrow>
     if \<not> Retries p (class_name class) then RouteTerminal False
     else if prior + 1 \<ge> rr_max_attempts p then RouteTerminal True
     else (case retryDelay p (prior + 1) draw of Inl _ \<Rightarrow> RouteTerminal False | Inr delay \<Rightarrow> RouteRetry (now + delay)))"

definition collectErrorMarker :: "error_class \<Rightarrow> raw" where
  "collectErrorMarker class = Some (JObj [(''map_item_failed'', JBool True), (''class'', JStr (class_name class))])"

text \<open>\<open>collects\<close> reads \<^verbatim>\<open>on_item_failure\<close> from a map step's configuration.\<close>

definition isCollectErrorsInstance :: "(step_config \<Rightarrow> bool) \<Rightarrow> step_row \<Rightarrow> rundb \<Rightarrow> bool" where
  "isCollectErrorsInstance collects step db =
     (case (s_origin_step step, s_origin_kind step) of
        (Some origin, Some OriginMap) \<Rightarrow> (case getRunStep origin db of None \<Rightarrow> False | Some o' \<Rightarrow> collects (s_config o'))
      | _ \<Rightarrow> False)"

record failure_args =
  fa_step :: step_row
  fa_claim :: uuid
  fa_class :: error_class
  fa_payload :: raw
  fa_usage :: raw
  fa_cost :: "cost_args option"
  fa_overheads :: "cost_args list"
  fa_collect :: bool
  fa_params :: raw
  fa_draw :: rat
  fa_trace :: trace_context
  fa_now :: time

text \<open>A dead letter and what the run's failure policy does about it.\<close>

definition dead_letter_tx :: "step_id \<Rightarrow> uuid \<Rightarrow> dead_letter_source \<Rightarrow> attempt_outcome \<Rightarrow> raw \<Rightarrow> raw \<Rightarrow> raw \<Rightarrow> raw
    \<Rightarrow> cost_args option \<Rightarrow> cost_args list \<Rightarrow> time \<Rightarrow> txdb \<Rightarrow> tx_error + completion \<times> txdb" where
  "dead_letter_tx sid c src outcome payload usage verdict repair costRow overheadRows now tx =
     andThen (on_run (DeadLetterStep sid c src (Some outcome) payload usage verdict repair now) tx) (\<lambda>(_, tx1).
     andThen (charge_rows costRow overheadRows tx1) (\<lambda>(_, tx2).
     case getRun (tx_run tx2) of None \<Rightarrow> Inl (TxStore (ErrNotFound ''run'')) | Some rn \<Rightarrow>
     andThen (on_run (deadLetterDisposition (r_on_failure rn) now) tx2) (\<lambda>((cancelled, runFailed), tx3).
     Inr (DeadLettered src cancelled runFailed, tx3))))"

definition failure_tx :: "predicate \<Rightarrow> failure_args \<Rightarrow> txdb \<Rightarrow> tx_error + completion \<times> txdb" where
  "failure_tx pred a tx =
     (let sid = s_step_id (fa_step a); outcome = class_outcome (fa_class a); now = fa_now a in
      andThen (lock_status now tx) (\<lambda>(status, tx0).
      if status = RunStatusCancelling then settle_cancelled sid (fa_claim a) (fa_payload a) now tx0
      else case failure_route (decodeRetryPolicy (s_retry_policy (fa_step a))) (fa_class a)
                  (countCountedFailures sid (tx_run tx0)) (fa_draw a) now of
        RouteRetry fireAt \<Rightarrow>
          andThen (on_run (RetryStep sid (fa_claim a) (Some outcome) (fa_payload a) (fa_usage a) fireAt now) tx0) (\<lambda>(_, tx1).
          andThen (charge_rows (fa_cost a) (fa_overheads a) tx1) (\<lambda>(_, tx2). Inr (Retrying fireAt, tx2)))
      | RouteTerminal exhausted \<Rightarrow>
          if fa_collect a
          then let marker = collectErrorMarker (fa_class a) in
            andThen (on_run (CollectFailStep sid (fa_claim a) (Some outcome) marker (fa_payload a) (fa_usage a) now) tx0) (\<lambda>(_, tx1).
            andThen (charge_rows (fa_cost a) (fa_overheads a) tx1) (\<lambda>(_, tx2).
            andThen (fan_out_from pred (fa_step a) marker (fa_params a) (fa_trace a) now tx2) (\<lambda>(fanned, tx3).
            andThen (on_run (attemptRunRollup now) tx3) (\<lambda>(terminal, tx4).
            Inr (Collected fanned (terminal \<noteq> None), tx4)))))
          else dead_letter_tx sid (fa_claim a)
                 (if exhausted then DeadLetterSourceRetriesExhausted else DeadLetterSourcePermanent)
                 outcome (fa_payload a) (fa_usage a) None None (fa_cost a) (fa_overheads a) now tx0))"

section \<open>Failed validation\<close>

definition EffectiveMaxAttempts :: "int option \<Rightarrow> int" where
  "EffectiveMaxAttempts p = (case p of None \<Rightarrow> 1 | Some n \<Rightarrow> if n \<le> 0 then 1 else n)"

record verdict_entry =
  vh_attempt_no :: int
  vh_semantic_attempt :: nat
  vh_verdict :: raw

definition collectVerdictHistory :: "attempt_row list \<Rightarrow> int \<Rightarrow> raw \<Rightarrow> verdict_entry list" where
  "collectVerdictHistory ats currentAttempt currentVerdict =
     (let judged = filter (\<lambda>a. at_outcome a = Some AttemptOutcomeValidationFailed \<and> at_verdict a \<noteq> None) ats in
      map (\<lambda>(i, a). \<lparr>vh_attempt_no = at_attempt_no a, vh_semantic_attempt = i, vh_verdict = at_verdict a\<rparr>) (enumerate 1 judged)
      @ [\<lparr>vh_attempt_no = currentAttempt, vh_semantic_attempt = length judged + 1, vh_verdict = currentVerdict\<rparr>])"

text \<open>
  \<open>va_policy\<close> is the decoded validation policy's attempt limit, \<open>Inl\<close> when the stored policy does not
  decode.  The feedback of a re-attempt and the payload of a dead letter are encoded from the
  attempt number and the verdict history.
\<close>

record validation_args =
  va_step :: step_row
  va_claim :: uuid
  va_policy :: "unit + int option"
  va_payload :: raw
  va_usage :: raw
  va_verdict :: raw
  va_repair :: raw
  va_feedback :: "int \<Rightarrow> raw"
  va_dlq_payload :: "int \<Rightarrow> verdict_entry list \<Rightarrow> raw"
  va_issue_count :: int
  va_cost :: "cost_args option"
  va_overheads :: "cost_args list"
  va_trace :: trace_context
  va_now :: time

definition listStepAttempts :: "step_id \<Rightarrow> rundb \<Rightarrow> attempt_row list" where
  "listStepAttempts sid db = sort_key at_attempt_no (filter (\<lambda>a. at_step_id a = sid) (attempts db))"

definition validation_tx :: "validation_args \<Rightarrow> txdb \<Rightarrow> tx_error + completion \<times> txdb" where
  "validation_tx a tx =
     (let sid = s_step_id (va_step a); now = va_now a in
      andThen (lock_status now tx) (\<lambda>(status, tx0).
      if status = RunStatusCancelling then settle_cancelled sid (va_claim a) (va_payload a) now tx0
      else let n = countValidationFailures sid (tx_run tx0) + 1;
               maxAttempts = (case va_policy a of Inl _ \<Rightarrow> 1 | Inr p \<Rightarrow> EffectiveMaxAttempts p)
      in if \<not> isl (va_policy a) \<and> n < maxAttempts
         then andThen (on_run (SemanticRetryStep sid (va_claim a) (va_payload a) (va_usage a) (va_verdict a) (va_repair a)
                  (va_feedback a (n + 1)) n maxAttempts (va_issue_count a) now now) tx0) (\<lambda>(_, tx1).
              andThen (charge_rows (va_cost a) (va_overheads a)
                  (tx1\<lparr>tx_run := createOutboxTask sid OutboxReasonSemanticRetry (va_trace a) (tx_run tx1)\<rparr>)) (\<lambda>(_, tx2).
              Inr (SemanticRetrying n, tx2)))
         else dead_letter_tx sid (va_claim a) DeadLetterSourceRetriesExhausted AttemptOutcomeValidationFailed
                (va_dlq_payload a n (collectVerdictHistory (listStepAttempts sid (tx_run tx0)) (s_attempt_count (va_step a)) (va_verdict a)))
                (va_usage a) (va_verdict a) (va_repair a) (va_cost a) (va_overheads a) now tx0))"

section \<open>Throttle, budget park and the park for a human\<close>

definition unless_cancelling :: "step_id \<Rightarrow> uuid \<Rightarrow> time \<Rightarrow> (rundb \<Rightarrow> (step_row \<times> rundb) result) \<Rightarrow> completion \<Rightarrow> txdb
    \<Rightarrow> tx_error + completion \<times> txdb" where
  "unless_cancelling sid c now op what tx =
     andThen (lock_status now tx) (\<lambda>(status, tx0).
     if status = RunStatusCancelling then settle_cancelled sid c None now tx0
     else andThen (on_run op tx0) (\<lambda>(_, tx1). Inr (what, tx1)))"

definition throttle_tx :: "step_id \<Rightarrow> uuid \<Rightarrow> string \<Rightarrow> string \<Rightarrow> string \<Rightarrow> time \<Rightarrow> time \<Rightarrow> txdb \<Rightarrow> tx_error + completion \<times> txdb" where
  "throttle_tx sid c resource bucket retryAfter fireAt now =
     unless_cancelling sid c now (ThrottleStep sid c resource bucket retryAfter fireAt now) (Throttled fireAt)"

definition budget_park_tx :: "step_id \<Rightarrow> uuid \<Rightarrow> budget_event \<Rightarrow> time \<Rightarrow> txdb \<Rightarrow> tx_error + completion \<times> txdb" where
  "budget_park_tx sid c event now = unless_cancelling sid c now (BudgetParkStep sid c event now) BudgetParked"

definition await_human_tx :: "step_id \<Rightarrow> uuid \<Rightarrow> approval_request \<Rightarrow> time \<Rightarrow> txdb \<Rightarrow> tx_error + completion \<times> txdb" where
  "await_human_tx sid c q now = unless_cancelling sid c now (AwaitHumanStep sid c q now) AwaitsHuman"

section \<open>The composed operations refine the moves of the store\<close>

lemma fan_verdict_moves: "fan_verdict now v (res, work, db) = Inr (res', work', db') \<Longrightarrow> store_move\<^sup>*\<^sup>* db db'"
proof -
  assume eq: "fan_verdict now v (res, work, db) = Inr (res', work', db')"
  obtain r db1 where r: "ResolveEdge (vd_ordinal v) (vd_fired v) now db = Inr (r, db1)"
    using eq by (auto simp: fan_verdict_def andThen_eq_Inr)
  have first: "store_move\<^sup>*\<^sup>* db db1" by (rule refinesD [OF ResolveEdge_refines r])
  have "db' = db1 \<or> (\<exists>sid j x. ReadyStep sid j now db1 = Inr (x, db')) \<or> (\<exists>sid x. SkipStep sid now db1 = Inr (x, db'))"
    using eq by (auto simp: fan_verdict_def r andThen_eq_Inr split: option.splits if_splits)
  then have "store_move\<^sup>*\<^sup>* db1 db'"
    by (elim disjE exE) (simp, erule refinesD [OF refines_step_refines [OF ReadyStep_refines]],
      erule refinesD [OF refines_step_refines [OF SkipStep_refines]])
  with first show ?thesis by (rule rtranclp_trans)
qed

lemma fan_verdicts_moves: "fan_verdicts now vs (res, work, db) = Inr (res', work', db') \<Longrightarrow> store_move\<^sup>*\<^sup>* db db'"
proof (induction vs arbitrary: res work db)
  case (Cons v vs)
  then obtain res1 work1 db1 where v: "fan_verdict now v (res, work, db) = Inr (res1, work1, db1)"
    and vs: "fan_verdicts now vs (res1, work1, db1) = Inr (res', work', db')"
    by (auto simp: andThen_eq_Inr)
  from fan_verdict_moves [OF v] Cons.IH [OF vs] show ?case by (rule rtranclp_trans)
qed simp

lemma fan_loop_refines: "refines (fan_loop now res work db) db"
proof (induction now res work db rule: fan_loop.induct)
  case (2 now res src work db)
  show ?case
  proof (cases "fan_verdicts now (ts_verdicts src) (res, work, db)")
    case (Inr st)
    obtain res' work' db' where st: "st = (res', work', db')" by (cases st) auto
    from 2 [OF Inr st [symmetric] refl] fan_verdicts_moves [OF Inr [unfolded st]] show ?thesis
      by (auto simp: Inr st refines_def intro: rtranclp_trans)
  qed simp
qed simp

lemma fanOut_refines: "refines (fanOut now src db) db"
  unfolding fanOut_def by (rule fan_loop_refines)

lemma attemptCancelRollup_refines: "refines (attemptCancelRollup now db) db"
  using refines_run_refines [OF CancelRunRollup_refines, of now db]
  by (auto simp: attemptCancelRollup_def refines_def split: sum.splits store_error.splits)

lemma attemptRunRollup_refines: "refines (attemptRunRollup now db) db"
  using refines_run_refines [OF SucceedRun_refines, of now db] refines_run_refines [OF FailRunRollup_refines, of now db]
    attemptCancelRollup_refines [of now db]
  by (auto simp: attemptRunRollup_def refines_def split: sum.splits store_error.splits)

lemma for_each_refines: "(\<And>x db. refines (f x db) db) \<Longrightarrow> refines (for_each f xs db) db"
proof (induction xs arbitrary: db)
  case (Cons x xs)
  show ?case unfolding for_each.simps
    by (intro refines_andThen) (use Cons in \<open>auto intro: refines_andThen\<close>)
qed simp

lemma deadLetterDisposition_refines: "refines (deadLetterDisposition onFailure now db) db"
proof (cases "onFailure \<noteq> ContinueIndependentBranches")
  case True
  then show ?thesis using refines_run_refines [OF FailRun_refines, of now db]
    by (auto simp: deadLetterDisposition_def refines_def split: sum.splits store_error.splits)
next
  case False
  have cancel: "refines (cancel_steps why now sids db) db" for why sids
    unfolding cancel_steps_def by (rule for_each_refines) (rule refines_step_refines [OF CancelStep_refines])
  have roll: "refines (case FailRunRollup now db1 of Inr (_, db2) \<Rightarrow> Inr ((w, True), db2)
      | Inl (ErrTransition te) \<Rightarrow> Inr ((w, False), db1) | Inl e \<Rightarrow> Inl e) db1" for w db1
    using refines_run_refines [OF FailRunRollup_refines, of now db1]
    by (auto simp: refines_def split: sum.splits store_error.splits)
  show ?thesis using False unfolding deadLetterDisposition_def
    by (cases "planWriteOff (listRunSteps db) (listRunEdges db)") (auto intro!: refines_andThen cancel roll)
qed

section \<open>The invariant of all tables\<close>

definition tx_inv :: "txdb \<Rightarrow> bool" where
  "tx_inv tx \<longleftrightarrow> ledger_inv \<lparr>cs_run = tx_run tx, cs_ledger = tx_ledger tx\<rparr> \<and> board_inv \<lparr>bd_run = tx_run tx, bd_entries = tx_board tx\<rparr>"

definition tx_safe :: "tx_error + 'a \<times> txdb \<Rightarrow> bool" where
  "tx_safe m \<longleftrightarrow> (\<forall>x tx. m = Inr (x, tx) \<longrightarrow> tx_inv tx)"

lemma tx_safe_Inl [simp]: "tx_safe (Inl e)"
  by (simp add: tx_safe_def)

lemma tx_safe_Inr [simp]: "tx_safe (Inr (x, tx)) = tx_inv tx"
  by (simp add: tx_safe_def)

lemma tx_safe_andThen:
  assumes "tx_safe m" and "\<And>x tx. m = Inr (x, tx) \<Longrightarrow> tx_inv tx \<Longrightarrow> tx_safe (f (x, tx))"
  shows "tx_safe (andThen m f)"
  using assms by (cases m) (auto simp: tx_safe_def)

lemma tx_inv_run:
  assumes "tx_inv tx" and "db_inv db'" and "refs_ok db'" and "run_spend db' = run_spend (tx_run tx)"
  shows "tx_inv (tx\<lparr>tx_run := db'\<rparr>)"
  using assms by (simp add: tx_inv_def ledger_inv_def board_inv_def sumCostLedgerByRun_def)

lemma tx_inv_moves:
  assumes "tx_inv tx" and "store_move\<^sup>*\<^sup>* (tx_run tx) db'"
  shows "tx_inv (tx\<lparr>tx_run := db'\<rparr>)"
proof (rule tx_inv_run [OF assms(1)])
  have inv: "db_inv (tx_run tx)" "refs_ok (tx_run tx)" using assms(1) by (simp_all add: tx_inv_def ledger_inv_def)
  show "db_inv db'" by (rule db_inv.moves_keep [OF assms(2) inv(1)])
  show "refs_ok db'" by (rule refs_ok.moves_keep [OF assms(2) inv(2)])
  show "run_spend db' = run_spend (tx_run tx)" by (rule spend.moves_keep [OF assms(2) refl])
qed

lemma on_run_safe:
  assumes "\<And>db. refines (f db) db" and "tx_inv tx"
  shows "tx_safe (on_run f tx)"
  using tx_inv_moves [OF assms(2)] assms(1) [of "tx_run tx"]
  by (auto simp: on_run_def tx_safe_def refines_def split: sum.splits)

lemma apply_costs_inv: "apply_costs as cs = Inr cs' \<Longrightarrow> ledger_inv cs \<Longrightarrow> ledger_inv cs'"
proof (induction as arbitrary: cs)
  case (Cons a as)
  then obtain x cs1 where a: "ApplyAttemptCost a cs = Inr (x, cs1)" "apply_costs as cs1 = Inr cs'"
    by (auto simp: andThen_eq_Inr)
  from cost_step_inv [OF cost_step.charge [OF a(1)] Cons.prems(2)] Cons.IH [OF a(2)] show ?case by blast
qed simp

lemma charge_rows_safe:
  assumes "tx_inv tx"
  shows "tx_safe (charge_rows costRow overheadRows tx)"
proof (cases "applyCostRows costRow overheadRows \<lparr>cs_run = tx_run tx, cs_ledger = tx_ledger tx\<rparr>")
  case (Inr cs)
  have "ledger_inv cs"
    by (rule apply_costs_inv [OF Inr [unfolded applyCostRows_def]]) (use assms in \<open>simp add: tx_inv_def\<close>)
  moreover from this have "db_inv (cs_run cs)" by (simp add: ledger_inv_def)
  moreover obtain db rows where "cs = \<lparr>cs_run = db, cs_ledger = rows\<rparr>" by (cases cs)
  ultimately show ?thesis using assms by (simp add: charge_rows_def Inr tx_inv_def board_inv_def)
qed (simp add: charge_rows_def)

lemma board_inv_keeps:
  assumes "tx_inv tx" and "board_inv bd'" and "store_move\<^sup>*\<^sup>* (tx_run tx) (bd_run bd')"
  shows "tx_inv (tx\<lparr>tx_run := bd_run bd', tx_board := bd_entries bd'\<rparr>)"
proof -
  obtain db es where "bd' = \<lparr>bd_run = db, bd_entries = es\<rparr>" by (cases bd')
  then show ?thesis using tx_inv_moves [OF assms(1,3)] assms(2) by (simp add: tx_inv_def)
qed

lemma put_moves:
  assumes "board_inv bd" and "PutBlackboardEntry args bd = Inr (e, bd')"
  shows "board_inv bd' \<and> store_move\<^sup>*\<^sup>* (bd_run bd) (bd_run bd')"
proof -
  have "bd_run bd' = log_event (put_event args e) (bd_run bd)" using assms(2) by (simp add: PutBlackboardEntry_eq [OF assms(1)])
  moreover obtain r where "run (bd_run bd) = Some r" using assms(1) by (auto simp: board_inv_def elim: db_inv_run_log)
  ultimately show ?thesis using put_inv [OF assms] refines_log_event by simp
qed

lemma map_sum_eq_Inr: "map_sum f id m = Inr x \<longleftrightarrow> m = Inr x"
  by (cases m) auto

lemma applyBlackboardWrites_moves:
  "applyBlackboardWrites s ws counter now bd = Inr bd' \<Longrightarrow> board_inv bd \<Longrightarrow> board_inv bd' \<and> store_move\<^sup>*\<^sup>* (bd_run bd) (bd_run bd')"
proof (induction ws arbitrary: bd)
  case (Cons w ws)
  then obtain args e bd1 where put: "PutBlackboardEntry args bd = Inr (e, bd1)" and rest: "applyBlackboardWrites s ws counter now bd1 = Inr bd'"
    by (auto simp: andThen_eq_Inr map_sum_eq_Inr)
  from put_moves [OF Cons.prems(2) put] Cons.IH [OF rest] show ?case by (meson rtranclp_trans)
qed simp

lemma on_board_safe:
  assumes "\<And>bd bd'. f bd = Inr bd' \<Longrightarrow> board_inv bd \<Longrightarrow> board_inv bd' \<and> store_move\<^sup>*\<^sup>* (bd_run bd) (bd_run bd')" and "tx_inv tx"
  shows "tx_safe (on_board f tx)"
proof -
  have inv: "board_inv \<lparr>bd_run = tx_run tx, bd_entries = tx_board tx\<rparr>" using assms(2) by (simp add: tx_inv_def)
  show ?thesis using assms(1) [OF _ inv] board_inv_keeps [OF assms(2)] by (fastforce simp: on_board_def tx_safe_def split: sum.splits)
qed

lemma dispatch_readied_inv: "tx_inv tx \<Longrightarrow> tx_inv (dispatch_readied tr sids tx)"
  unfolding dispatch_readied_def
proof (induction sids arbitrary: tx)
  case (Cons sid sids)
  have "tx_inv (tx\<lparr>tx_run := createOutboxTask sid OutboxReasonStepReady tr (tx_run tx)\<rparr>)"
    using tx_inv_moves [OF Cons.prems createOutboxTask_refines] .
  from Cons.IH [OF this] show ?case by simp
qed simp

section \<open>Every completion keeps the invariant\<close>

lemma lock_status_safe: "tx_inv tx \<Longrightarrow> tx_safe (lock_status now tx)"
  by (simp add: lock_status_def split: sum.splits)

lemmas run_ops_safe =
  lock_status_safe on_run_safe [OF fanOut_refines] on_run_safe [OF attemptRunRollup_refines]
  on_run_safe [OF attemptCancelRollup_refines] on_run_safe [OF deadLetterDisposition_refines]
  on_run_safe [OF RecordLoopExhausted_refines] on_run_safe [OF RecordLoopNoProgress_refines]
  on_run_safe [OF refines_step_refines [OF SucceedStep_refines]] on_run_safe [OF refines_step_refines [OF DeadLetterStep_refines]]
  on_run_safe [OF refines_step_refines [OF CollectFailStep_refines]] on_run_safe [OF refines_step_refines [OF CancelRunningStep_refines]]
  on_run_safe [OF refines_step_refines [OF RetryStep_refines]] on_run_safe [OF refines_step_refines [OF SemanticRetryStep_refines]]

lemma settle_cancelled_safe: "tx_inv tx \<Longrightarrow> tx_safe (settle_cancelled sid c err now tx)"
  unfolding settle_cancelled_def
  by (intro tx_safe_andThen run_ops_safe, assumption)
    (auto intro!: tx_safe_andThen run_ops_safe)

lemma fan_out_from_safe:
  assumes "tx_inv tx"
  shows "tx_safe (fan_out_from pred step out params tr now tx)"
proof (cases "planEdges pred (s_step_type step) (listRunEdgesFromStep (s_step_id step) (tx_run tx)) out params")
  case (Inr vs)
  show ?thesis using assms by (auto simp: fan_out_from_def Inr intro!: tx_safe_andThen run_ops_safe dispatch_readied_inv)
qed (simp add: fan_out_from_def)

lemma ExpandRun_safe:
  assumes "tx_inv tx" and "ExpandRun stepIssues refIssues compile args (tx_run tx) = Inr (res, db)"
  shows "tx_inv (tx\<lparr>tx_run := db\<rparr>)"
proof (rule tx_inv_run [OF assms(1)])
  have inv: "db_inv (tx_run tx)" "refs_ok (tx_run tx)" using assms(1) by (simp_all add: tx_inv_def ledger_inv_def)
  show "db_inv db" "refs_ok db" using ExpandRun_inv [OF inv assms(2)] by simp_all
  show "run_spend db = run_spend (tx_run tx)" by (rule run_step_spend [OF run_step.expand [OF assms(2)] inv])
qed

lemma success_effects_safe:
  assumes "tx_inv tx"
  shows "tx_safe (success_effects pred stepIssues refIssues compile a tx)"
  unfolding success_effects_def
proof (intro tx_safe_andThen)
  show "tx_safe (case su_expand a of None \<Rightarrow> Inr (None, tx)
       | Some args \<Rightarrow> (case ExpandRun stepIssues refIssues compile args (tx_run tx) of
           Inl e \<Rightarrow> Inl (TxExpand e) | Inr (res, db) \<Rightarrow> Inr (Some res, tx\<lparr>tx_run := db\<rparr>)))"
    using assms ExpandRun_safe by (auto split: option.splits sum.splits)
next
  fix x tx1 assume inv: "tx_inv tx1"
  show "tx_safe ((\<lambda>(expanded, tx1).
     andThen (case su_exhausted a of None \<Rightarrow> Inr ((), tx1) | Some ev \<Rightarrow> on_run (RecordLoopExhausted ev (su_now a)) tx1) (\<lambda>(_, tx2).
     andThen (case su_no_progress a of None \<Rightarrow> Inr ((), tx2) | Some ev \<Rightarrow> on_run (RecordLoopNoProgress ev (su_now a)) tx2) (\<lambda>(_, tx3).
     andThen (fan_out_from pred (su_step a) (su_out a) (su_params a) (su_trace a) (su_now a) tx3) (\<lambda>(fanned, tx4).
     Inr ((expanded, fanned), tx4))))) (x, tx1))"
    using inv by (auto intro!: tx_safe_andThen run_ops_safe fan_out_from_safe split: option.splits)
qed

lemma applyThreadAppend_moves:
  assumes "applyThreadAppend s msg counter now bd = Inr bd'" and "board_inv bd"
  shows "board_inv bd' \<and> store_move\<^sup>*\<^sup>* (bd_run bd) (bd_run bd')"
proof -
  obtain args e where "PutBlackboardEntry args bd = Inr (e, bd')"
    using assms(1) by (auto simp: applyThreadAppend_def andThen_eq_Inr map_sum_eq_Inr)
  then show ?thesis by (rule put_moves [OF assms(2)])
qed

lemma board_ops_safe:
  assumes "tx_inv tx"
  shows "tx_safe (on_board (applyBlackboardWrites s ws counter now) tx)" and "tx_safe (on_board (applyThreadAppend s msg counter now) tx)"
  by (rule on_board_safe [OF _ assms], rule applyBlackboardWrites_moves applyThreadAppend_moves, assumption+)+

lemma success_tx_safe: "tx_inv tx \<Longrightarrow> tx_safe (success_tx pred stepIssues refIssues compile a tx)"
  unfolding success_tx_def
  by (auto intro!: tx_safe_andThen run_ops_safe charge_rows_safe board_ops_safe success_effects_safe split: option.splits)

lemma dead_letter_tx_safe: "tx_inv tx \<Longrightarrow> tx_safe (dead_letter_tx sid c src outcome payload usage verdict repair costRow overheadRows now tx)"
  unfolding dead_letter_tx_def
  by (auto intro!: tx_safe_andThen run_ops_safe charge_rows_safe split: option.splits)

lemma failure_tx_safe: "tx_inv tx \<Longrightarrow> tx_safe (failure_tx pred a tx)"
  unfolding failure_tx_def Let_def
  by (auto intro!: tx_safe_andThen run_ops_safe charge_rows_safe settle_cancelled_safe fan_out_from_safe dead_letter_tx_safe
      split: retry_route.splits)

lemma validation_tx_safe: "tx_inv tx \<Longrightarrow> tx_safe (validation_tx a tx)"
  unfolding validation_tx_def Let_def
  by (auto intro!: tx_safe_andThen run_ops_safe charge_rows_safe settle_cancelled_safe dead_letter_tx_safe
      tx_inv_moves [OF _ createOutboxTask_refines])

lemma unless_cancelling_safe:
  "(\<And>db. refines (op db) db) \<Longrightarrow> tx_inv tx \<Longrightarrow> tx_safe (unless_cancelling sid c now op what tx)"
  unfolding unless_cancelling_def
  by (auto intro!: tx_safe_andThen run_ops_safe settle_cancelled_safe on_run_safe)

lemma park_txs_safe:
  assumes "tx_inv tx"
  shows "tx_safe (throttle_tx sid c resource bucket retryAfter fireAt now tx)" and "tx_safe (budget_park_tx sid c event now tx)"
    and "tx_safe (await_human_tx sid c q now tx)"
  unfolding throttle_tx_def budget_park_tx_def await_human_tx_def
  by (rule unless_cancelling_safe [OF _ assms], rule refines_step_refines [OF ThrottleStep_refines] BudgetParkStep_refines
      refines_step_refines [OF AwaitHumanStep_refines])+

text \<open>
  A history of the engine on one run: completions, and between them any transaction of the store layer,
  blackboard writes of running steps and charges of their overhead calls.
\<close>

inductive engine_step :: "txdb \<Rightarrow> txdb \<Rightarrow> bool" where
  store: "store_op (tx_run tx) db' \<Longrightarrow> engine_step tx (tx\<lparr>tx_run := db'\<rparr>)"
| put: "on_board (\<lambda>bd. map_sum BoardStore snd (PutBlackboardEntry args bd)) tx = Inr (x, tx') \<Longrightarrow> engine_step tx tx'"
| charge: "charge_rows costRow overheadRows tx = Inr (x, tx') \<Longrightarrow> engine_step tx tx'"
| success: "success_tx pred stepIssues refIssues compile a tx = Inr (x, tx') \<Longrightarrow> engine_step tx tx'"
| failure: "failure_tx pred fa tx = Inr (x, tx') \<Longrightarrow> engine_step tx tx'"
| validation: "validation_tx va tx = Inr (x, tx') \<Longrightarrow> engine_step tx tx'"
| throttle: "throttle_tx sid c resource bucket retryAfter fireAt now tx = Inr (x, tx') \<Longrightarrow> engine_step tx tx'"
| budget_park: "budget_park_tx sid c event now tx = Inr (x, tx') \<Longrightarrow> engine_step tx tx'"
| await_human: "await_human_tx sid c q now tx = Inr (x, tx') \<Longrightarrow> engine_step tx tx'"

lemma tx_safeD: "tx_safe m \<Longrightarrow> m = Inr (x, tx) \<Longrightarrow> tx_inv tx"
  by (simp add: tx_safe_def)

lemma put_safe:
  assumes "tx_inv tx"
  shows "tx_safe (on_board (\<lambda>bd. map_sum BoardStore snd (PutBlackboardEntry args bd)) tx)"
proof (rule on_board_safe [OF _ assms])
  fix bd bd'
  assume put: "map_sum BoardStore snd (PutBlackboardEntry args bd) = Inr bd'" and inv: "board_inv bd"
  obtain e where "PutBlackboardEntry args bd = Inr (e, bd')" using put by (cases "PutBlackboardEntry args bd") auto
  then show "board_inv bd' \<and> store_move\<^sup>*\<^sup>* (bd_run bd) (bd_run bd')" by (rule put_moves [OF inv])
qed

lemma engine_step_inv: "engine_step tx tx' \<Longrightarrow> tx_inv tx \<Longrightarrow> tx_inv tx'"
proof (induction rule: engine_step.induct)
  case (store tx db')
  then show ?case using tx_inv_moves store_op_moves by blast
qed (blast dest: tx_safeD [OF put_safe] tx_safeD [OF charge_rows_safe] tx_safeD [OF success_tx_safe]
    tx_safeD [OF failure_tx_safe] tx_safeD [OF validation_tx_safe] tx_safeD [OF park_txs_safe(1)] tx_safeD [OF park_txs_safe(2)]
    tx_safeD [OF park_txs_safe(3)])+

lemma created_tx_inv:
  assumes "CreateRun_tx def args = Inr (rn, db)"
  shows "tx_inv \<lparr>tx_run = db, tx_ledger = [], tx_board = []\<rparr>"
  using created_inv [OF assms] created_spend [OF assms]
  by (simp add: tx_inv_def ledger_inv_def board_inv_def sumCostLedgerByRun_def)

lemma engine_steps_inv:
  assumes "CreateRun_tx def args = Inr (rn, db)" and "engine_step\<^sup>*\<^sup>* \<lparr>tx_run = db, tx_ledger = [], tx_board = []\<rparr> tx"
  shows "tx_inv tx"
  using assms(2) created_tx_inv [OF assms(1)] by (induction rule: rtranclp_induct) (blast dest: engine_step_inv)+

end
