(* ===== verification/Engine_Outcomes.thy ===== *)
theory Engine_Outcomes
  imports Engine_Complete
begin

text \<open>
  What the completion transactions of \<^verbatim>\<open>internal/engine/complete.go\<close> do to the run: when a failed attempt is
  retried, what a committed success leaves behind, and a run that the failure policy
  \<^verbatim>\<open>continue_independent_branches\<close> leaves without an end.
\<close>

section \<open>What the side effects of a completion leave alone\<close>

definition same_tables :: "rundb \<Rightarrow> rundb \<Rightarrow> bool" where
  "same_tables db db' \<longleftrightarrow> steps db' = steps db \<and> edges db' = edges db \<and> outbox db' = outbox db \<and> attempts db' = attempts db
     \<and> dead_letters db' = dead_letters db \<and> map_option r_status (run db') = map_option r_status (run db)"

lemma same_tables_refl: "same_tables db db"
  by (simp add: same_tables_def)

lemma same_tables_trans: "same_tables a b \<Longrightarrow> same_tables b c \<Longrightarrow> same_tables a c"
  by (simp add: same_tables_def)

lemma log_event_status [simp]: "map_option r_status (run (log_event p db)) = map_option r_status (run db)"
  by (cases "run db") (simp_all add: log_event_def Let_def)

lemma log_events_status [simp]: "map_option r_status (run (fold log_event ps db)) = map_option r_status (run db)"
  by (induction ps arbitrary: db) simp_all

lemma same_tables_log_event: "same_tables db (log_event p db)"
  by (simp add: same_tables_def)

lemma apply_costs_same:
  "apply_costs as cs = Inr cs' \<Longrightarrow> ledger_inv cs \<Longrightarrow> same_tables (cs_run cs) (cs_run cs')"
proof (induction as arbitrary: cs)
  case (Cons a as)
  then obtain x cs1 where a: "ApplyAttemptCost a cs = Inr (x, cs1)" "apply_costs as cs1 = Inr cs'"
    by (auto simp: andThen_eq_Inr)
  have inv: "db_inv (cs_run cs)" using Cons.prems(2) by (simp add: ledger_inv_def)
  obtain r where r: "run (cs_run cs) = Some r" using inv by (rule db_inv_run_log)
  have "cs1 = charged a r cs" using a(1) by (simp add: ApplyAttemptCost_eq [OF inv r])
  then have "same_tables (cs_run cs) (cs_run cs1)" by (simp add: charged_def same_tables_def r charged_run_def)
  moreover have "ledger_inv cs1" by (rule cost_step_inv [OF cost_step.charge [OF a(1)] Cons.prems(2)])
  ultimately show ?case using Cons.IH [OF a(2)] same_tables_trans by blast
qed (simp add: same_tables_refl)

lemma charge_rows_same:
  assumes "charge_rows costRow overheadRows tx = Inr (x, tx')" and "tx_inv tx"
  shows "same_tables (tx_run tx) (tx_run tx')"
proof -
  obtain cs where cs: "applyCostRows costRow overheadRows \<lparr>cs_run = tx_run tx, cs_ledger = tx_ledger tx\<rparr> = Inr cs" "tx_run tx' = cs_run cs"
    using assms(1) by (auto simp: charge_rows_def split: sum.splits)
  show ?thesis using apply_costs_same [OF cs(1) [unfolded applyCostRows_def]] assms(2) cs(2) by (simp add: tx_inv_def)
qed

lemma put_same: "board_inv bd \<Longrightarrow> PutBlackboardEntry args bd = Inr (e, bd') \<Longrightarrow> same_tables (bd_run bd) (bd_run bd')"
  by (simp add: PutBlackboardEntry_eq same_tables_log_event)

lemma applyBlackboardWrites_same:
  "applyBlackboardWrites s ws counter now bd = Inr bd' \<Longrightarrow> board_inv bd \<Longrightarrow> same_tables (bd_run bd) (bd_run bd')"
proof (induction ws arbitrary: bd)
  case (Cons w ws)
  then obtain args e bd1 where put: "PutBlackboardEntry args bd = Inr (e, bd1)" and rest: "applyBlackboardWrites s ws counter now bd1 = Inr bd'"
    by (auto simp: andThen_eq_Inr map_sum_eq_Inr)
  have "board_inv bd1" using put_moves [OF Cons.prems(2) put] by blast
  from same_tables_trans [OF put_same [OF Cons.prems(2) put] Cons.IH [OF rest this]] show ?case .
qed (simp add: same_tables_refl)

lemma applyThreadAppend_same:
  assumes "applyThreadAppend s msg counter now bd = Inr bd'" and "board_inv bd"
  shows "same_tables (bd_run bd) (bd_run bd')"
  using assms put_same [OF assms(2)] by (auto simp: applyThreadAppend_def andThen_eq_Inr map_sum_eq_Inr)

lemma on_board_same:
  assumes "on_board f tx = Inr (x, tx')" and "tx_inv tx"
    and "\<And>bd bd'. f bd = Inr bd' \<Longrightarrow> board_inv bd \<Longrightarrow> same_tables (bd_run bd) (bd_run bd')"
  shows "same_tables (tx_run tx) (tx_run tx')"
  using assms(1,2) assms(3) [of "\<lparr>bd_run = tx_run tx, bd_entries = tx_board tx\<rparr>"]
  by (auto simp: on_board_def tx_inv_def split: sum.splits)

lemma loop_records_same:
  assumes "tx_inv tx"
  shows "on_run (RecordLoopExhausted ev now) tx = Inr (x, tx') \<Longrightarrow> same_tables (tx_run tx) (tx_run tx')"
    and "on_run (RecordLoopNoProgress ev now) tx = Inr (x, tx') \<Longrightarrow> same_tables (tx_run tx) (tx_run tx')"
proof -
  have inv: "db_inv (tx_run tx)" using assms by (simp add: tx_inv_def ledger_inv_def)
  show "on_run (RecordLoopExhausted ev now) tx = Inr (x, tx') \<Longrightarrow> same_tables (tx_run tx) (tx_run tx')"
    by (auto simp: on_run_def RecordLoopExhausted_def andThen_eq_Inr appendEvent_inv [OF inv] same_tables_log_event split: sum.splits)
  show "on_run (RecordLoopNoProgress ev now) tx = Inr (x, tx') \<Longrightarrow> same_tables (tx_run tx) (tx_run tx')"
    by (auto simp: on_run_def RecordLoopNoProgress_def andThen_eq_Inr appendEvent_inv [OF inv] same_tables_log_event split: sum.splits)
qed

section \<open>What a committed success leaves behind\<close>

text \<open>The graph between transactions: every join is readable, no pending step is due, edges follow their sources.\<close>

definition settled_graph :: "rundb \<Rightarrow> int set \<Rightarrow> bool" where
  "settled_graph db T \<longleftrightarrow> configs_decode db \<and> quiet db \<and> flows db T"

lemma settled_graph_same:
  assumes "same_tables db db'"
  shows "settled_graph db' T = settled_graph db T" and "status_of db' = status_of db"
    and "listRunEdgesFromStep sid db' = listRunEdgesFromStep sid db"
proof -
  show st: "status_of db' = status_of db" using assms by (intro status_of_cong) (simp add: same_tables_def)
  show "settled_graph db' T = settled_graph db T"
    using assms st settled_source_cong [OF st] by (simp add: settled_graph_def configs_decode_def quiet_def flows_def follows_def same_tables_def)
  show "listRunEdgesFromStep sid db' = listRunEdgesFromStep sid db" using assms by (simp add: listRunEdgesFromStep_def same_tables_def)
qed

lemma settle_step_graph:
  assumes inv: "db_inv db" and graph: "settled_graph db {}" and move: "step_move old new db db'"
    and st: "\<not> settled_status (s_status old)" "settled_status (s_status new)" "s_status new \<noteq> StepStatusSkipped"
  shows "settled_graph db' (e_ordinal ` set (listRunEdgesFromStep (s_step_id old) db))"
proof -
  let ?sid = "s_step_id old" and ?T = "e_ordinal ` set (listRunEdgesFromStep (s_step_id old) db)"
  have old: "getRunStep ?sid db = Some old" and id: "s_step_id new = ?sid" "s_step_type new = s_step_type old" "s_config new = s_config old"
    and edges: "edges db' = edges db"
    using move by (auto simp: step_move_def row_move_def same_step_identity_def)
  have inv': "db_inv db'" by (rule db_inv_step [OF inv move])
  have get: "getRunStep sid db' = (if sid = ?sid then Some new else getRunStep sid db)" for sid
    using getRunStep_replace [OF old id(1), of db' sid] move by (simp add: step_move_def)
  have "configs_decode db'"
    by (rule configs_decode_same [OF inv']) (use graph get old id in \<open>auto simp: settled_graph_def split: if_splits\<close>)
  moreover have "quiet db'"
    using graph st(2) get by (intro quietI [OF inv'])
      (auto simp: settled_graph_def wants_move_def settled_status_def split: if_splits dest: quietD)
  moreover have "follows db' ?T e" if e: "getRunEdge k db' = Some e" for k e
  proof -
    have e0: "getRunEdge k db = Some e" using e edges by (simp add: getRunEdge_def)
    then have f: "follows db {} e" using graph by (auto simp: settled_graph_def dest: flowsD)
    have mem: "e \<in> set (edges db)" using e0 by (auto simp: getRunEdge_def dest: edge_rows.row_at_SomeD)
    have dist: "distinct (map e_ordinal (edges db))" using inv by (simp add: db_inv_def edges_ok_def)
    show ?thesis
    proof (cases "e_from_step e = ?sid")
      case True
      with mem have "e_ordinal e \<in> ?T" by (simp add: listRunEdgesFromStep_def)
      with True f st get old show ?thesis by (auto simp: follows_def settled_source_def status_of_def)
    next
      case False
      with mem dist have "e_ordinal e \<notin> ?T" by (auto simp: listRunEdgesFromStep_def distinct_map dest: inj_onD)
      with False f get show ?thesis by (simp add: follows_def settled_source_def status_of_def)
    qed
  qed
  then have "flows db' ?T" by (rule flowsI [OF inv'])
  ultimately show ?thesis by (simp add: settled_graph_def)
qed

lemma flows_normal_only:
  assumes "flows db T" and "\<And>e. e \<in> set (edges db) \<Longrightarrow> e_edge_type e = EdgeTypeNormal \<Longrightarrow> e_ordinal e \<in> T \<longleftrightarrow> e_ordinal e \<in> U"
  shows "flows db U"
  using assms by (simp add: flows_def follows_def)

lemma dispatch_readied_run:
  "tx_run (dispatch_readied tr sids tx) =
     (tx_run tx)\<lparr>outbox := outbox (tx_run tx) @ map (\<lambda>sid. \<lparr>ob_step_id = sid, ob_reason = OutboxReasonStepReady, ob_trace = tr\<rparr>) sids\<rparr>"
  by (simp add: dispatch_readied_def fold_outbox_eq)

lemma graph_outbox [simp]:
  "settled_graph (db\<lparr>outbox := obs\<rparr>) T = settled_graph db T" "status_of (db\<lparr>outbox := obs\<rparr>) sid = status_of db sid"
  "getRunStep sid (db\<lparr>outbox := obs\<rparr>) = getRunStep sid db"
proof -
  show "getRunStep sid (db\<lparr>outbox := obs\<rparr>) = getRunStep sid db" by (simp add: getRunStep_def)
  have st: "status_of (db\<lparr>outbox := obs\<rparr>) = status_of db" by (rule status_of_cong) simp
  show "settled_graph (db\<lparr>outbox := obs\<rparr>) T = settled_graph db T"
    using settled_source_cong [OF st] st by (simp add: settled_graph_def configs_decode_def quiet_def flows_def follows_def)
  show "status_of (db\<lparr>outbox := obs\<rparr>) sid = status_of db sid" by (simp add: st)
qed

text \<open>The steps a transaction readied, each with its dispatch task.\<close>

definition dispatched :: "step_id list \<Rightarrow> rundb \<Rightarrow> bool" where
  "dispatched sids db \<longleftrightarrow> (\<forall>sid \<in> set sids. status_of db sid = Some StepStatusReady \<and> sid \<in> ob_step_id ` set (outbox db))"

definition run_in :: "run_status \<Rightarrow> rundb \<Rightarrow> bool" where
  "run_in st db \<longleftrightarrow> map_option r_status (run db) = Some st"

lemma fan_out_from_settles:
  assumes inv: "tx_inv tx" and now: "now \<noteq> 0" and run: "run_in st (tx_run tx)"
    and graph: "settled_graph (tx_run tx) (e_ordinal ` set (listRunEdgesFromStep (s_step_id step) (tx_run tx)))"
    and src: "status_of (tx_run tx) (s_step_id step) = Some done" "settled_status done" "done \<noteq> StepStatusSkipped"
    and commit: "fan_out_from pred step out params tr now tx = Inr (fanned, tx')"
  shows "tx_inv tx' \<and> settled_graph (tx_run tx') {} \<and> fan_statuses (tx_run tx) fanned (tx_run tx') \<and> run_in st (tx_run tx')
    \<and> dispatched (fo_readied fanned) (tx_run tx')"
proof -
  let ?db = "tx_run tx" and ?sid = "s_step_id step"
  obtain vs where vs: "planEdges pred (s_step_type step) (listRunEdgesFromStep ?sid ?db) out params = Inr vs"
    using commit by (auto simp: fan_out_from_def andThen_eq_Inr map_sum_eq_Inr)
  have ords: "map vd_ordinal vs = map e_ordinal (normal_edges (listRunEdgesFromStep ?sid ?db))"
    using vs by (simp add: planEdges_def plan_edges_from_routed routed_nth)
  have db: "db_inv ?db" using inv by (simp add: tx_inv_def ledger_inv_def)
  have T: "vd_ordinal ` set vs = e_ordinal ` set (normal_edges (listRunEdgesFromStep ?sid ?db))"
    using ords by (metis list.set_map)
  have "flows ?db (vd_ordinal ` set vs)"
  proof (rule flows_normal_only)
    show "flows ?db (e_ordinal ` set (listRunEdgesFromStep ?sid ?db))" using graph by (simp add: settled_graph_def)
    fix e assume "e \<in> set (edges ?db)" "e_edge_type e = EdgeTypeNormal"
    moreover have "inj_on e_ordinal (set (edges ?db))" using db by (simp add: db_inv_def edges_ok_def distinct_map)
    ultimately show "e_ordinal e \<in> e_ordinal ` set (listRunEdgesFromStep ?sid ?db) \<longleftrightarrow> e_ordinal e \<in> vd_ordinal ` set vs"
      unfolding T by (auto simp: listRunEdgesFromStep_def dest: inj_onD)
  qed
  moreover have "configs_decode ?db" "quiet ?db" using graph by (simp_all add: settled_graph_def)
  moreover have "settled_source ?db ?sid" "status_of ?db ?sid \<noteq> Some StepStatusSkipped" using src by (simp_all add: settled_source_def)
  ultimately obtain db' where fan: "fanOut now \<lparr>ts_step_id = ?sid, ts_verdicts = vs\<rparr> ?db = Inr (fanned, db')"
    and post: "configs_decode db'" "quiet db'" "flows db' {}" "fan_statuses ?db fanned db'" "same_state ?db db'"
    and tx': "tx' = dispatch_readied tr (fo_readied fanned) (tx\<lparr>tx_run := db'\<rparr>)"
    using fanOut_ok [OF db _ _ now _ _ ords] commit by (force simp: fan_out_from_def vs on_run_def)
  have "run_in st db'" using run post(5) by (auto simp: run_in_def same_state_def same_run_state_def)
  moreover have "tx_inv tx'" by (rule tx_safeD [OF fan_out_from_safe [OF inv] commit])
  moreover have "fan_statuses ?db fanned (tx_run tx')" using post(4) by (simp add: tx' dispatch_readied_run fan_statuses_def)
  moreover have "dispatched (fo_readied fanned) (tx_run tx')"
    using post(4) by (simp add: tx' dispatch_readied_run fan_statuses_def dispatched_def image_Un image_image)
  ultimately show ?thesis using post(1-3) by (simp add: tx' dispatch_readied_run settled_graph_def [of db'] run_in_def)
qed

lemma lock_status_eq:
  "lock_status now tx = Inr (st, tx') \<longleftrightarrow> now \<noteq> 0 \<and> tx' = tx \<and> run_in st (tx_run tx)"
  by (auto simp: lock_status_def LockRunStatus_def transitionQueries_def lockRun_def lockRun_q_def run_in_def split: sum.splits option.splits)

text \<open>A success that is no expansion, taken apart.\<close>

lemma success_tx_parts:
  assumes "success_tx pred stepIssues refIssues compile a tx = Inr (out, tx')" and "run_in st (tx_run tx)"
    and "st \<noteq> RunStatusCancelling" and "su_expand a = None"
  obtains x tx1 tx2 tx3 tx4 tx5 tx6 fanned tx7 terminal where "su_now a \<noteq> 0"
    and "on_run (SucceedStep (s_step_id (su_step a)) (su_claim a) (su_out a) (su_usage a) (su_verdict a) (su_repair a) (su_now a)) tx = Inr (x, tx1)"
    and "charge_rows (su_cost a) (su_overheads a) tx1 = Inr ((), tx2)"
    and "(if su_writes a = [] then Inr ((), tx2)
          else on_board (applyBlackboardWrites (su_step a) (su_writes a) (su_counter a) (su_now a)) tx2) = Inr ((), tx3)"
    and "(case su_thread a of None \<Rightarrow> Inr ((), tx3)
          | Some msg \<Rightarrow> on_board (applyThreadAppend (su_step a) msg (su_counter a) (su_now a)) tx3) = Inr ((), tx4)"
    and "(case su_exhausted a of None \<Rightarrow> Inr ((), tx4) | Some ev \<Rightarrow> on_run (RecordLoopExhausted ev (su_now a)) tx4) = Inr ((), tx5)"
    and "(case su_no_progress a of None \<Rightarrow> Inr ((), tx5) | Some ev \<Rightarrow> on_run (RecordLoopNoProgress ev (su_now a)) tx5) = Inr ((), tx6)"
    and "fan_out_from pred (su_step a) (su_out a) (su_params a) (su_trace a) (su_now a) tx6 = Inr (fanned, tx7)"
    and "on_run (attemptRunRollup (su_now a)) tx7 = Inr (terminal, tx')"
    and "out = Succeeded None fanned (terminal \<noteq> None)"
proof -
  have "st' = st" if "run_in st' (tx_run tx)" for st' using that assms(2) by (auto simp: run_in_def)
  with assms(1,3,4) show ?thesis
    by (clarsimp simp: success_tx_def success_effects_def andThen_eq_Inr lock_status_eq simp del: not_None_eq split_paired_Ex split_paired_All)
      (rule that, (assumption | rule refl)+)
qed

lemma success_side_effects:
  assumes inv: "tx_inv tx1" and "charge_rows costRow overheadRows tx1 = Inr ((), tx2)"
    and "(if ws = [] then Inr ((), tx2) else on_board (applyBlackboardWrites s ws counter now) tx2) = Inr ((), tx3)"
    and "(case thread of None \<Rightarrow> Inr ((), tx3) | Some msg \<Rightarrow> on_board (applyThreadAppend s msg counter now) tx3) = Inr ((), tx4)"
    and "(case exhausted of None \<Rightarrow> Inr ((), tx4) | Some ev \<Rightarrow> on_run (RecordLoopExhausted ev now) tx4) = Inr ((), tx5)"
    and "(case stuck of None \<Rightarrow> Inr ((), tx5) | Some ev \<Rightarrow> on_run (RecordLoopNoProgress ev now) tx5) = Inr ((), tx6)"
  shows "tx_inv tx6 \<and> same_tables (tx_run tx1) (tx_run tx6)"
proof -
  have 2: "tx_inv tx2" "same_tables (tx_run tx1) (tx_run tx2)"
    using tx_safeD [OF charge_rows_safe [OF inv] assms(2)] charge_rows_same [OF assms(2) inv] by simp_all
  have 3: "tx_inv tx3" "same_tables (tx_run tx2) (tx_run tx3)"
    using assms(3) 2 tx_safeD [OF board_ops_safe(1) [OF 2(1)]] on_board_same [OF _ 2(1) applyBlackboardWrites_same] same_tables_refl
    by (auto split: if_splits)
  have 4: "tx_inv tx4" "same_tables (tx_run tx3) (tx_run tx4)"
    using assms(4) 3 tx_safeD [OF board_ops_safe(2) [OF 3(1)]] on_board_same [OF _ 3(1) applyThreadAppend_same] same_tables_refl
    by (auto split: option.splits)
  have 5: "tx_inv tx5" "same_tables (tx_run tx4) (tx_run tx5)"
    using assms(5) 4 tx_safeD [OF on_run_safe [OF RecordLoopExhausted_refines 4(1)]] loop_records_same(1) [OF 4(1)] same_tables_refl
    by (auto split: option.splits)
  have 6: "tx_inv tx6" "same_tables (tx_run tx5) (tx_run tx6)"
    using assms(6) 5 tx_safeD [OF on_run_safe [OF RecordLoopNoProgress_refines 5(1)]] loop_records_same(2) [OF 5(1)] same_tables_refl
    by (auto split: option.splits)
  show ?thesis using 6(1) 2(2) 3(2) 4(2) 5(2) 6(2) by (simp add: same_tables_def)
qed

lemma SucceedStep_graph:
  assumes inv: "tx_inv tx" and graph: "settled_graph (tx_run tx) {}" and run: "run_in st (tx_run tx)" and now: "now \<noteq> 0"
    and ok: "on_run (SucceedStep sid c out usage verdict repair now) tx = Inr (x, tx1)"
  shows "tx_inv tx1 \<and> run_in st (tx_run tx1) \<and> settled_graph (tx_run tx1) (e_ordinal ` set (listRunEdgesFromStep sid (tx_run tx1)))
    \<and> status_of (tx_run tx) sid = Some StepStatusRunning
    \<and> status_of (tx_run tx1) = (status_of (tx_run tx))(sid \<mapsto> StepStatusSucceeded)"
proof -
  have db: "db_inv (tx_run tx)" using inv by (simp add: tx_inv_def ledger_inv_def)
  obtain db1 where op: "SucceedStep sid c out usage verdict repair now (tx_run tx) = Inr (x, db1)" and tx1: "tx1 = tx\<lparr>tx_run := db1\<rparr>"
    using ok by (auto simp: on_run_def split: sum.splits)
  obtain old where old: "getRunStep sid (tx_run tx) = Some old" and move: "step_move old x (tx_run tx) db1"
    using SucceedStep_refines op by (force simp: refines_step_def)
  have under: "running_under c old" using succeed.completes_iff [OF db now old] op by blast
  then have st: "s_status x = StepStatusSucceeded" using succeed.returns [OF db now old under, of out usage verdict repair] op by auto
  have id: "s_step_id old = sid" by (rule getRunStep_id [OF old])
  have "settled_graph db1 (e_ordinal ` set (listRunEdgesFromStep sid (tx_run tx)))"
    using settle_step_graph [OF db graph move] under st by (simp add: id settled_status_def)
  moreover have "listRunEdgesFromStep sid db1 = listRunEdgesFromStep sid (tx_run tx)"
    using move by (simp add: step_move_def listRunEdgesFromStep_def)
  moreover have "tx_inv tx1" by (rule tx_safeD [OF on_run_safe [OF refines_step_refines [OF SucceedStep_refines] inv] ok])
  moreover have "run_in st db1" using move run by (auto simp: step_move_def run_in_def same_run_state_def)
  moreover have "getRunStep k db1 = (if k = sid then Some x else getRunStep k (tx_run tx))" for k
    using getRunStep_replace [OF old, of x db1 k] move by (simp add: step_move_def row_move_def same_step_identity_def id)
  ultimately show ?thesis using under old st by (auto simp: tx1 status_of_def fun_eq_iff)
qed

lemma rollup_settles:
  assumes inv: "tx_inv tx" and run: "run_in st (tx_run tx)" and now: "now \<noteq> 0"
    and ok: "on_run (attemptRunRollup now) tx = Inr (terminal, tx')"
  shows "tx_inv tx' \<and> steps (tx_run tx') = steps (tx_run tx) \<and> edges (tx_run tx') = edges (tx_run tx) \<and> outbox (tx_run tx') = outbox (tx_run tx)
    \<and> (terminal = None \<longleftrightarrow> rollup_status st (map s_status (steps (tx_run tx))) = None)
    \<and> run_in (case rollup_status st (map s_status (steps (tx_run tx))) of None \<Rightarrow> st | Some fin \<Rightarrow> fin) (tx_run tx')"
proof -
  have db: "db_inv (tx_run tx)" using inv by (simp add: tx_inv_def ledger_inv_def)
  obtain r where r: "run (tx_run tx) = Some r" "r_status r = st" using run by (auto simp: run_in_def)
  have "tx_inv tx'" by (rule tx_safeD [OF on_run_safe [OF attemptRunRollup_refines inv] ok])
  with ok r show ?thesis unfolding on_run_def attemptRunRollup_eq [OF db now r(1)]
    by (auto simp: run_in_def finished_db_def run_log_event finished_def split: option.splits)
qed

text \<open>Transactions of a plain worker, and the diamond run with its first step claimed.\<close>

definition tx_after :: "tx_error + 'a \<times> txdb \<Rightarrow> txdb \<Rightarrow> txdb" where
  "tx_after m tx = (case m of Inl _ \<Rightarrow> tx | Inr (_, tx') \<Rightarrow> tx')"

definition claimed :: "step_id \<Rightarrow> uuid \<Rightarrow> time \<Rightarrow> txdb \<Rightarrow> txdb" where
  "claimed sid c now tx = tx_after (on_run (ClaimStep sid ''w1'' [] now c) tx) tx"

definition row_of :: "step_id \<Rightarrow> txdb \<Rightarrow> step_row" where
  "row_of sid tx = the (getRunStep sid (tx_run tx))"

definition plain_failure :: "step_id \<Rightarrow> uuid \<Rightarrow> error_class \<Rightarrow> time \<Rightarrow> txdb \<Rightarrow> failure_args" where
  "plain_failure sid c class now tx = \<lparr>fa_step = row_of sid tx, fa_claim = c, fa_class = class, fa_payload = None, fa_usage = None,
     fa_cost = None, fa_overheads = [], fa_collect = False, fa_params = None, fa_draw = 0, fa_trace = no_trace, fa_now = now\<rparr>"

definition plain_success :: "step_id \<Rightarrow> uuid \<Rightarrow> time \<Rightarrow> txdb \<Rightarrow> success_args" where
  "plain_success sid c now tx = \<lparr>su_step = row_of sid tx, su_claim = c, su_out = None, su_usage = None, su_verdict = None, su_repair = None,
     su_cost = None, su_overheads = [], su_writes = [], su_thread = None, su_counter = \<lparr>tc_id = ''heuristic'', tc_count = (\<lambda>_. 0)\<rparr>, su_expand = None, su_exhausted = None,
     su_no_progress = None, su_params = None, su_trace = no_trace, su_now = now\<rparr>"

definition diamond_claimed :: txdb where
  "diamond_claimed = claimed ''a'' 7 200 \<lparr>tx_run = diamond_run, tx_ledger = [], tx_board = []\<rparr>"

lemma diamond_run_created: obtains rn where "CreateRun_tx diamond plain_args = Inr (rn, diamond_run)"
  using diamond_created by (cases "CreateRun_tx diamond plain_args") (auto simp: diamond_run_def db_after_def)

lemma claim_step:
  assumes "\<not> isl (on_run (ClaimStep sid ''w1'' [] now c) tx)"
  shows "engine_step tx (claimed sid c now tx)"
  using assms unfolding claimed_def tx_after_def on_run_def
  by (auto split: sum.splits intro!: engine_step.store intro: store_op.ClaimStep)

lemma diamond_claim: "engine_step \<lparr>tx_run = diamond_run, tx_ledger = [], tx_board = []\<rparr> diamond_claimed"
  unfolding diamond_claimed_def by (rule claim_step) code_simp

lemma diamond_claimed_inv: "tx_inv diamond_claimed"
  by (rule diamond_run_created) (erule engine_steps_inv [OF _ r_into_rtranclp [of engine_step, OF diamond_claim]])

lemma diamond_claimed_running: "run_in RunStatusRunning (tx_run diamond_claimed)" "RunStatusRunning \<noteq> RunStatusCancelling"
  by code_simp+



section \<open>When a failed attempt is retried\<close>

text \<open>What the stored policy and the failures counted so far allow.\<close>

definition retries_left :: "failure_args \<Rightarrow> int \<Rightarrow> bool" where
  "retries_left a prior \<longleftrightarrow> (\<exists>p delay. decodeRetryPolicy (s_retry_policy (fa_step a)) = Inr p \<and> Retries p (class_name (fa_class a))
     \<and> prior + 1 < rr_max_attempts p \<and> retryDelay p (prior + 1) (fa_draw a) = Inr delay)"

definition retries_spent :: "failure_args \<Rightarrow> int \<Rightarrow> bool" where
  "retries_spent a prior \<longleftrightarrow> (\<exists>p. decodeRetryPolicy (s_retry_policy (fa_step a)) = Inr p \<and> Retries p (class_name (fa_class a))
     \<and> rr_max_attempts p \<le> prior + 1)"

lemma failure_route_cases:
  "(case failure_route (decodeRetryPolicy (s_retry_policy (fa_step a))) (fa_class a) prior (fa_draw a) now of
      RouteRetry fireAt \<Rightarrow> retries_left a prior \<and> (\<exists>p delay. decodeRetryPolicy (s_retry_policy (fa_step a)) = Inr p
        \<and> prior + 1 < rr_max_attempts p \<and> retryDelay p (prior + 1) (fa_draw a) = Inr delay \<and> fireAt = now + delay)
    | RouteTerminal exhausted \<Rightarrow> \<not> retries_left a prior \<and> (exhausted \<longleftrightarrow> retries_spent a prior))"
  by (auto simp: failure_route_def retries_left_def retries_spent_def split: sum.splits if_splits)

lemma length_filter_one_more:
  assumes "length (filter hit xs) = 1" and "\<And>x. x \<in> set xs \<Longrightarrow> \<not> hit x \<Longrightarrow> Q (f x) \<Longrightarrow> P x"
  shows "length (filter Q (map f xs)) \<le> length (filter P xs) + 1"
proof -
  have "length (filter Q (map f xs)) = length (filter (\<lambda>x. Q (f x)) xs)" by (simp add: filter_map o_def)
  also have "\<dots> \<le> length (filter (\<lambda>x. P x \<or> hit x) xs)"
    using assms(2) by (induction xs) auto
  also have "\<dots> \<le> length (filter P xs) + length (filter hit xs)" by (induction xs) auto
  finally show ?thesis using assms(1) by simp
qed

lemma RetryStep_counts:
  assumes "RetryStep sid c outcome err usage next now db = Inr (s, db')"
  shows "countCountedFailures sid db' \<le> countCountedFailures sid db + 1"
    and "getRunStep sid db' = Some s \<and> s_status s = StepStatusRetrying \<and> s_next_attempt_at s = Some next"
proof -
  obtain cls old db1 where step: "getRunStep sid db = Some old"
      "s = old\<lparr>s_status := StepStatusRetrying, s_error := err, s_claim_id := None, s_next_attempt_at := Some next, s_updated_at := now\<rparr>"
    and fin: "finishAttempt s cls err usage None None now (db\<lparr>steps := replace_row s_step_id sid s (steps db)\<rparr>) = Inr db1"
    and ev: "appendEvent (EvStepRetryScheduled sid (s_attempt_count s) cls next) db1 = Inr db'"
    using assms by (auto simp: RetryStep_def andThen_eq_Inr retryRunStep_def cas_step_eq_Some split: option.splits if_splits)
  let ?hit = "\<lambda>a. at_step_id a = sid \<and> at_attempt_no a = s_attempt_count old"
  have id: "s_step_id old = sid" by (rule getRunStep_id [OF step(1)])
  have hit: "length (filter ?hit (attempts db)) = 1"
    and db1: "db1 = db\<lparr>steps := replace_row s_step_id sid s (steps db),
        attempts := map (\<lambda>a. if ?hit a then close_attempt cls err usage None None now a else a) (attempts db)\<rparr>"
    using fin by (auto simp: finishAttempt_def finishStepAttempt_def step(2) id Let_def split: if_splits)
  have db': "db' = log_event (EvStepRetryScheduled sid (s_attempt_count s) cls next) db1"
    using ev by (auto simp: appendEvent_eq_Inr)
  have base: "death_baseline sid db' = death_baseline sid db" by (simp add: db' db1 death_baseline_def)
  let ?counts = "\<lambda>a. at_step_id a = sid \<and> (at_outcome a = Some AttemptOutcomeTransient \<or> at_outcome a = Some AttemptOutcomeTimeout)
      \<and> at_attempt_no a > death_baseline sid db"
  have ats: "attempts db' = map (\<lambda>a. if ?hit a then close_attempt cls err usage None None now a else a) (attempts db)"
    by (simp add: db' db1)
  have "length (filter ?counts (attempts db')) \<le> length (filter ?counts (attempts db)) + 1"
    unfolding ats by (rule length_filter_one_more [OF hit]) (simp split: if_splits)
  then show "countCountedFailures sid db' \<le> countCountedFailures sid db + 1"
    unfolding countCountedFailures_def base by linarith
  show "getRunStep sid db' = Some s \<and> s_status s = StepStatusRetrying \<and> s_next_attempt_at s = Some next"
    using getRunStep_replace [OF step(1), of s db' sid] by (simp add: db' db1 step(2) id)
qed

lemma CancelStep_spares_dead:
  assumes "CancelStep k reason now db = Inr (x, db1)" and "status_of db sid = Some StepStatusDeadLettered"
  shows "status_of db1 sid = Some StepStatusDeadLettered"
proof -
  obtain old where old: "getRunStep k db = Some old" and move: "step_move old x db db1"
    using CancelStep_refines assms(1) by (force simp: refines_step_def)
  have "s_status old \<noteq> StepStatusDeadLettered"
    using assms(1) old by (auto simp: CancelStep_def andThen_eq_Inr cancelRunStep_def cas_step_eq_Some split: option.splits)
  then have "sid \<noteq> k" using assms(2) old by (auto simp: status_of_def)
  moreover have "getRunStep sid db1 = (if sid = k then Some x else getRunStep sid db)"
    using getRunStep_replace [OF old, of x db1 sid] move getRunStep_id [OF old]
    by (simp add: step_move_def row_move_def same_step_identity_def)
  ultimately show ?thesis using assms(2) by (simp add: status_of_def)
qed

lemma cancel_steps_spares_dead:
  "cancel_steps why now ks db = Inr (x, db1) \<Longrightarrow> status_of db sid = Some StepStatusDeadLettered
     \<Longrightarrow> status_of db1 sid = Some StepStatusDeadLettered"
  unfolding cancel_steps_def
proof (induction ks arbitrary: db x)
  case (Cons k ks)
  then obtain y db2 ys where "CancelStep k (Some why) now db = Inr (y, db2)" "for_each (\<lambda>sid. CancelStep sid (Some why) now) ks db2 = Inr (ys, db1)"
    by (auto simp: andThen_eq_Inr)
  with Cons CancelStep_spares_dead show ?case by blast
qed simp

lemma run_end_steps:
  "FailRun now db = Inr (x, db') \<Longrightarrow> steps db' = steps db" "FailRunRollup now db = Inr (x, db') \<Longrightarrow> steps db' = steps db"
  by (auto simp: FailRun_def FailRunRollup_def andThen_eq_Inr run_queries cas_run_def appendEvent_eq_Inr split: option.splits if_splits)

lemma deadLetterDisposition_spares_dead:
  assumes disp: "deadLetterDisposition onFailure now db = Inr (x, db')" and dead: "status_of db sid = Some StepStatusDeadLettered"
  shows "status_of db' sid = Some StepStatusDeadLettered"
proof (cases "onFailure \<noteq> ContinueIndependentBranches")
  case True
  have "steps db' = steps db"
    using disp True by (auto simp: deadLetterDisposition_def split: sum.splits store_error.splits dest: run_end_steps(1))
  then show ?thesis using dead status_of_cong by metis
next
  case False
  then obtain w ys db1 where cancel: "cancel_steps CancelReasonUpstreamDeadLettered now w db = Inr (ys, db1)"
    and roll: "(case FailRunRollup now db1 of Inr (_, db2) \<Rightarrow> Inr ((w, True), db2) | Inl (ErrTransition te) \<Rightarrow> Inr ((w, False), db1)
      | Inl e \<Rightarrow> Inl e) = Inr (x, db')"
    using disp by (auto simp: deadLetterDisposition_def andThen_eq_Inr)
  have "steps db' = steps db1" using roll by (auto split: sum.splits store_error.splits dest: run_end_steps(2))
  then show ?thesis using cancel_steps_spares_dead [OF cancel dead] status_of_cong by metis
qed

lemma dead_letter_tx_dies:
  assumes inv: "tx_inv tx" and ok: "dead_letter_tx sid c src outcome payload usage verdict repair costRow overheadRows now tx = Inr (out, tx')"
  shows "\<exists>cancelled ended. out = DeadLettered src cancelled ended \<and> status_of (tx_run tx') sid = Some StepStatusDeadLettered"
proof -
  obtain s tx1 tx2 cancelled ended and rn :: run_row where dead: "on_run (DeadLetterStep sid c src (Some outcome) payload usage verdict repair now) tx = Inr (s, tx1)"
    and charge: "charge_rows costRow overheadRows tx1 = Inr ((), tx2)"
    and disp: "on_run (deadLetterDisposition (r_on_failure rn) now) tx2 = Inr ((cancelled, ended), tx')"
    and out: "out = DeadLettered src cancelled ended"
    using ok by (auto simp: dead_letter_tx_def andThen_eq_Inr split: option.splits)
  have inv1: "tx_inv tx1" by (rule tx_safeD [OF on_run_safe [OF refines_step_refines [OF DeadLetterStep_refines] inv] dead])
  obtain db1 where op: "DeadLetterStep sid c src (Some outcome) payload usage verdict repair now (tx_run tx) = Inr (s, db1)" "tx_run tx1 = db1"
    using dead by (auto simp: on_run_def split: sum.splits)
  obtain old where old: "getRunStep sid (tx_run tx) = Some old" and move: "step_move old s (tx_run tx) db1"
    using DeadLetterStep_refines op(1) by (force simp: refines_step_def)
  have "s_status s = StepStatusDeadLettered"
    using op(1) by (auto simp: DeadLetterStep_def andThen_eq_Inr deadLetterRunStep_def cas_step_eq_Some split: option.splits if_splits)
  moreover have "getRunStep sid db1 = Some s"
    using getRunStep_replace [OF old, of s db1 sid] move getRunStep_id [OF old]
    by (simp add: step_move_def row_move_def same_step_identity_def)
  ultimately have "status_of (tx_run tx2) sid = Some StepStatusDeadLettered"
    using settled_graph_same(2) [OF charge_rows_same [OF charge inv1]] op(2) by (simp add: status_of_def)
  with disp have "status_of (tx_run tx') sid = Some StepStatusDeadLettered"
    by (auto simp: on_run_def split: sum.splits intro: deadLetterDisposition_spares_dead)
  with out show ?thesis by simp
qed

lemma retried_tx:
  assumes inv: "tx_inv tx" and retry: "on_run (RetryStep sid c outcome err usage fireAt now) tx = Inr (x, tx1)"
    and charge: "charge_rows costRow overheadRows tx1 = Inr ((), tx2)"
  shows "countCountedFailures sid (tx_run tx2) \<le> countCountedFailures sid (tx_run tx) + 1
    \<and> (\<exists>s. getRunStep sid (tx_run tx2) = Some s \<and> s_status s = StepStatusRetrying \<and> s_next_attempt_at s = Some fireAt)"
proof -
  have inv1: "tx_inv tx1" by (rule tx_safeD [OF on_run_safe [OF refines_step_refines [OF RetryStep_refines] inv] retry])
  have same: "same_tables (tx_run tx1) (tx_run tx2)" by (rule charge_rows_same [OF charge inv1])
  have op: "RetryStep sid c outcome err usage fireAt now (tx_run tx) = Inr (x, tx_run tx1)"
    using retry by (auto simp: on_run_def split: sum.splits)
  show ?thesis using RetryStep_counts [OF op] same
    by (simp add: same_tables_def countCountedFailures_def death_baseline_def getRunStep_def)
qed

text \<open>
  C3.  What a failed attempt comes to.  In a run that is not being cancelled, a failure that commits is retried
  exactly when the step's stored policy decodes, lists the failure's class, has a delay and has attempts
  left after this one; the step then waits until the delay has passed, and fewer failures than the
  policy's maximum count against it.  Otherwise an instance of a map that collects errors is collected,
  and any other step is dead-lettered, for used-up attempts exactly when the class is retried and for
  a permanent failure in every other case, an unreadable policy included.
\<close>

theorem failure_tx_retry_rule:
  assumes inv: "tx_inv tx" and run: "run_in st (tx_run tx)" "st \<noteq> RunStatusCancelling"
    and commit: "failure_tx pred a tx = Inr (out, tx')"
    and sid: "sid = s_step_id (fa_step a)" and prior: "prior = countCountedFailures sid (tx_run tx)"
  shows "if retries_left a prior
    then \<exists>p delay s. decodeRetryPolicy (s_retry_policy (fa_step a)) = Inr p \<and> retryDelay p (prior + 1) (fa_draw a) = Inr delay
        \<and> out = Retrying (fa_now a + delay) \<and> getRunStep sid (tx_run tx') = Some s \<and> s_status s = StepStatusRetrying
        \<and> s_next_attempt_at s = Some (fa_now a + delay) \<and> countCountedFailures sid (tx_run tx') < rr_max_attempts p
    else if fa_collect a then \<exists>fanned ended. out = Collected fanned ended
    else \<exists>cancelled ended. out = DeadLettered
          (if retries_spent a prior then DeadLetterSourceRetriesExhausted else DeadLetterSourcePermanent) cancelled ended
        \<and> status_of (tx_run tx') sid = Some StepStatusDeadLettered"
proof -
  let ?route = "failure_route (decodeRetryPolicy (s_retry_policy (fa_step a))) (fa_class a) prior (fa_draw a) (fa_now a)"
  have lock: "lock_status (fa_now a) tx = Inr (st, tx)"
    using commit run(1) by (cases "fa_now a = 0") (auto simp: failure_tx_def Let_def andThen_eq_Inr lock_status_eq)
  show ?thesis
  proof (cases ?route)
    case (RouteRetry fireAt)
    obtain x tx1 where retry: "on_run (RetryStep sid (fa_claim a) (Some (class_outcome (fa_class a))) (fa_payload a) (fa_usage a) fireAt (fa_now a)) tx = Inr (x, tx1)"
      and charge: "charge_rows (fa_cost a) (fa_overheads a) tx1 = Inr ((), tx')" and out: "out = Retrying fireAt"
      using commit run(2) RouteRetry by (auto simp: failure_tx_def Let_def lock prior sid andThen_eq_Inr)
    have left: "retries_left a prior" and "\<exists>p delay. decodeRetryPolicy (s_retry_policy (fa_step a)) = Inr p
        \<and> prior + 1 < rr_max_attempts p \<and> retryDelay p (prior + 1) (fa_draw a) = Inr delay \<and> fireAt = fa_now a + delay"
      using failure_route_cases [of a prior "fa_now a"] unfolding RouteRetry by simp_all
    moreover have "countCountedFailures sid (tx_run tx') \<le> prior + 1" using retried_tx [OF inv retry charge] prior by simp
    ultimately show ?thesis using retried_tx [OF inv retry charge] out left by fastforce
  next
    case (RouteTerminal exhausted)
    then have "\<not> retries_left a prior" "exhausted = retries_spent a prior" using failure_route_cases [of a prior "fa_now a"] by simp_all
    with commit run(2) RouteTerminal dead_letter_tx_dies [OF inv] show ?thesis
      by (auto simp: failure_tx_def Let_def lock prior sid andThen_eq_Inr split: if_splits)
  qed
qed

theorem failure_tx_retry_rule_witness:
  "\<exists>t tx' p. failure_tx (\<lambda>w out params. Inl (ErrPredicate w)) (plain_failure ''a'' 7 ClassTransient 300 diamond_claimed) diamond_claimed
     = Inr (Retrying t, tx') \<and> decodeRetryPolicy (s_retry_policy (row_of ''a'' diamond_claimed)) = Inr p
     \<and> countCountedFailures ''a'' (tx_run tx') < rr_max_attempts p"
proof -
  let ?a = "plain_failure ''a'' 7 ClassTransient 300 diamond_claimed"
  let ?m = "failure_tx (\<lambda>w out params. Inl (ErrPredicate w)) ?a diamond_claimed"
  have "case ?m of Inl _ \<Rightarrow> False | Inr (out, tx') \<Rightarrow> (case out of Retrying t \<Rightarrow> True | _ \<Rightarrow> False)" by code_simp
  then obtain t tx' where commit: "?m = Inr (Retrying t, tx')" by (auto split: sum.splits completion.split_asm)
  have sid: "''a'' = s_step_id (fa_step ?a)" by code_simp
  have row: "fa_step ?a = row_of ''a'' diamond_claimed" "fa_collect ?a = False" by (simp_all add: plain_failure_def)
  show ?thesis using failure_tx_retry_rule [OF diamond_claimed_inv diamond_claimed_running commit sid refl] commit
    unfolding row by (auto split: if_splits)
qed

section \<open>A join that is cut off late\<close>

text \<open>
  Step \<open>j\<close> joins any of \<open>x\<close> and \<open>y\<close>; \<open>y\<close> runs when the predicate on the edge from \<open>b\<close> holds.
\<close>

definition late_join :: workflow where
  "late_join = \<lparr>wf_name = ''late_join'',
     wf_steps = map plain_step [''x'', ''b'', ''y''] @ [(plain_step ''j'')\<lparr>st_type := StepJoin, st_config := JoinConfig (Some JoinAny)\<rparr>],
     wf_edges = [plain_edge ''x'' ''j'' EdgeTypeNormal, (plain_edge ''b'' ''y'' EdgeTypeNormal)\<lparr>ed_when := ''output.more''\<rparr>,
                 plain_edge ''y'' ''j'' EdgeTypeNormal],
     wf_on_failure = Some ContinueIndependentBranches, wf_deadline = None, wf_budget_nano_usd = None, wf_on_budget_exceeded = None\<rparr>"

definition late_created :: txdb where
  "late_created = \<lparr>tx_run = db_after (map_sum (\<lambda>_. ErrZeroNow) id (CreateRun_tx late_join plain_args)) empty_db,
     tx_ledger = [], tx_board = []\<rparr>"

definition late_failed :: txdb where
  "late_failed = (let tx = claimed ''x'' 7 200 late_created
     in tx_after (failure_tx (\<lambda>_ _ _. Inr False) (plain_failure ''x'' 7 ClassPermanent 300 tx) tx) tx)"

definition late_stalled :: txdb where
  "late_stalled = (let tx = claimed ''b'' 8 400 late_failed
     in tx_after (success_tx (\<lambda>_ _ _. Inr False) no_step_issues no_ref_issues all_compile (plain_success ''b'' 8 500 tx) tx) tx)"

text \<open>Both transactions commit, so the state is one that the engine reaches.\<close>

lemma late_reached: "engine_step\<^sup>*\<^sup>* late_created late_stalled"
proof -
  have committed: "engine_step tx (tx_after m tx)" if "\<not> isl m" and "\<And>x tx'. m = Inr (x, tx') \<Longrightarrow> engine_step tx tx'" for m :: "tx_error + completion \<times> txdb" and tx
    using that by (auto simp: tx_after_def split: sum.splits)
  have "engine_step late_created (claimed ''x'' 7 200 late_created)" by (rule claim_step) code_simp
  moreover have "engine_step (claimed ''x'' 7 200 late_created) late_failed"
    unfolding late_failed_def Let_def by (rule committed, code_simp, erule engine_step.failure)
  moreover have "engine_step late_failed (claimed ''b'' 8 400 late_failed)" by (rule claim_step) code_simp
  moreover have "engine_step (claimed ''b'' 8 400 late_failed) late_stalled"
    unfolding late_stalled_def Let_def by (rule committed, code_simp, erule engine_step.success)
  ultimately show ?thesis by (meson converse_rtranclp_into_rtranclp rtranclp.rtrancl_refl)
qed

text \<open>A run that is running with nothing left that could move: no step is in flight, none is due, no rollup applies.\<close>

definition stranded :: "txdb \<Rightarrow> bool" where
  "stranded tx \<longleftrightarrow> run_in RunStatusRunning (tx_run tx) \<and> quiet (tx_run tx)
     \<and> (\<forall>s \<in> set (steps (tx_run tx)). terminal_step (s_status s) \<or> s_status s = StepStatusPending)
     \<and> rollup_status RunStatusRunning (map s_status (steps (tx_run tx))) = None"


end
