(* ===== verification/Dag_Loops.thy ===== *)
theory Dag_Loops
  imports Dag_Generate
begin

text \<open>
  The loop unroller, \<^verbatim>\<open>internal/dag/loopexpand.go\<close>: the body of a loop edge, its entries, and the
  plan that adds one more iteration of the body to the run graph.

  The rewriting of one step's configuration for an iteration (\<open>rewrite\<close>) and the configuration an
  agent step resolves to (\<open>resolve\<close>) are arguments; the results hold for all of them.
\<close>

section \<open>Loop unrolling\<close>

definition loopBody :: "graph \<Rightarrow> string \<Rightarrow> string \<Rightarrow> graph_error + string list" where
  "loopBody g from to =
     andThen (Descendants g to) (\<lambda>desc.
     andThen (Ancestors g from) (\<lambda>anc.
     Inr (remdups (from # to # filter (\<lambda>sid. sid = from \<or> sid \<in> set anc) desc))))"

definition loopEntries :: "workflow \<Rightarrow> string list \<Rightarrow> string list" where
  "loopEntries def body = filter (\<lambda>sid. sid \<in> set body
     \<and> \<not> list_ex (\<lambda>e. \<not> IsLoop e \<and> ed_from e \<in> set body \<and> ed_to e \<in> set body \<and> ed_to e = sid) (wf_edges def))
     (map st_id (wf_steps def))"

definition rewriteLoopBodyStep :: "(string list \<Rightarrow> nat \<Rightarrow> dag_step \<Rightarrow> string + step_config) \<Rightarrow> string list \<Rightarrow> nat
    \<Rightarrow> dag_step \<Rightarrow> generate_error + dag_step" where
  "rewriteLoopBodyStep rewrite body iter s = (case rewrite body iter s of
     Inl e \<Rightarrow> Inl (RewriteError (st_id s) e)
   | Inr c \<Rightarrow> Inr (s\<lparr>st_id := instanceID (st_id s) iter, st_config := c\<rparr>))"

definition clone_member :: "(dag_step \<Rightarrow> string + step_config) \<Rightarrow> (string list \<Rightarrow> nat \<Rightarrow> dag_step \<Rightarrow> string + step_config)
    \<Rightarrow> workflow \<Rightarrow> string list \<Rightarrow> nat \<Rightarrow> string \<Rightarrow> generate_error + dag_step" where
  "clone_member resolve rewrite def body iter sid =
     (let s = (case find (\<lambda>s. st_id s = sid) (wf_steps def) of Some s \<Rightarrow> s
               | None \<Rightarrow> \<lparr>st_id = [], st_type = StepNoop, st_config = NoConfig, st_retry = None, st_timeout = []\<rparr>)
      in andThen (if st_type s = StepAgent then (case resolve s of Inl e \<Rightarrow> Inl (AgentError sid e) | Inr c \<Rightarrow> Inr (s\<lparr>st_config := c\<rparr>)) else Inr s)
           (rewriteLoopBodyStep rewrite body iter))"

definition internal_edge :: "nat \<Rightarrow> dag_edge \<Rightarrow> dag_edge" where
  "internal_edge iter e = (bare_edge (instanceID (ed_from e) iter) (instanceID (ed_to e) iter))
     \<lparr>ed_when := ed_when e, ed_decision := ed_decision e\<rparr>"

definition internal_edges :: "workflow \<Rightarrow> string list \<Rightarrow> nat \<Rightarrow> dag_edge list" where
  "internal_edges def body iter =
     map (internal_edge iter) (filter (\<lambda>e. \<not> IsLoop e \<and> ed_from e \<in> set body \<and> ed_to e \<in> set body) (wf_edges def))"

definition exit_edge :: "nat \<Rightarrow> dag_edge \<Rightarrow> dag_edge" where
  "exit_edge iter e = (bare_edge (instanceID (ed_from e) iter) (ed_to e))\<lparr>ed_when := ed_when e, ed_decision := ed_decision e\<rparr>"

fun exit_edges :: "string \<Rightarrow> string list \<Rightarrow> nat \<Rightarrow> dag_edge list \<Rightarrow> generate_error + dag_edge list" where
  "exit_edges from body iter [] = Inr []"
| "exit_edges from body iter (e # es) =
     (if IsLoop e then exit_edges from body iter es
      else if ed_from e = from \<and> ed_to e \<notin> set body
        then andThen (exit_edges from body iter es) (\<lambda>rest. Inr (exit_edge iter e # rest))
      else if ed_from e \<noteq> from \<and> ed_from e \<in> set body \<and> ed_to e \<notin> set body then Inl (LeavesBody (ed_from e) (ed_to e))
      else exit_edges from body iter es)"

definition GenerateLoopExpansion :: "(dag_step \<Rightarrow> string + step_config) \<Rightarrow> (string list \<Rightarrow> nat \<Rightarrow> dag_step \<Rightarrow> string + step_config)
    \<Rightarrow> workflow \<Rightarrow> dag_edge \<Rightarrow> string \<Rightarrow> nat \<Rightarrow> generate_error + plan_output" where
  "GenerateLoopExpansion resolve rewrite def loopEdge current nextIter =
     (case NewGraph def of Inl e \<Rightarrow> Inl (GraphError e) | Inr g \<Rightarrow>
      case loopBody g (ed_from loopEdge) (ed_to loopEdge) of Inl e \<Rightarrow> Inl (GraphError e) | Inr body \<Rightarrow>
      andThen (try_map (clone_member resolve rewrite def body nextIter) (sort body)) (\<lambda>steps.
      andThen (exit_edges (ed_from loopEdge) body nextIter (wf_edges def)) (\<lambda>exits.
      Inr \<lparr>pl_schema_version = PlanSchemaVersion, pl_steps = steps,
           pl_edges = internal_edges def body nextIter
             @ map (\<lambda>en. bare_edge current (instanceID en nextIter)) (loopEntries def body) @ exits\<rparr>)))"

section \<open>The loop body\<close>

lemma Descendants_ids:
  assumes "NewGraph def = Inr g" and "sid \<in> st_id ` set (wf_steps def)"
  obtains ds where "Descendants g sid = Inr ds" "\<And>x. x \<in> set ds \<longleftrightarrow> (sid, x) \<in> (edge_rel (wf_edges def))\<^sup>+"
proof -
  have ok: "graph_ok g" and d: "g_def g = def" using NewGraph_ok [OF assms(1)] by blast+
  from assms(2) obtain i where i: "i < step_count g" "step_name g i = sid" by (auto simp: d in_set_conv_nth)
  have ix: "g_index g sid = Some i" using graph_ok_index [OF ok i(1)] i(2) by simp
  note sc = searches_closure [OF assms(1) ix]
  obtain ds where ds: "Descendants g sid = Inr ds" using ix by (simp add: Descendants_def)
  then have names: "x \<in> set ds \<Longrightarrow> \<exists>j < step_count g. step_name g j = x" for x
    by (auto simp: Descendants_def ix marked_names_def)
  have "x \<in> set ds \<longleftrightarrow> (sid, x) \<in> (edge_rel (wf_edges def))\<^sup>+" for x
  proof -
    have named: "\<exists>j < step_count g. step_name g j = x" if "(sid, x) \<in> (edge_rel (wf_edges def))\<^sup>+"
      using tranclE [OF that] edge_rel_named [OF ok] unfolding d by metis
    have "step_name g j \<in> set ds \<longleftrightarrow> (sid, step_name g j) \<in> (edge_rel (wf_edges def))\<^sup>+" if "j < step_count g" for j
      using sc [of j] ds that i normal_rel_trancl [OF ok, of i j] by (simp add: d)
    then show ?thesis using names named by metis
  qed
  with ds that show thesis by blast
qed

lemma Ancestors_ids:
  assumes "NewGraph def = Inr g" and "sid \<in> st_id ` set (wf_steps def)"
  obtains as where "Ancestors g sid = Inr as" "\<And>x. x \<in> set as \<longleftrightarrow> (x, sid) \<in> (edge_rel (wf_edges def))\<^sup>+"
proof -
  have ok: "graph_ok g" and d: "g_def g = def" using NewGraph_ok [OF assms(1)] by blast+
  from assms(2) obtain i where i: "i < step_count g" "step_name g i = sid" by (auto simp: d in_set_conv_nth)
  have ix: "g_index g sid = Some i" using graph_ok_index [OF ok i(1)] i(2) by simp
  note sc = searches_closure [OF assms(1) ix]
  obtain as where as: "Ancestors g sid = Inr as" using ix by (simp add: Ancestors_def)
  then have names: "x \<in> set as \<Longrightarrow> \<exists>j < step_count g. step_name g j = x" for x
    by (auto simp: Ancestors_def ix marked_names_def)
  have "x \<in> set as \<longleftrightarrow> (x, sid) \<in> (edge_rel (wf_edges def))\<^sup>+" for x
  proof -
    have named: "\<exists>j < step_count g. step_name g j = x" if "(x, sid) \<in> (edge_rel (wf_edges def))\<^sup>+"
      using tranclD [OF that] edge_rel_named [OF ok] unfolding d by metis
    have "step_name g j \<in> set as \<longleftrightarrow> (step_name g j, sid) \<in> (edge_rel (wf_edges def))\<^sup>+" if "j < step_count g" for j
      using sc [of j] as that i normal_rel_trancl [OF ok, of j i] by (simp add: d)
    then show ?thesis using names named by metis
  qed
  with as that show thesis by blast
qed

definition span :: "workflow \<Rightarrow> string \<Rightarrow> string \<Rightarrow> string set" where
  "span def from to = {x. (to, x) \<in> (edge_rel (wf_edges def))\<^sup>* \<and> (x, from) \<in> (edge_rel (wf_edges def))\<^sup>*}"

lemma loopBody_span:
  assumes "NewGraph def = Inr g" and "(to, from) \<in> (edge_rel (wf_edges def))\<^sup>+"
    and "from \<in> st_id ` set (wf_steps def)" "to \<in> st_id ` set (wf_steps def)"
  obtains body where "loopBody g from to = Inr body" "distinct body" "set body = span def from to"
proof -
  obtain ds as where d: "Descendants g to = Inr ds" "\<And>x. x \<in> set ds \<longleftrightarrow> (to, x) \<in> (edge_rel (wf_edges def))\<^sup>+"
    and a: "Ancestors g from = Inr as" "\<And>x. x \<in> set as \<longleftrightarrow> (x, from) \<in> (edge_rel (wf_edges def))\<^sup>+"
    using Descendants_ids [OF assms(1,4)] Ancestors_ids [OF assms(1,3)] by metis
  let ?body = "remdups (from # to # filter (\<lambda>sid. sid = from \<or> sid \<in> set as) ds)"
  have body: "loopBody g from to = Inr ?body" by (simp only: loopBody_def d(1) a(1) andThen_simps)
  have "set ?body = span def from to"
    using assms(2) unfolding set_remdups span_def by (auto simp: d(2) a(2) rtrancl_eq_or_trancl)
  then show thesis by (rule that [OF body distinct_remdups])
qed

lemma NewGraph_named:
  assumes "NewGraph def = Inr g"
  shows "distinct (map st_id (wf_steps def))"
    and "e \<in> set (wf_edges def) \<Longrightarrow> ed_from e \<in> st_id ` set (wf_steps def) \<and> ed_to e \<in> st_id ` set (wf_steps def)"
  using graph_ok_ids [OF NewGraph_ok(1) [OF assms]] by (simp_all add: NewGraph_ok(2) [OF assms])

lemma filter_single: "distinct xs \<Longrightarrow> a \<in> set xs \<Longrightarrow> (\<And>x. x \<in> set xs \<Longrightarrow> P x \<longleftrightarrow> x = a) \<Longrightarrow> filter P xs = [a]"
proof (induction xs)
  case (Cons x xs)
  show ?case
  proof (cases "x = a")
    case True
    with Cons.prems have "filter P xs = []" by (auto simp: filter_empty_conv)
    with True Cons.prems show ?thesis by simp
  qed (use Cons in auto)
qed simp

lemma loopEntries_to:
  assumes "NewGraph def = Inr g" and acyc: "acyclic (edge_rel (wf_edges def))" and "set body = span def from to"
    and "to \<in> st_id ` set (wf_steps def)" and "to \<in> span def from to"
  shows "loopEntries def body = [to]"
  unfolding loopEntries_def
proof (rule filter_single)
  let ?R = "edge_rel (wf_edges def)"
  fix x
  have parent: "list_ex (\<lambda>e. \<not> IsLoop e \<and> ed_from e \<in> set body \<and> ed_to e \<in> set body \<and> ed_to e = x) (wf_edges def)
      \<longleftrightarrow> (\<exists>a \<in> set body. (a, x) \<in> ?R) \<and> x \<in> set body" by (auto simp: list_ex_iff edge_rel_def)
  have "\<exists>a \<in> set body. (a, x) \<in> ?R" if "x \<in> set body" "x \<noteq> to"
  proof -
    have "(to, x) \<in> ?R\<^sup>*" "(x, from) \<in> ?R\<^sup>*" using that assms(3) by (simp_all add: span_def)
    with that(2) obtain a where "(to, a) \<in> ?R\<^sup>*" "(a, x) \<in> ?R" "(a, from) \<in> ?R\<^sup>*"
      by (metis converse_rtrancl_into_rtrancl rtranclE)
    then show ?thesis using assms(3) by (auto simp: span_def)
  qed
  moreover have "(a, to) \<notin> ?R" if "a \<in> set body" for a
    using that acyc assms(3) unfolding span_def acyclic_def by (auto dest: rtrancl_into_trancl1)
  ultimately show "(x \<in> set body \<and> \<not> list_ex (\<lambda>e. \<not> IsLoop e \<and> ed_from e \<in> set body \<and> ed_to e \<in> set body \<and> ed_to e = x) (wf_edges def))
      \<longleftrightarrow> x = to" unfolding parent using assms(3,5) by blast
qed (use NewGraph_named [OF assms(1)] assms(4) in auto)

definition leaves_body :: "string \<Rightarrow> string list \<Rightarrow> dag_edge \<Rightarrow> bool" where
  "leaves_body from body e \<longleftrightarrow> \<not> IsLoop e \<and> ed_from e \<noteq> from \<and> ed_from e \<in> set body \<and> ed_to e \<notin> set body"

lemma cloned_edge_simps [simp]:
  "ed_from (internal_edge k e) = instanceID (ed_from e) k" "ed_to (internal_edge k e) = instanceID (ed_to e) k"
  "\<not> IsLoop (internal_edge k e)"
  "ed_from (exit_edge k e) = instanceID (ed_from e) k" "ed_to (exit_edge k e) = ed_to e" "\<not> IsLoop (exit_edge k e)"
  by (simp_all add: internal_edge_def exit_edge_def bare_edge_def plain_edge_def IsLoop_def)

lemma exit_edges_iff:
  "exit_edges from body iter es = Inr xs \<longleftrightarrow> (\<forall>e \<in> set es. \<not> leaves_body from body e)
     \<and> xs = map (exit_edge iter) (filter (\<lambda>e. \<not> IsLoop e \<and> ed_from e = from \<and> ed_to e \<notin> set body) es)"
  by (induction es arbitrary: xs) (auto simp: leaves_body_def andThen_eq_Inr)

lemma clone_member_id:
  assumes "clone_member resolve rewrite def body iter sid = Inr s" and "sid \<in> st_id ` set (wf_steps def)"
  shows "st_id s = instanceID sid iter"
proof -
  obtain s0 where s0: "find (\<lambda>s. st_id s = sid) (wf_steps def) = Some s0"
    using assms(2) by (cases "find (\<lambda>s. st_id s = sid) (wf_steps def)") (auto simp: find_None_iff)
  then have "st_id s0 = sid" by (auto simp: find_Some_iff)
  then show ?thesis using assms(1)
    by (auto simp: clone_member_def s0 andThen_eq_Inr rewriteLoopBodyStep_def Let_def split: if_splits sum.splits)
qed

section \<open>The loop plan\<close>

text \<open>What definition validation guarantees of a loop edge and the graph around it.\<close>

definition loop_valid :: "(string \<Rightarrow> expr_status) \<Rightarrow> workflow \<Rightarrow> dag_edge \<Rightarrow> bool" where
  "loop_valid compile def le \<longleftrightarrow> acyclic (edge_rel (wf_edges def)) \<and> le \<in> set (wf_edges def)
     \<and> (ed_to le, ed_from le) \<in> (edge_rel (wf_edges def))\<^sup>+
     \<and> (\<forall>s \<in> set (wf_steps def). stepIDRe (st_id s))
     \<and> (\<forall>e \<in> set (wf_edges def). checkExpansionEdgeFields compile 0 e = [])"

definition loop_rel :: "workflow \<Rightarrow> dag_edge \<Rightarrow> string \<Rightarrow> nat \<Rightarrow> (string \<times> string) set" where
  "loop_rel def le current iter =
     {(instanceID a iter, instanceID b iter) | a b. (a, b) \<in> edge_rel (wf_edges def) \<and> {a, b} \<subseteq> span def (ed_from le) (ed_to le)}
   \<union> {(current, instanceID (ed_to le) iter)}
   \<union> {(instanceID (ed_from le) iter, x) | x. (ed_from le, x) \<in> edge_rel (wf_edges def) \<and> x \<notin> span def (ed_from le) (ed_to le)}"

lemma loop_valid_span:
  assumes "loop_valid compile def le"
  shows "ed_from le \<in> span def (ed_from le) (ed_to le)" and "ed_to le \<in> span def (ed_from le) (ed_to le)"
  using assms by (auto simp: loop_valid_def span_def trancl_into_rtrancl)

lemma span_steps:
  assumes "NewGraph def = Inr g" and "loop_valid compile def le" and "x \<in> span def (ed_from le) (ed_to le)"
  shows "x \<in> st_id ` set (wf_steps def)"
proof -
  have "ed_to le \<in> st_id ` set (wf_steps def)" using assms(2) NewGraph_named(2) [OF assms(1)] by (auto simp: loop_valid_def)
  moreover have "(ed_to le, x) \<in> (edge_rel (wf_edges def))\<^sup>*" using assms(3) by (simp add: span_def)
  moreover have "a \<in> st_id ` set (wf_steps def) \<and> b \<in> st_id ` set (wf_steps def)" if "(a, b) \<in> edge_rel (wf_edges def)" for a b
    using that NewGraph_named(2) [OF assms(1)] unfolding edge_rel_def by blast
  ultimately show ?thesis using rtrancl_closed [of "edge_rel (wf_edges def)"] by blast
qed

lemma loopBody_valid:
  assumes "NewGraph def = Inr g" and "loop_valid compile def le"
  obtains body where "loopBody g (ed_from le) (ed_to le) = Inr body" "distinct body" "set body = span def (ed_from le) (ed_to le)"
proof -
  have ends: "ed_from le \<in> st_id ` set (wf_steps def)" "ed_to le \<in> st_id ` set (wf_steps def)"
    "(ed_to le, ed_from le) \<in> (edge_rel (wf_edges def))\<^sup>+"
    using assms(2) NewGraph_named(2) [OF assms(1), of le] by (simp_all add: loop_valid_def)
  show thesis by (rule loopBody_span [OF assms(1) ends(3,1,2)]) (rule that)
qed

lemma GenerateLoopExpansion_plan:
  assumes "GenerateLoopExpansion resolve rewrite def le current iter = Inr plan" and "loop_valid compile def le"
  obtains body where "set body = span def (ed_from le) (ed_to le)" "distinct body"
    "pl_schema_version plan = PlanSchemaVersion" "map st_id (pl_steps plan) = map (\<lambda>sid. instanceID sid iter) (sort body)"
    "\<forall>e \<in> set (wf_edges def). \<not> leaves_body (ed_from le) body e"
    "pl_edges plan = internal_edges def body iter @ [bare_edge current (instanceID (ed_to le) iter)]
       @ map (exit_edge iter) (filter (\<lambda>e. \<not> IsLoop e \<and> ed_from e = ed_from le \<and> ed_to e \<notin> set body) (wf_edges def))"
    "\<And>x. x \<in> set body \<Longrightarrow> x \<in> st_id ` set (wf_steps def)"
proof -
  obtain g where g: "NewGraph def = Inr g" using assms(1) by (auto simp: GenerateLoopExpansion_def split: sum.splits)
  obtain body where body: "loopBody g (ed_from le) (ed_to le) = Inr body" "distinct body" "set body = span def (ed_from le) (ed_to le)"
    by (rule loopBody_valid [OF g assms(2)])
  have steps: "x \<in> st_id ` set (wf_steps def)" if "x \<in> set body" for x
    using span_steps [OF g assms(2)] that body(3) by blast
  have entry: "loopEntries def body = [ed_to le]"
    by (rule loopEntries_to [OF g _ body(3)]) (use assms(2) steps loop_valid_span [OF assms(2)] body(3) in \<open>auto simp: loop_valid_def\<close>)
  from assms(1) obtain ss exits where
    ss: "try_map (clone_member resolve rewrite def body iter) (sort body) = Inr ss"
    and exits: "exit_edges (ed_from le) body iter (wf_edges def) = Inr exits"
    and plan: "plan = \<lparr>pl_schema_version = PlanSchemaVersion, pl_steps = ss,
       pl_edges = internal_edges def body iter @ [bare_edge current (instanceID (ed_to le) iter)] @ exits\<rparr>"
    by (auto simp: GenerateLoopExpansion_def g body(1) andThen_eq_Inr entry)
  have "map st_id ss = map (\<lambda>sid. instanceID sid iter) (sort body)"
    by (rule try_map_eq [OF ss]) (use steps in \<open>auto intro: clone_member_id\<close>)
  with exits body(2,3) steps show thesis by (intro that [of body]) (auto simp: plan exit_edges_iff)
qed

lemma loop_edge_rel:
  assumes "set body = span def (ed_from le) (ed_to le)"
  shows "edge_rel (internal_edges def body iter @ [bare_edge current (instanceID (ed_to le) iter)]
       @ map (exit_edge iter) (filter (\<lambda>e. \<not> IsLoop e \<and> ed_from e = ed_from le \<and> ed_to e \<notin> set body) (wf_edges def)))
    = loop_rel def le current iter"
proof -
  have "edge_rel (map (internal_edge iter) (filter (\<lambda>e. \<not> IsLoop e \<and> ed_from e \<in> set body \<and> ed_to e \<in> set body) es)) =
    {(instanceID a iter, instanceID b iter) | a b. (a, b) \<in> edge_rel es \<and> {a, b} \<subseteq> set body}" for es
    by (induction es) auto
  moreover have "edge_rel (map (exit_edge iter) (filter (\<lambda>e. \<not> IsLoop e \<and> ed_from e = ed_from le \<and> ed_to e \<notin> set body) es))
    = {(instanceID (ed_from le) iter, x) | x. (ed_from le, x) \<in> edge_rel es \<and> x \<notin> set body}" for es
    by (induction es) auto
  ultimately show ?thesis unfolding edge_rel_append internal_edges_def loop_rel_def assms by (simp add: Un_assoc)
qed

lemma cloned_edge_fields:
  assumes "checkExpansionEdgeFields compile 0 e = []" and "\<not> IsLoop e"
  shows "checkExpansionEdgeFields compile i (internal_edge k e) = []" and "checkExpansionEdgeFields compile i (exit_edge k e) = []"
  using assms
  by (auto simp: checkExpansionEdgeFields_def checkExpr_def internal_edge_def exit_edge_def bare_edge_def plain_edge_def IsLoop_def
    split: if_splits expr_status.splits)

text \<open>
  The exits of the loop are pending steps of the run that the completing instance itself has an
  edge to: the definition's edges of the authored source, or those the previous iteration added.
\<close>

definition exits_open :: "workflow \<Rightarrow> dag_edge \<Rightarrow> string \<Rightarrow> expansion_input \<Rightarrow> bool" where
  "exits_open def le current inp \<longleftrightarrow>
     (\<forall>x. (ed_from le, x) \<in> edge_rel (wf_edges def) \<longrightarrow> x \<notin> span def (ed_from le) (ed_to le) \<longrightarrow>
        (\<exists>a. existing inp x = Some a \<and> an_status a = AnchorPending) \<and> (current, x) \<in> edge_rel (xi_existing_edges inp))"

lemma loop_merged_acyclic:
  assumes valid: "loop_valid compile def le" and steps: "\<And>x. x \<in> span def (ed_from le) (ed_to le) \<Longrightarrow> stepIDRe x"
    and plan: "edge_rel (pl_edges (xi_plan inp)) = loop_rel def le current iter"
    and ids: "set (delta_ids inp) = (\<lambda>x. instanceID x iter) ` span def (ed_from le) (ed_to le)"
    and run: "run_graph_known inp" "acyclic (edge_rel (xi_existing_edges inp))" "existing inp current \<noteq> None"
    and fresh: "\<forall>sid \<in> set (delta_ids inp). existing inp sid = None" and exits: "exits_open def le current inp"
  shows "acyclic (merged_rel inp)"
proof -
  let ?X = "{x. existing inp x \<noteq> None}" and ?D = "set (delta_ids inp)" and ?P = "loop_rel def le current iter"
  let ?E = "edge_rel (xi_existing_edges inp)"
  note span = loop_valid_span [OF valid]
  have "acyclic (?E \<union> ?P)"
  proof (rule acyclic_splice [where X = ?X and D = ?D])
    show "a \<in> ?X \<and> b \<in> ?X" if "(a, b) \<in> ?E" for a b using that run(1) by (auto simp: run_graph_known_def edge_rel_def)
    have "(authoredStepID x, authoredStepID y) \<in> edge_rel (wf_edges def)" if "(x, y) \<in> ?P \<inter> ?D \<times> ?D" for x y
      using that fresh run(3) exits steps
      by (auto simp: loop_rel_def exits_open_def authoredStepID_plain [OF stepIDRe_no_sep])
    moreover have "acyclic (edge_rel (wf_edges def))" using valid by (simp add: loop_valid_def)
    ultimately show "acyclic (?P \<inter> ?D \<times> ?D)" by (rule acyclic_hom [rotated])
    show "?P \<subseteq> (?X \<union> ?D) \<times> (?X \<union> ?D)" using span run(3) exits by (auto simp: loop_rel_def ids exits_open_def)
    show "?X \<inter> ?D = {}" using fresh by auto
    show "(v, u) \<notin> ?E\<^sup>*" if "u \<in> ?X" "v \<in> ?X" "u \<in> Domain ?P" "v \<in> Range ?P" for u v
    proof -
      have "instanceID x iter \<notin> ?X" if "x \<in> span def (ed_from le) (ed_to le)" for x using fresh that by (auto simp: ids)
      with that span have "u = current" and v: "(ed_from le, v) \<in> edge_rel (wf_edges def)" "v \<notin> span def (ed_from le) (ed_to le)"
        by (auto simp: loop_rel_def)
      moreover have "(current, v) \<in> ?E" using exits v by (simp add: exits_open_def)
      ultimately show ?thesis using run(2) by (auto simp: acyclic_def dest: rtrancl_into_trancl2)
    qed
  qed (use run in auto)
  then show ?thesis by (simp add: merged_rel_def edge_rel_append plan)
qed

lemma loop_splices:
  assumes valid: "loop_valid compile def le" and body: "set body = span def (ed_from le) (ed_to le)"
    and D: "set (delta_ids inp) = (\<lambda>x. instanceID x iter) ` span def (ed_from le) (ed_to le)"
    and cur: "existing inp current = Some a" "an_status a \<noteq> AnchorTerminal" and exits: "exits_open def le current inp"
    and e: "e \<in> set (internal_edges def body iter @ [bare_edge current (instanceID (ed_to le) iter)]
       @ map (exit_edge iter) (filter (\<lambda>e. \<not> IsLoop e \<and> ed_from e = ed_from le \<and> ed_to e \<notin> set body) (wf_edges def)))"
  shows "splice_ok inp e \<and> checkExpansionEdgeFields compile i e = []"
proof -
  from e consider e' where "e' \<in> set (wf_edges def)" "\<not> IsLoop e'" "ed_from e' \<in> set body" "ed_to e' \<in> set body" "e = internal_edge iter e'"
    | "e = bare_edge current (instanceID (ed_to le) iter)"
    | e' where "e' \<in> set (wf_edges def)" "\<not> IsLoop e'" "ed_from e' = ed_from le" "ed_to e' \<notin> set body" "e = exit_edge iter e'"
    unfolding internal_edges_def by auto
  then show ?thesis
  proof cases
    case 1
    then show ?thesis using valid body by (simp add: loop_valid_def cloned_edge_fields splice_ok_def touches_delta_def D)
  next
    case 2
    then show ?thesis using cur loop_valid_span(2) [OF valid] by (simp add: splice_ok_def touches_delta_def D)
  next
    case 3
    then have "(ed_from le, ed_to e') \<in> edge_rel (wf_edges def)" by (simp add: edge_rel_def) metis
    with 3 show ?thesis using valid body exits loop_valid_span(1) [OF valid]
      by (auto simp: loop_valid_def cloned_edge_fields splice_ok_def touches_delta_def D exits_open_def)
  qed
qed


lemma try_map_total: "(\<And>x. x \<in> set xs \<Longrightarrow> \<exists>y. f x = Inr y) \<Longrightarrow> \<exists>ys. try_map f xs = Inr ys"
  by (induction xs) (auto simp: andThen_eq_Inr)

lemma exit_edges_error:
  "exit_edges from body iter es = Inl err \<Longrightarrow> \<exists>e \<in> set es. leaves_body from body e \<and> err = LeavesBody (ed_from e) (ed_to e)"
  by (induction es) (auto simp: leaves_body_def andThen_eq_Inl split: if_splits)

definition leaves :: "workflow \<Rightarrow> dag_edge \<Rightarrow> string \<Rightarrow> string \<Rightarrow> bool" where
  "leaves def le u v \<longleftrightarrow> u \<in> span def (ed_from le) (ed_to le) \<and> v \<notin> span def (ed_from le) (ed_to le)"

text \<open>
  Whether a loop can iterate is decided by its shape alone.  When the configurations of
  the body rewrite, the generator returns a plan exactly if no body step other than the loop
  source has a normal edge leaving the body, and otherwise it reports such an edge.
\<close>

theorem loop_expansion_total:
  assumes "NewGraph def = Inr g" and "loop_valid compile def le"
    and "\<forall>s. \<exists>c. resolve s = Inr c" and "\<forall>body k s. \<exists>c. rewrite body k s = Inr c"
  shows "case GenerateLoopExpansion resolve rewrite def le current iter of
      Inr plan \<Rightarrow> \<forall>(u, v) \<in> edge_rel (wf_edges def). leaves def le u v \<longrightarrow> u = ed_from le
    | Inl err \<Rightarrow> \<exists>(u, v) \<in> edge_rel (wf_edges def). leaves def le u v \<and> u \<noteq> ed_from le \<and> err = LeavesBody u v"
proof -
  obtain body where body: "loopBody g (ed_from le) (ed_to le) = Inr body" "set body = span def (ed_from le) (ed_to le)"
    by (rule loopBody_valid [OF assms(1,2)])
  have "\<exists>s'. clone_member resolve rewrite def body iter sid = Inr s'" for sid
    using assms(3,4) by (auto simp: clone_member_def Let_def rewriteLoopBodyStep_def andThen_def split: sum.splits) (metis sum.distinct(1))+
  then obtain ss where ss: "try_map (clone_member resolve rewrite def body iter) (sort body) = Inr ss" using try_map_total by metis
  have leaving: "(\<exists>e \<in> set (wf_edges def). leaves_body (ed_from le) body e \<and> Q (ed_from e) (ed_to e)) \<longleftrightarrow>
      (\<exists>(u, v) \<in> edge_rel (wf_edges def). leaves def le u v \<and> u \<noteq> ed_from le \<and> Q u v)" for Q
    by (auto simp: leaves_body_def leaves_def edge_rel_def body(2))
  have gen: "GenerateLoopExpansion resolve rewrite def le current iter =
      andThen (exit_edges (ed_from le) body iter (wf_edges def)) (\<lambda>exits.
        Inr \<lparr>pl_schema_version = PlanSchemaVersion, pl_steps = ss,
           pl_edges = internal_edges def body iter
             @ map (\<lambda>en. bare_edge current (instanceID en iter)) (loopEntries def body) @ exits\<rparr>)"
    by (simp add: GenerateLoopExpansion_def assms(1) body(1) ss)
  show ?thesis
  proof (cases "exit_edges (ed_from le) body iter (wf_edges def)")
    case (Inl err)
    then show ?thesis using exit_edges_error [OF Inl] leaving [of "\<lambda>u v. err = LeavesBody u v"] by (simp add: gen)
  next
    case (Inr exits)
    then have "\<forall>e \<in> set (wf_edges def). \<not> leaves_body (ed_from le) body e" by (simp add: exit_edges_iff)
    then show ?thesis using leaving [of "\<lambda>_ _. True"] by (auto simp: gen Inr)
  qed
qed

section \<open>Sample loops\<close>

text \<open>
  Steps \<open>a\<close>, \<open>b\<close>, \<open>c\<close>, \<open>x\<close> in a chain.  The inner loop edge leads from \<open>b\<close> to \<open>a\<close>, the outer one from
  \<open>c\<close> to \<open>a\<close>, so the inner body is part of the outer one.
\<close>

definition loop_edge :: "string \<Rightarrow> string \<Rightarrow> dag_edge" where
  "loop_edge u v = (plain_edge u v EdgeTypeLoop)\<lparr>ed_condition := ''true'', ed_max_iterations := 3\<rparr>"

definition nested :: workflow where
  "nested = \<lparr>wf_name = ''nested'', wf_steps = map plain_step [''a'', ''b'', ''c'', ''x''],
     wf_edges = [plain_edge ''a'' ''b'' EdgeTypeNormal, plain_edge ''b'' ''c'' EdgeTypeNormal, plain_edge ''c'' ''x'' EdgeTypeNormal,
       loop_edge ''b'' ''a'', loop_edge ''c'' ''a''],
     wf_on_failure = None, wf_deadline = None, wf_budget_nano_usd = None, wf_on_budget_exceeded = None\<rparr>"

definition own_config :: "dag_step \<Rightarrow> string + step_config" where
  "own_config s = Inr (st_config s)"

definition loop_config :: "string list \<Rightarrow> nat \<Rightarrow> dag_step \<Rightarrow> string + step_config" where
  "loop_config body iter s = Inr (st_config s)"

definition loop_plan :: "dag_edge \<Rightarrow> string \<Rightarrow> nat \<Rightarrow> plan_output" where
  "loop_plan le current iter = (case GenerateLoopExpansion own_config loop_config nested le current iter of
     Inr plan \<Rightarrow> plan | Inl _ \<Rightarrow> \<lparr>pl_schema_version = 0, pl_steps = [], pl_edges = []\<rparr>)"

text \<open>The run of \<open>nested\<close> with \<open>current\<close> completing and the steps of \<open>added\<close> spliced in and done.\<close>

definition loop_input :: "string \<Rightarrow> plan_output list \<Rightarrow> plan_output \<Rightarrow> expansion_input" where
  "loop_input current added plan =
     \<lparr>xi_plan = plan, xi_origin = \<lparr>xo_kind = OriginLoop, xo_step_id = current, xo_depth = 0\<rparr>,
      xi_existing = map (\<lambda>sid. (sid, anchor StepNoop (if sid = current then AnchorActive
          else if sid \<in> set [''x''] \<or> (sid = ''c'' \<and> added = []) then AnchorPending else AnchorTerminal)))
        (map st_id (wf_steps nested @ concat (map pl_steps added))),
      xi_existing_edges = wf_edges nested @ concat (map pl_edges added),
      xi_per_expansion_cap = 0, xi_caps = default_expansion_caps, xi_current_step_count = 4, xi_expansions_so_far = 0\<rparr>"


lemma nested_rel: "edge_rel (wf_edges nested) = {(''a'', ''b''), (''b'', ''c''), (''c'', ''x'')}"
  by (simp add: nested_def loop_edge_def plain_edge_def IsLoop_def)

lemma nested_acyclic: "acyclic {(''a'', ''b''), (''b'', ''c''), (''c'', ''x'')}"
  by (rule acyclic_subset [OF wf_acyclic [OF wf_measure
    [of "\<lambda>s. if s = ''a'' then 0 else if s = ''b'' then 1 else if s = ''c'' then 2 else 3"]]]) simp

lemma nested_span: "span nested ''b'' ''a'' = {''a'', ''b''}"
proof -
  have "y = ''a'' \<or> y = ''b''" if "(y, ''b'') \<in> (edge_rel (wf_edges nested))\<^sup>*" for y
    using that by (induction rule: converse_rtrancl_induct) (auto simp: nested_rel)
  moreover have "(''a'', ''b'') \<in> edge_rel (wf_edges nested)" by (simp add: nested_rel)
  ultimately show ?thesis unfolding span_def by blast
qed

lemma nested_valid: "loop_valid all_compile nested (loop_edge ''b'' ''a'')"
proof -
  have "(''a'', ''b'') \<in> (edge_rel (wf_edges nested))\<^sup>+" by (rule r_into_trancl) (simp add: nested_rel)
  moreover have "loop_edge ''b'' ''a'' \<in> set (wf_edges nested)" "\<forall>s \<in> set (wf_steps nested). stepIDRe (st_id s)"
    "\<forall>e \<in> set (wf_edges nested). checkExpansionEdgeFields all_compile 0 e = []" by code_simp+
  ultimately show ?thesis unfolding loop_valid_def nested_rel using nested_acyclic by (simp add: loop_edge_def plain_edge_def)
qed

definition first_iteration :: expansion_input where
  "first_iteration = loop_input ''b'' [] (loop_plan (loop_edge ''b'' ''a'') ''b'' 1)"

lemma first_iteration_plan:
  "GenerateLoopExpansion own_config loop_config nested (loop_edge ''b'' ''a'') ''b'' 1 = Inr (xi_plan first_iteration)"
  by code_simp

lemma loop_edge_ends: "ed_from (loop_edge u v) = u" "ed_to (loop_edge u v) = v"
  by (simp_all add: loop_edge_def plain_edge_def)

lemma first_iteration_edges: "xi_existing_edges first_iteration = wf_edges nested"
  by (simp add: first_iteration_def loop_input_def)

lemma first_iteration_anchors:
  "existing first_iteration ''c'' = Some (anchor StepNoop AnchorPending)"
  "existing first_iteration ''b'' = Some (anchor StepNoop AnchorActive)"
  "existing first_iteration (instanceID ''a'' 1) = None" "existing first_iteration (instanceID ''b'' 1) = None"
  by code_simp+


theorem loop_expansion_total_witness: "\<not> leaves nested (loop_edge ''b'' ''a'') ''a'' ''b''"
proof -
  obtain g where "NewGraph nested = Inr g"
    using first_iteration_plan by (auto simp: GenerateLoopExpansion_def split: sum.splits)
  from loop_expansion_total [OF this nested_valid, of own_config loop_config "''b''" 1]
  have "\<forall>(u, v) \<in> edge_rel (wf_edges nested). leaves nested (loop_edge ''b'' ''a'') u v \<longrightarrow> u = ''b''"
    unfolding first_iteration_plan loop_edge_ends by (simp add: own_config_def loop_config_def)
  then show ?thesis by (auto simp: nested_rel)
qed

end
