(* ===== verification/Engine_Loop.thy ===== *)
theory Engine_Loop
  imports Dag_Loops
begin

text \<open>
  The decision of a loop source's completion, \<^verbatim>\<open>internal/engine/loop.go\<close>: iterate, exit, stop at the
  iteration cap or stop for lack of progress.

  \<open>def\<close> is the decoded definition snapshot of the run.  Arguments stand for the CEL library
  (\<open>compile\<close>, \<open>eval\<close>), the database read of the compared instances (\<open>listByIDs\<close>, \<open>None\<close> when it
  fails) and the SHA-256 of the canonical JSON a pointer selects (\<open>outputHash\<close>, \<open>None\<close> when the pointer
  does not resolve).
\<close>

record loop_exhausted_event =
  lx_loop_source_step :: string
  lx_loop_source_instance :: string
  lx_body_entry :: string
  lx_iteration :: int
  lx_max_iterations :: int
  lx_condition :: string
  lx_policy :: string
  lx_action :: string

record loop_no_progress_event =
  ln_loop_source_step :: string
  ln_loop_source_instance :: string
  ln_compared_step :: string
  ln_path :: string
  ln_iteration :: int
  ln_prev_instance :: string
  ln_cur_instance :: string
  ln_hash :: string
  ln_policy :: string
  ln_action :: string

datatype loop_outcome =
  LoopNone | LoopContinue plan_output | LoopExit
| LoopExhaust loop_exhausted_event bool | LoopNoProgress loop_no_progress_event bool

datatype loop_error = LoopConditionCompile string | LoopConditionEval string string | LoopGenerate int generate_error

definition loopIteration :: "string \<Rightarrow> int" where
  "loopIteration sid = threadIteration sid"

definition loopInstanceID :: "string \<Rightarrow> int \<Rightarrow> string" where
  "loopInstanceID authored iter = (if iter \<le> 0 then authored else instanceID authored (nat iter))"

definition findLoopEdge :: "workflow \<Rightarrow> string \<Rightarrow> dag_edge option" where
  "findLoopEdge def authored = find (\<lambda>e. IsLoop e \<and> ed_from e = authored) (wf_edges def)"

definition loopAuthoredDepth :: "step_row \<Rightarrow> int" where
  "loopAuthoredDepth s = (if s_origin_kind s = Some OriginLoop then s_depth s - 1 else s_depth s)"

definition exhaust_policy :: "string \<Rightarrow> string" where
  "exhaust_policy p = (if p = [] then ''proceed'' else p)"

definition exhaust_action :: "string \<Rightarrow> string" where
  "exhaust_action p = (if p = ''fail'' then ''fail'' else ''proceed'')"

definition checkNoProgress :: "(raw \<Rightarrow> string \<Rightarrow> string option) \<Rightarrow> (string list \<Rightarrow> (string \<times> raw) list option)
    \<Rightarrow> string \<Rightarrow> dag_edge \<Rightarrow> no_progress_guard \<Rightarrow> raw \<Rightarrow> int \<Rightarrow> loop_no_progress_event option" where
  "checkNoProgress outputHash listByIDs sid le guard out iteration =
     (let guardStep = (if np_step guard = [] then ed_from le else np_step guard);
          own = (guardStep = ed_from le);
          curInstance = (if own then sid else loopInstanceID guardStep iteration);
          prevInstance = loopInstanceID guardStep (iteration - 1);
          need = prevInstance # (if own then [] else [curInstance])
      in case listByIDs need of None \<Rightarrow> None | Some rows \<Rightarrow>
         (case (if own \<and> out \<noteq> None then Some out else map_of rows curInstance) of None \<Rightarrow> None | Some curData \<Rightarrow>
         (case map_of rows prevInstance of None \<Rightarrow> None | Some prevData \<Rightarrow>
         (case (outputHash curData (np_path guard), outputHash prevData (np_path guard)) of
            (Some curHash, Some prevHash) \<Rightarrow>
              if curHash \<noteq> prevHash then None
              else let policy = exhaust_policy (np_policy guard)
                   in Some \<lparr>ln_loop_source_step = authoredStepID sid, ln_loop_source_instance = sid,
                        ln_compared_step = guardStep, ln_path = np_path guard, ln_iteration = iteration,
                        ln_prev_instance = prevInstance, ln_cur_instance = curInstance, ln_hash = curHash,
                        ln_policy = policy, ln_action = exhaust_action policy\<rparr>
          | _ \<Rightarrow> None))))"

definition loopDecision :: "(string \<Rightarrow> expr_status) \<Rightarrow> (string \<Rightarrow> raw \<Rightarrow> string + bool) \<Rightarrow> (raw \<Rightarrow> string \<Rightarrow> string option)
    \<Rightarrow> (string list \<Rightarrow> (string \<times> raw) list option) \<Rightarrow> (dag_step \<Rightarrow> string + step_config)
    \<Rightarrow> (string list \<Rightarrow> nat \<Rightarrow> dag_step \<Rightarrow> string + step_config) \<Rightarrow> workflow \<Rightarrow> string \<Rightarrow> raw \<Rightarrow> loop_error + loop_outcome" where
  "loopDecision compile eval outputHash listByIDs resolve rewrite def sid out =
     (let authored = authoredStepID sid in
      case findLoopEdge def authored of None \<Rightarrow> Inr LoopNone | Some le \<Rightarrow>
      if compile (ed_condition le) \<noteq> ExprOk then Inl (LoopConditionCompile authored)
      else case eval (ed_condition le) out of Inl e \<Rightarrow> Inl (LoopConditionEval authored e) | Inr iterate \<Rightarrow>
      if \<not> iterate then Inr LoopExit
      else let iteration = loopIteration sid in
      if iteration \<ge> ed_max_iterations le
      then let policy = exhaust_policy (ed_on_exhausted le)
           in Inr (LoopExhaust \<lparr>lx_loop_source_step = authored, lx_loop_source_instance = sid, lx_body_entry = ed_to le,
                lx_iteration = iteration, lx_max_iterations = ed_max_iterations le, lx_condition = ed_condition le,
                lx_policy = policy, lx_action = exhaust_action policy\<rparr> (policy = ''fail''))
      else case (case ed_no_progress le of None \<Rightarrow> None | Some guard \<Rightarrow>
                  if iteration \<ge> 1
                  then map_option (\<lambda>np. (np, np_policy guard = ''fail'')) (checkNoProgress outputHash listByIDs sid le guard out iteration)
                  else None) of
             Some (np, fail) \<Rightarrow> Inr (LoopNoProgress np fail)
           | None \<Rightarrow>
             (case GenerateLoopExpansion resolve rewrite def le sid (nat (iteration + 1)) of
                Inl e \<Rightarrow> Inl (LoopGenerate (iteration + 1) e) | Inr plan \<Rightarrow> Inr (LoopContinue plan)))"

section \<open>Iterations\<close>

lemma loopInstanceID_authored: "stepIDRe src \<Longrightarrow> authoredStepID (loopInstanceID src n) = src"
  by (simp add: loopInstanceID_def authoredStepID_plain stepIDRe_no_sep)

lemma loopInstanceID_iteration:
  "stepIDRe src \<Longrightarrow> 0 \<le> n \<Longrightarrow> n < 2 ^ 63 \<Longrightarrow> loopIteration (loopInstanceID src n) = n"
  by (auto simp: loopInstanceID_def loopIteration_def threadIteration_instance)
    (simp add: threadIteration_def stepIDRe_no_sep)

text \<open>
  \<open>unrolls def src n sid\<close>: the instance \<open>sid\<close> of the loop source \<open>src\<close> is reached after \<open>n\<close> decisions
  to continue, each taken with outputs, reads and evaluations of its own.
\<close>

inductive unrolls :: "workflow \<Rightarrow> string \<Rightarrow> nat \<Rightarrow> string \<Rightarrow> bool" for def src where
  authored: "unrolls def src 0 src"
| continue: "unrolls def src n sid
    \<Longrightarrow> loopDecision compile eval outputHash listByIDs resolve rewrite def sid out = Inr (LoopContinue plan)
    \<Longrightarrow> sid' \<in> set (map st_id (pl_steps plan)) \<Longrightarrow> authoredStepID sid' = src \<Longrightarrow> unrolls def src (Suc n) sid'"

lemma loopDecision_continue:
  assumes "loopDecision compile eval outputHash listByIDs resolve rewrite def sid out = Inr (LoopContinue plan)"
  obtains le where "findLoopEdge def (authoredStepID sid) = Some le" "loopIteration sid < ed_max_iterations le"
    "GenerateLoopExpansion resolve rewrite def le sid (nat (loopIteration sid + 1)) = Inr plan"
  using assms unfolding loopDecision_def Let_def by (auto split: option.splits sum.splits if_splits)

lemma unrolls_bounded:
  assumes "unrolls def src n sid" and src: "stepIDRe src" and le: "findLoopEdge def src = Some le"
    and valid: "loop_valid compile def le" and cap: "ed_max_iterations le \<le> MaxLoopIterations"
  shows "sid = loopInstanceID src (int n) \<and> (n = 0 \<or> int n \<le> ed_max_iterations le)"
  using assms(1)
proof induction
  case authored
  then show ?case by (simp add: loopInstanceID_def)
next
  case (continue n sid compile eval outputHash listByIDs resolve rewrite out plan sid')
  from continue.IH have sid: "sid = loopInstanceID src (int n)" and n: "int n \<le> MaxLoopIterations"
    using cap by (auto simp: MaxLoopIterations_def)
  have it: "loopIteration sid = int n"
    unfolding sid by (rule loopInstanceID_iteration [OF src]) (use n in \<open>simp_all add: MaxLoopIterations_def\<close>)
  obtain le' where "findLoopEdge def (authoredStepID sid) = Some le'" and lt: "loopIteration sid < ed_max_iterations le'"
    and plan: "GenerateLoopExpansion resolve rewrite def le' sid (nat (loopIteration sid + 1)) = Inr plan"
    by (rule loopDecision_continue [OF continue.hyps(2)])
  moreover have "authoredStepID sid = src" unfolding sid by (rule loopInstanceID_authored [OF src])
  ultimately have le': "le' = le" using le by simp
  have suc: "nat (loopIteration sid + 1) = Suc n" using it by simp
  obtain body where body: "map st_id (pl_steps plan) = map (\<lambda>sid. instanceID sid (Suc n)) (sort body)"
    "\<And>x. x \<in> set body \<Longrightarrow> x \<in> st_id ` set (wf_steps def)"
    by (rule GenerateLoopExpansion_plan [OF plan [unfolded le' suc] valid]) blast
  with continue.hyps(3) obtain x where x: "sid' = instanceID x (Suc n)" "x \<in> st_id ` set (wf_steps def)" by auto
  then have "authoredStepID sid' = x" using valid
    by (auto simp: loop_valid_def authoredStepID_plain stepIDRe_no_sep)
  with x(1) continue.hyps(4) have "sid' = loopInstanceID src (int (Suc n))"
    unfolding loopInstanceID_def nat_int by simp
  with lt show ?case by (simp add: le' it)
qed

text \<open>
  C34.  A loop ends.  Every instance of the source of a validated loop is iteration \<open>n\<close> of it, for
  an \<open>n\<close> of at most \<open>max_iterations\<close>, however the condition evaluates and whatever the steps
  return; so the source decides to continue at most \<open>max_iterations\<close> times.
\<close>

theorem loop_terminates:
  assumes "unrolls def src n sid" and "stepIDRe src" and "findLoopEdge def src = Some le"
    and "loop_valid compile def le" and "ed_max_iterations le \<le> MaxLoopIterations"
  shows "sid = loopInstanceID src (int n) \<and> loopIteration sid = int n \<and> (n = 0 \<or> int n \<le> ed_max_iterations le)"
proof -
  have b: "sid = loopInstanceID src (int n)" "n = 0 \<or> int n \<le> ed_max_iterations le"
    using unrolls_bounded [OF assms] by simp_all
  moreover from b assms(5) have "int n < 2 ^ 63" by (auto simp: MaxLoopIterations_def)
  ultimately show ?thesis using loopInstanceID_iteration [OF assms(2), of "int n"] by simp
qed

text \<open>
  What iteration \<open>n\<close> of a loop source does when it completes with its condition true, read
  off the iteration number: it stops at \<open>max_iterations\<close> under the edge's policy; otherwise it
  stops if the guard finds the outputs of iterations \<open>n\<close> and \<open>n - 1\<close> of the compared step equal;
  otherwise it generates iteration \<open>n + 1\<close>.
\<close>

theorem loopDecision_by_iteration:
  assumes "stepIDRe src" and "findLoopEdge def src = Some le" and "compile (ed_condition le) = ExprOk"
    and "eval (ed_condition le) out = Inr True" and "0 \<le> n" and "n < 2 ^ 63"
  shows "case loopDecision compile eval outputHash listByIDs resolve rewrite def (loopInstanceID src n) out of
      Inr (LoopExhaust ev fail) \<Rightarrow> ed_max_iterations le \<le> n \<and> lx_iteration ev = n \<and> fail = (ed_on_exhausted le = ''fail'')
    | Inr (LoopNoProgress ev fail) \<Rightarrow> 1 \<le> n \<and> n < ed_max_iterations le \<and> ln_iteration ev = n
        \<and> ln_prev_instance ev = loopInstanceID (ln_compared_step ev) (n - 1)
        \<and> ln_cur_instance ev = loopInstanceID (ln_compared_step ev) n
    | Inr (LoopContinue plan) \<Rightarrow> n < ed_max_iterations le
        \<and> GenerateLoopExpansion resolve rewrite def le (loopInstanceID src n) (nat (n + 1)) = Inr plan
    | Inl err \<Rightarrow> n < ed_max_iterations le
        \<and> (\<exists>e. err = LoopGenerate (n + 1) e \<and> GenerateLoopExpansion resolve rewrite def le (loopInstanceID src n) (nat (n + 1)) = Inl e)
    | _ \<Rightarrow> False"
proof -
  have a: "authoredStepID (loopInstanceID src n) = src" by (rule loopInstanceID_authored [OF assms(1)])
  have i: "loopIteration (loopInstanceID src n) = n" by (rule loopInstanceID_iteration [OF assms(1,5,6)])
  have from_le: "ed_from le = src" using assms(2) by (auto simp: findLoopEdge_def find_Some_iff)
  have np: "ln_iteration ev = n \<and> ln_prev_instance ev = loopInstanceID (ln_compared_step ev) (n - 1)
      \<and> ln_cur_instance ev = loopInstanceID (ln_compared_step ev) n"
    if "checkNoProgress outputHash listByIDs (loopInstanceID src n) le guard out n = Some ev" for guard ev
    using that from_le by (auto simp: checkNoProgress_def Let_def split: option.splits if_splits)
  show ?thesis
  proof (cases "ed_max_iterations le \<le> n")
    case True
    then show ?thesis using assms(2-4) by (simp add: loopDecision_def a i exhaust_policy_def Let_def)
  next
    case False
    then show ?thesis using assms(2-4) np
      by (auto simp: loopDecision_def a i Let_def split: option.splits sum.splits if_splits)
  qed
qed

section \<open>A sample loop\<close>

abbreviation always :: "string \<Rightarrow> raw \<Rightarrow> string + bool" where "always \<equiv> \<lambda>_ _. Inr True"
abbreviation no_hash :: "raw \<Rightarrow> string \<Rightarrow> string option" where "no_hash \<equiv> \<lambda>_ _. None"
abbreviation no_rows :: "string list \<Rightarrow> (string \<times> raw) list option" where "no_rows \<equiv> \<lambda>_. None"

lemma nested_edge: "findLoopEdge nested ''b'' = Some (loop_edge ''b'' ''a'')"
  by code_simp

lemma b_authored: "stepIDRe ''b''" "authoredStepID ''b#1'' = ''b''"
  by code_simp+

lemma nested_continues:
  "loopDecision all_compile always no_hash no_rows own_config loop_config nested ''b'' None
     = Inr (LoopContinue (loop_plan (loop_edge ''b'' ''a'') ''b'' 1))"
  "''b#1'' \<in> set (map st_id (pl_steps (loop_plan (loop_edge ''b'' ''a'') ''b'' 1)))"
  by code_simp+

theorem loop_terminates_witness: "loopIteration ''b#1'' = 1 \<and> (1::int) \<le> ed_max_iterations (loop_edge ''b'' ''a'')"
proof -
  have "unrolls nested ''b'' (Suc 0) ''b#1''"
    by (rule unrolls.continue [OF unrolls.authored nested_continues b_authored(2)])
  moreover have max: "ed_max_iterations (loop_edge ''b'' ''a'') = 3" by (simp add: loop_edge_def plain_edge_def)
  ultimately have "loopIteration ''b#1'' = int (Suc 0)"
    using loop_terminates [OF _ b_authored(1) nested_edge nested_valid] by (auto simp: max MaxLoopIterations_def simp del: of_nat_Suc)
  then show ?thesis by (simp add: max)
qed

theorem loopDecision_by_iteration_witness:
  "\<exists>ev. loopDecision all_compile always no_hash no_rows own_config loop_config nested (loopInstanceID ''b'' 3) None
     = Inr (LoopExhaust ev False) \<and> lx_iteration ev = 3"
proof -
  have "ed_max_iterations (loop_edge ''b'' ''a'') = 3" by (simp add: loop_edge_def plain_edge_def)
  moreover have "ed_on_exhausted (loop_edge ''b'' ''a'') = []" by (simp add: loop_edge_def plain_edge_def)
  ultimately show ?thesis
    using loopDecision_by_iteration [OF b_authored(1) nested_edge, where compile = all_compile and eval = always and out = None
      and n = 3 and outputHash = no_hash and listByIDs = no_rows and resolve = own_config and rewrite = loop_config]
    by (auto split: sum.splits loop_outcome.splits)
qed

end
