(* ===== verification/Spec2Isabelle.thy ===== *)
theory Spec2Isabelle
  imports Engine_Outcomes Engine_Loop
begin

text \<open>
  A verification library for agentloom, a durable workflow engine: the Go sources under
  \<^verbatim>\<open>src/internal\<close>.

  \<^bold>\<open>The program.\<close>  A workflow definition is a graph of steps and edges.  Creating a run writes its rows
  to Postgres: the run, its steps, its edges, an event log and an outbox of dispatch tasks.  Workers
  claim ready steps, execute them and complete them in one transaction each; the completion resolves
  the step's out-edges, makes successors ready or skips them, prices the attempt, writes the step's
  blackboard entries, may splice new steps into the graph and finally tries to end the run.  Claims are
  fenced by a claim id, so that a worker that lost its step cannot write.  Failures are retried,
  dead-lettered or tolerated; a policy decides what a dead letter does to the rest of the run.

  \<^bold>\<open>The model.\<close>  One run is the record \<open>rundb\<close> of its tables.  A statement is a function on it, a guarded
  transition composes statements, and a transaction composes transitions; an error is a value of a sum
  type and drops the writes of its transaction.  Time is an integer number of nanoseconds, a UUID is a
  natural number that the caller supplies, a JSON column is a \<open>json\<close> value.  Integers are unbounded
  where the columns are far from their range and wrap at 64 bits (\<open>wrap64\<close>) where the code computes
  prices and budgets.  What is not under \<^verbatim>\<open>src\<close> is an argument: the CEL library (\<open>predicate\<close>,
  \<open>compile\<close>, \<open>eval\<close>), hashes, the executors' hooks, tokenizers.

  \<^bold>\<open>Store.\<close>
  \<^item> \<open>Prelude\<close>: results, updates of keyed lists, the facts about lists that all theories share.
  \<^item> \<open>Store_Types\<close>, \<open>Store_Queries\<close>: the rows of \<^verbatim>\<open>store/gen/models.go\<close> and the statements of
    \<^verbatim>\<open>store/gen/*.sql.go\<close>.
  \<^item> \<open>Store_Transitions\<close>, \<open>Store_Approvals\<close>: every guarded transition of \<^verbatim>\<open>store/transitions.go\<close>,
    \<^verbatim>\<open>approval.go\<close>, \<^verbatim>\<open>budget.go\<close> and \<^verbatim>\<open>loop.go\<close>, with the diagnosis of conflicts (\<open>stepConflict\<close>,
    \<open>runConflict\<close>) and the transaction wrapper of \<^verbatim>\<open>tx.go\<close>.
  \<^item> \<open>Store_Moves\<close>: the abstract moves of a run (a step, an edge, the run or a side table changes) and
    \<open>Store_Refinement\<close>: each transition refines them.
  \<^item> \<open>Store_Invariants\<close>: the cross-table invariant \<open>db_inv\<close> (counters, attempts, dead letters, dependency
    counters, the numbering of events), kept by the moves through the locale \<open>store_invariant\<close>;
    \<open>Store_Ops\<close> collects the transitions into \<open>store_op\<close>.
  \<^item> \<open>Store_Instantiate\<close>: the plan and the insert transaction of \<^verbatim>\<open>instantiate.go\<close> and \<^verbatim>\<open>materialize.go\<close>.
  \<^item> \<open>Store_Total\<close>, \<open>Store_Progress\<close>: within the invariant a transition whose guard holds cannot fail; what
    is final stays final, the log only grows, and a completion under a stale claim is refused (locale
    \<open>fenced_completion\<close>).
  \<^item> \<open>Store_Expand\<close>: the expansion transaction of \<^verbatim>\<open>expand.go\<close>.
  \<^item> \<open>Costs\<close>: the cost ledger of \<^verbatim>\<open>costs.go\<close> and the pricing of attempts in \<^verbatim>\<open>engine/cost.go\<close>.

  \<^bold>\<open>Definitions and graphs.\<close>
  \<^item> \<open>Dag_Retry\<close>: retry policies and their stored form, \<^verbatim>\<open>dag/retry.go\<close>.
  \<^item> \<open>Dag_Graph\<close>, \<open>Dag_Order\<close>, \<open>Dag_Ready\<close>, \<open>Dag_Cycles\<close>: construction, topological order, reachability,
    readiness and the cycle search of \<^verbatim>\<open>dag/graph.go\<close> and \<^verbatim>\<open>ready.go\<close>, against the relation of the
    normal edges.
  \<^item> \<open>Dag_Expansion\<close>: the check of a plan against the run's graph, \<^verbatim>\<open>dag/expansion.go\<close>; \<open>Dag_Generate\<close> and
    \<open>Dag_Loops\<close>: the plans of maps and loops, \<^verbatim>\<open>mapexpand.go\<close> and \<^verbatim>\<open>loopexpand.go\<close>.

  \<^bold>\<open>Engine.\<close>
  \<^item> \<open>Engine_Fanout\<close>, \<open>Engine_Flow\<close>: the verdicts on out-edges and the work list of \<^verbatim>\<open>complete.go\<close>; \<open>quiet\<close>
    says that no pending step is due to move, \<open>flows\<close> that edges resolve exactly with their sources.
  \<^item> \<open>Engine_Control\<close>, \<open>Engine_Rollup\<close>, \<open>Engine_Progress\<close>: rollups, the failure policy, cancel, park, unpark
    and requeue, \<^verbatim>\<open>deadletter.go\<close> and \<^verbatim>\<open>runctl.go\<close>.
  \<^item> \<open>Engine_Loop\<close>: the decision of a loop source, \<^verbatim>\<open>loop.go\<close>.
  \<^item> \<open>Backoff\<close>: retry and throttle delays and the classes of errors, \<^verbatim>\<open>backoff.go\<close> and \<^verbatim>\<open>classify.go\<close>.
  \<^item> \<open>Engine_Complete\<close>: the completion transactions of \<^verbatim>\<open>complete.go\<close>, \<^verbatim>\<open>validate.go\<close>, \<^verbatim>\<open>budget.go\<close> and
    \<^verbatim>\<open>approval.go\<close>, over the run's tables, its ledger and its blackboard together (\<open>txdb\<close>), and the histories
    they make (\<open>engine_step\<close>); \<open>Engine_Outcomes\<close>: what a committed success and a committed failure come to.
  \<^item> \<open>Budget\<close>: the claim-time budget check and the model downgrade, \<^verbatim>\<open>budget.go\<close> and \<^verbatim>\<open>downgrade.go\<close>.

  \<^bold>\<open>Services.\<close>
  \<^item> \<open>Ratelimit\<close>, \<open>Resource_Limits\<close>: the token-bucket scripts of \<^verbatim>\<open>ratelimit\<close> and the limiter above them.
  \<^item> \<open>Pricing\<close>: the catalog of \<^verbatim>\<open>internal/cost\<close>.
  \<^item> \<open>Blackboard\<close>: the versioned board of \<^verbatim>\<open>internal/blackboard\<close>, \<^verbatim>\<open>store/blackboard.go\<close> and its pages in
    \<^verbatim>\<open>api/blackboard.go\<close>.

  \<^bold>\<open>What the theorems show.\<close>  Safety: any interleaving of completions, transitions, expansions, board writes
  and charges, from the creation of the run, keeps the invariant, the references between tables, the
  exactness of the money totals and the numbering of the board; nothing final is rewritten; stale workers
  change nothing.  Functional correctness: readiness,
  cycle search, write-off, rollup and expansion compute what their specification says on every input, errors
  included; a failed attempt is retried exactly while its policy allows.  Progress: fan-out ends and leaves no step that should have moved, the failure policy leaves no step
  that can never settle when it runs (a join that is cut off later is the run of
  \<open>late_join_strands_run\<close>), loops end, a denied rate-limit request succeeds after the wait it was told.  Bounds:
  buckets never over-grant, and a cleared claim stays within its budgets.

  \<^bold>\<open>Recursion.\<close>  No definition takes fuel.  The loops that are not structural have measures: the pending
  steps for the fan-out work list, the unmarked steps for the write-off and the search loops, the white and
  grey nodes for the cycle search.

  \<^bold>\<open>Not modelled.\<close>
  \<^item> Concurrency inside a transaction: each transition locks the run row first, so the transactions of
    one run are serial, and histories interleave whole transactions.
  \<^item> The handlers around the completion transactions (\<^verbatim>\<open>claim.go\<close> and the parts of \<^verbatim>\<open>complete.go\<close> and
    \<^verbatim>\<open>validate.go\<close> before and after their transactions): what they prepare comes from executors and validators,
    which are network calls, and is an argument of the transaction; what they do after the commit is
    scheduling on the queue.
  \<^item> Decoding, encoding and validating definition documents, and the rewriting of references inside template
    strings: they work on JSON text with positions; the theories start from decoded values.
  \<^item> Redis streams and delayed sets of \<^verbatim>\<open>internal/queue\<close>, providers, tools, caches, the HTTP server, the
    command-line programs and the web application: their behaviour is that of external services.
  \<^item> Rounding of floating-point prices, budgets and balances: they are exact rationals.
  \<^item> Logs, metrics and traces.
\<close>

section \<open>Histories of the engine\<close>

text \<open>
  C1.  The engine keeps its tables consistent.  After the transaction that created the run, let completions,
  store transitions, blackboard writes and charges follow in any order and with any arguments, each
  committed or dropped as a whole: the cross-table invariant holds, every attempt and dead letter
  belongs to a step, the money totals of the run are the sums over its ledger, no attempt is charged
  twice under one entry, and the versions of every blackboard key count up from one.
\<close>

theorem engine_histories_keep_invariants:
  assumes "CreateRun_tx def args = Inr (rn, db)" and "engine_step\<^sup>*\<^sup>* \<lparr>tx_run = db, tx_ledger = [], tx_board = []\<rparr> tx"
  shows "\<exists>r. run (tx_run tx) = Some r \<and> db_inv (tx_run tx) \<and> refs_ok (tx_run tx)
    \<and> r_spent_nano_usd r = sum_list (map cl_cost (tx_ledger tx)) \<and> r_saved_nano_usd r = sum_list (map cl_saved (tx_ledger tx))
    \<and> distinct (map cost_key (tx_ledger tx))
    \<and> (\<forall>k. map be_version (versions_of k (tx_board tx)) = [1..int (length (versions_of k (tx_board tx)))])"
proof -
  have inv: "tx_inv tx" by (rule engine_steps_inv [OF assms])
  then have "db_inv (tx_run tx)" by (simp add: tx_inv_def ledger_inv_def)
  then obtain r where "run (tx_run tx) = Some r" by (rule db_inv_run_log)
  moreover have "board_inv \<lparr>bd_run = tx_run tx, bd_entries = tx_board tx\<rparr>" using inv by (simp add: tx_inv_def)
  ultimately show ?thesis using inv board_inv_versions
    by (fastforce simp: tx_inv_def ledger_inv_def run_spend_def sumCostLedgerByRun_def)
qed

theorem engine_histories_keep_invariants_witness:
  "\<exists>r. run (tx_run diamond_claimed) = Some r \<and> db_inv (tx_run diamond_claimed) \<and> r_spent_nano_usd r = 0"
proof -
  obtain rn where created: "CreateRun_tx diamond plain_args = Inr (rn, diamond_run)" by (rule diamond_run_created)
  have reached: "engine_step\<^sup>*\<^sup>* \<lparr>tx_run = diamond_run, tx_ledger = [], tx_board = []\<rparr> diamond_claimed"
    by (rule r_into_rtranclp [of engine_step, OF diamond_claim])
  have "tx_ledger diamond_claimed = []" by code_simp
  then show ?thesis using engine_histories_keep_invariants [OF created reached] by auto
qed

end
